(* ===== verification/Prelude.thy ===== *)
theory Prelude
  imports Main "HOL-Library.Word" "HOL-Library.Monad_Syntax" "HOL-Library.List_Lexorder"
begin

text \<open>
  Shared vocabulary of the development: the Rust integer types at their width, byte strings,
  little-endian encoding, checked arithmetic on \<open>usize\<close> (a 64-bit target is assumed throughout),
  UTF-8 validity, and the generic list lemmas the components use.
  Named collections:
    \<^item> \<open>wire_enc\<close>: rules that build a successful parse of an encoding,
    \<^item> \<open>wire_dec\<close>: rules that analyse what a successful parse has consumed,
    \<^item> \<open>le_simps\<close>: equations of the little-endian codec.
\<close>

named_theorems wire_enc
named_theorems wire_dec
named_theorems le_simps

type_synonym byte = "8 word"
type_synonym bytes = "8 word list"
type_synonym u8 = "8 word"
type_synonym u16 = "16 word"
type_synonym u32 = "32 word"
type_synonym u64 = "64 word"

section \<open>Checked arithmetic\<close>

text \<open>\<open>usize\<close> values are naturals below \<open>2 ^ 64\<close>; the checked operations of the standard
  library return \<^const>\<open>None\<close> where the exact result does not fit.\<close>

abbreviation usize_bound :: nat where
  "usize_bound \<equiv> 2 ^ 64"

definition usize_checked_add :: "nat \<Rightarrow> nat \<Rightarrow> nat option" where
  "usize_checked_add a b = (if a + b < usize_bound then Some (a + b) else None)"

definition usize_checked_mul :: "nat \<Rightarrow> nat \<Rightarrow> nat option" where
  "usize_checked_mul a b = (if a * b < usize_bound then Some (a * b) else None)"

definition u32_try_from :: "nat \<Rightarrow> u32 option" where
  "u32_try_from n = (if n < 2 ^ 32 then Some (word_of_nat n) else None)"

text \<open>Unchecked \<open>u64\<close> addition and subtraction, on naturals, with the wrap-around of a release build.\<close>

definition u64_add :: "nat \<Rightarrow> nat \<Rightarrow> nat" where
  "u64_add a b = (a + b) mod 2 ^ 64"

definition u64_sub :: "nat \<Rightarrow> nat \<Rightarrow> nat" where
  "u64_sub a b = (a + (2 ^ 64 - b)) mod 2 ^ 64"

lemma u64_add_exact: "a + b < 2 ^ 64 \<Longrightarrow> u64_add a b = a + b"
  by (simp add: u64_add_def)

lemma u64_sub_exact: "b \<le> a \<Longrightarrow> a < 2 ^ 64 \<Longrightarrow> u64_sub a b = a - b"
proof -
  assume "b \<le> a" "a < 2 ^ 64"
  then have "a + (2 ^ 64 - b) = (a - b) + 2 ^ 64" by simp
  then have "(a + (2 ^ 64 - b)) mod 2 ^ 64 = (a - b) mod 2 ^ 64" by simp
  also have "\<dots> = a - b" using \<open>a < 2 ^ 64\<close> by (intro mod_less) linarith
  finally show ?thesis unfolding u64_sub_def .
qed

lemma u32_try_from_Some [simp]: "n < 2 ^ 32 \<Longrightarrow> u32_try_from n = Some (word_of_nat n)"
  by (simp add: u32_try_from_def)

lemma u32_try_from_eq_Some: "u32_try_from n = Some w \<longleftrightarrow> n < 2 ^ 32 \<and> w = word_of_nat n"
  by (auto simp: u32_try_from_def)

lemma unat_u32_of_nat [simp]: "n < 2 ^ 32 \<Longrightarrow> unat (word_of_nat n :: u32) = n"
  by (simp add: unat_of_nat)

lemma unat_u64_of_nat [simp]: "n < 2 ^ 64 \<Longrightarrow> unat (word_of_nat n :: u64) = n"
  by (simp add: unat_of_nat)

lemma unat_u8_lt: "unat (b :: u8) < 256"
  using unsigned_less [of b] by simp

lemma unat_u16_lt: "unat (w :: u16) < 65536"
  using unsigned_less [of w] by simp

lemma unat_u32_lt: "unat (w :: u32) < 4294967296"
  using unsigned_less [of w] by simp

lemma unat_u64_lt: "unat (w :: u64) < 18446744073709551616"
  using unsigned_less [of w] by simp

lemma usize_checked_mul_small:
  "a < 4294967296 \<Longrightarrow> b \<le> 4294967296 \<Longrightarrow> usize_checked_mul a b = Some (a * b)"
proof -
  assume "a < 4294967296" "b \<le> 4294967296"
  then have "a * b \<le> 4294967295 * 4294967296"
    by (intro mult_le_mono) auto
  then show ?thesis by (simp add: usize_checked_mul_def)
qed

section \<open>Little-endian encoding\<close>

primrec le_bytes :: "nat \<Rightarrow> nat \<Rightarrow> bytes" where
  "le_bytes 0 x = []"
| "le_bytes (Suc n) x = word_of_nat x # le_bytes n (x div 256)"

primrec le_val :: "bytes \<Rightarrow> nat" where
  "le_val [] = 0"
| "le_val (b # bs) = unat b + 256 * le_val bs"

lemma length_le_bytes [simp]: "length (le_bytes n x) = n"
  by (induction n arbitrary: x) auto

lemma le_val_bound: "le_val bs < 256 ^ length bs"
proof (induction bs)
  case Nil
  show ?case by simp
next
  case (Cons b bs)
  have "le_val bs + 1 \<le> 256 ^ length bs" using Cons by simp
  then have "256 * (le_val bs + 1) \<le> 256 * 256 ^ length bs" by (rule mult_le_mono2)
  moreover have "unat b + 256 * le_val bs < 256 * (le_val bs + 1)"
    using unat_u8_lt [of b] by simp
  ultimately have "unat b + 256 * le_val bs < 256 * 256 ^ length bs"
    by (rule less_le_trans [rotated])
  then show ?case by simp
qed

lemma unat_u8_of_nat: "unat (word_of_nat x :: u8) = x mod 256"
  by (simp add: unat_of_nat)

lemma le_val_le_bytes [le_simps]: "le_val (le_bytes n x) = x mod 256 ^ n"
proof (induction n arbitrary: x)
  case 0
  show ?case by simp
next
  case (Suc n)
  have "x mod 256 + 256 * (x div 256 mod 256 ^ n) = x mod (256 * 256 ^ n)"
    by (metis add.commute mod_mult2_eq)
  with Suc show ?case by (simp add: unat_u8_of_nat)
qed

lemma le_bytes_le_val [le_simps]: "le_bytes (length bs) (le_val bs) = bs"
proof (induction bs)
  case Nil
  show ?case by simp
next
  case (Cons b bs)
  have "(unat b + 256 * le_val bs) div 256 = le_val bs"
    using unat_u8_lt [of b] by simp
  moreover have "(word_of_nat (unat b + 256 * le_val bs) :: u8) = b"
    unfolding word_unat_eq_iff unat_u8_of_nat using unat_u8_lt [of b] by simp
  ultimately show ?case using Cons by simp
qed

text \<open>\<open>to_le_bytes\<close> and \<open>from_le_bytes\<close> of the unsigned integer types.\<close>

definition u16_to_le_bytes :: "u16 \<Rightarrow> bytes" where
  "u16_to_le_bytes w = le_bytes 2 (unat w)"

definition u32_to_le_bytes :: "u32 \<Rightarrow> bytes" where
  "u32_to_le_bytes w = le_bytes 4 (unat w)"

definition u64_to_le_bytes :: "u64 \<Rightarrow> bytes" where
  "u64_to_le_bytes w = le_bytes 8 (unat w)"

definition u16_from_le_bytes :: "bytes \<Rightarrow> u16" where
  "u16_from_le_bytes bs = word_of_nat (le_val bs)"

definition u32_from_le_bytes :: "bytes \<Rightarrow> u32" where
  "u32_from_le_bytes bs = word_of_nat (le_val bs)"

definition u64_from_le_bytes :: "bytes \<Rightarrow> u64" where
  "u64_from_le_bytes bs = word_of_nat (le_val bs)"

lemma length_to_le_bytes [simp]:
  "length (u16_to_le_bytes a) = 2" "length (u32_to_le_bytes b) = 4" "length (u64_to_le_bytes c) = 8"
  by (simp_all add: u16_to_le_bytes_def u32_to_le_bytes_def u64_to_le_bytes_def)

lemma from_to_le_bytes [simp]:
  "u16_from_le_bytes (u16_to_le_bytes a) = a"
  "u32_from_le_bytes (u32_to_le_bytes b) = b"
  "u64_from_le_bytes (u64_to_le_bytes c) = c"
  using unat_u16_lt [of a] unat_u32_lt [of b] unat_u64_lt [of c]
  by (simp_all add: u16_to_le_bytes_def u32_to_le_bytes_def u64_to_le_bytes_def
      u16_from_le_bytes_def u32_from_le_bytes_def u64_from_le_bytes_def le_simps)

lemma to_from_le_bytes:
  "length bs = 2 \<Longrightarrow> u16_to_le_bytes (u16_from_le_bytes bs) = bs"
  "length bs = 4 \<Longrightarrow> u32_to_le_bytes (u32_from_le_bytes bs) = bs"
  "length bs = 8 \<Longrightarrow> u64_to_le_bytes (u64_from_le_bytes bs) = bs"
  using le_val_bound [of bs] le_bytes_le_val [of bs]
  by (simp_all add: u16_to_le_bytes_def u32_to_le_bytes_def u64_to_le_bytes_def
      u16_from_le_bytes_def u32_from_le_bytes_def u64_from_le_bytes_def unat_of_nat)

text \<open>Evaluation of the codec on a literal width.\<close>

lemma le_bytes_numeral: "le_bytes (numeral k) x = word_of_nat x # le_bytes (pred_numeral k) (x div 256)"
  unfolding numeral_eq_Suc [of k] le_bytes.simps ..

section \<open>UTF-8\<close>

text \<open>A Rust \<open>str\<close> is a byte string that passes \<open>core::str::from_utf8\<close>; the model keeps the
  bytes. The predicate is the standard library's table of well-formed sequences.\<close>

definition utf8_cont :: "byte \<Rightarrow> bool" where
  "utf8_cont b \<longleftrightarrow> 128 \<le> unat b \<and> unat b \<le> 191"

definition utf8_second :: "byte \<Rightarrow> byte \<Rightarrow> bool" where
  "utf8_second a b \<longleftrightarrow>
     (if a = 224 then 160 \<le> unat b \<and> unat b \<le> 191
      else if a = 237 then 128 \<le> unat b \<and> unat b \<le> 159
      else if a = 240 then 144 \<le> unat b \<and> unat b \<le> 191
      else if a = 244 then 128 \<le> unat b \<and> unat b \<le> 143
      else utf8_cont b)"

fun utf8_valid :: "bytes \<Rightarrow> bool" where
  "utf8_valid [] = True"
| "utf8_valid (a # bs) =
     (if unat a < 128 then utf8_valid bs
      else if 194 \<le> unat a \<and> unat a \<le> 223 then
        (case bs of b # rest \<Rightarrow> utf8_cont b \<and> utf8_valid rest | _ \<Rightarrow> False)
      else if 224 \<le> unat a \<and> unat a \<le> 239 then
        (case bs of b # c # rest \<Rightarrow> utf8_second a b \<and> utf8_cont c \<and> utf8_valid rest | _ \<Rightarrow> False)
      else if 240 \<le> unat a \<and> unat a \<le> 244 then
        (case bs of b # c # d # rest \<Rightarrow>
           utf8_second a b \<and> utf8_cont c \<and> utf8_cont d \<and> utf8_valid rest | _ \<Rightarrow> False)
      else False)"

lemma utf8_valid_ascii: "\<forall>b \<in> set bs. unat b < 128 \<Longrightarrow> utf8_valid bs"
  by (induction bs) auto

section \<open>Lists\<close>

text \<open>\<open>concat\<close> of a list of encodings, each of which may panic.\<close>

fun concat_opt :: "bytes option list \<Rightarrow> bytes option" where
  "concat_opt [] = Some []"
| "concat_opt (x # xs) = do { b \<leftarrow> x; bs \<leftarrow> concat_opt xs; Some (b @ bs) }"

lemma concat_opt_eq_None: "concat_opt xs = None \<longleftrightarrow> None \<in> set xs"
proof (induction xs)
  case Nil
  show ?case by simp
next
  case (Cons a xs)
  then show ?case by (cases a; cases "concat_opt xs") auto
qed

lemma concat_opt_append:
  "concat_opt (xs @ ys) = do { a \<leftarrow> concat_opt xs; b \<leftarrow> concat_opt ys; Some (a @ b) }"
proof (induction xs)
  case Nil
  show ?case by (cases "concat_opt ys") auto
next
  case (Cons a xs)
  then show ?case by (cases a; cases "concat_opt xs"; cases "concat_opt ys") auto
qed

lemma concat_opt_map_Some: "concat_opt (map (\<lambda>x. Some (f x)) xs) = Some (concat (map f xs))"
  by (induction xs) auto

lemma length_concat_map_const:
  "\<forall>x \<in> set xs. length (f x) = k \<Longrightarrow> length (concat (map f xs)) = k * length xs"
  by (induction xs) auto

lemma length_concat_ge:
  "\<forall>x \<in> set xs. k \<le> length (f x) \<Longrightarrow> k * length xs \<le> length (concat (map f xs))"
proof (induction xs)
  case Nil
  show ?case by simp
next
  case (Cons x xs)
  then have "k \<le> length (f x)" and "k * length xs \<le> length (concat (map f xs))"
    by auto
  then show ?case by simp
qed

lemma concat_opt_length_ge:
  "concat_opt xs = Some bs \<Longrightarrow> (\<And>b. Some b \<in> set xs \<Longrightarrow> k \<le> length b)
    \<Longrightarrow> k * length xs \<le> length bs"
proof (induction xs arbitrary: bs)
  case Nil
  then show ?case by simp
next
  case (Cons x xs)
  from Cons.prems(1) obtain a as where "x = Some a" "concat_opt xs = Some as" "bs = a @ as"
    by (cases x; cases "concat_opt xs") auto
  with Cons.IH [of as] Cons.prems(2) show ?case by fastforce
qed

text \<open>The duplicate checks scan the entries parsed so far for an equal key.\<close>

lemma list_ex_key: "list_ex (\<lambda>e. f e = x) es \<longleftrightarrow> x \<in> f ` set es"
  by (auto simp: list_ex_iff image_iff)

text \<open>\<open>chunks(n)\<close> of a slice: consecutive pieces of \<open>n\<close> elements, the last one possibly shorter.\<close>

fun chunks :: "nat \<Rightarrow> 'a list \<Rightarrow> 'a list list" where
  "chunks n [] = []"
| "chunks n (x # xs) = (if n = 0 then [x # xs] else take n (x # xs) # chunks n (drop n (x # xs)))"

lemma concat_chunks [simp]: "concat (chunks n xs) = xs"
proof (induction n xs rule: chunks.induct)
  case (2 n x xs)
  show ?case
  proof (cases "n = 0")
    case False
    with 2 have "concat (chunks n (drop n (x # xs))) = drop n (x # xs)" by simp
    with False show ?thesis by (metis append_take_drop_id chunks.simps(2) concat.simps(2))
  qed simp
qed simp

lemma chunks_length_le:
  "0 < n \<Longrightarrow> c \<in> set (chunks n xs) \<Longrightarrow> 0 < length c \<and> length c \<le> n"
proof (induction n xs rule: chunks.induct)
  case (2 n x xs)
  then show ?case by (cases "c = take n (x # xs)") auto
qed simp

lemma chunks_exact_map:
  assumes "\<forall>x \<in> set xs. length (f x) = n" and "0 < n"
  shows "chunks n (concat (map f xs)) = map f xs"
  using assms
proof (induction xs)
  case Nil
  show ?case by simp
next
  case (Cons x xs)
  then have "f x \<noteq> []" and len: "length (f x) = n" by auto
  then obtain y ys where fx: "f x = y # ys" by (cases "f x") auto
  have "take n (f x @ concat (map f xs)) = f x" and "drop n (f x @ concat (map f xs)) = concat (map f xs)"
    using len by simp_all
  with Cons fx show ?case by simp
qed

end
