(* ===== verification/Core_Error.thy ===== *)
theory Core_Error
  imports Prelude
begin

text \<open>
  The error type of the core parsers (\<open>limnifs-core/src/error.rs\<close>). The source carries a formatted
  message in \<open>Corrupt\<close> and \<open>UnsupportedFeature\<close>; the model has one constructor per message, with
  the interpolated values as its arguments, so two errors of the model are equal exactly when the
  source would raise the same message.
\<close>

datatype manifest_section =
  FeatureFlagsSection | MetadataReferenceSection | SlabIndexSection | EcParamsSection
| DmsPolicySection | HistorySection | DeltaLinkageSection | DictionariesSection | ProfileDescriptorSection

datatype feature =
  SectionVersion manifest_section u8
| PolynomialUnsupported u16
| DmsSchemeExtended
| DmsSchemeUnsupported u8
| HistoryOpExtended
| HistoryOpReserved u8
| TreeOpExtended nat
| TreeOpReserved nat u8
| SlabFormatVersion u16
| EcDescriptorExtended
| CryptoHintExtended
| DirectoryNodeVersion u8
| DropAead u8
| SolidWindowIndex u8
| SeekableWithDictionary
| CodecUnregistered string u8 "(u8 \<times> string) list"
| FeatureInEntry nat feature
| FeatureText string

datatype flags_reason = FlagIdReserved nat | FlagRequiredByte nat u8 | FlagDuplicate nat u16

datatype locator_reason =
  LocatorCountOverflows nat | LocatorTooShort u32 | LocatorTooLong u32 u32 | LocatorNotUtf8 nat
| LocatorNoSeparator bytes | LocatorEmptyScheme bytes | LocatorBadScheme bytes bytes
| LocatorEmptyRest bytes | NotFileUri bytes | NotFlatFileName bytes

datatype slab_index_reason = SlabIdDuplicate nat u64 bytes | SlabZeroLocators nat u64

datatype ec_label = EcDefault | EcOverrideOf nat u64

datatype ec_reason =
  ShardKZero ec_label | ShardMZero ec_label | ShardCountExceeds ec_label u16
| EcOverrideDuplicate nat u64

datatype metaref_reason =
  InlineMetadataTooLong u32 u32 | MetadataDecompressFailed u8 | MetadataLenMismatch u32 u32
| MetadataUnreachable nat | MetadataNoSource | SidecarUnreadable bytes

datatype dms_reason =
  DmsKZero | DmsNZero | DmsKExceedsN u8 u8 | DmsShareCount u32 u8 | DmsDuplicateCustodian nat bytes
| DmsStringTooLong u32 u32 | DmsStringNotUtf8 | DmsEmptyCustodian nat | DmsEmptyShare nat
| DmsShareTooLong nat u32 u32 | DmsHintTooLong u32 u32 | DmsHintNotUtf8

datatype history_reason =
  HistoryEmpty | HistoryInputsOverflow nat | HistoryParamsTooLong u32 u32

datatype delta_reason =
  TreeOpEmptyPath nat | TreeOpNotUtf8 nat | TreeOpNulByte nat | TreeOpEmptyComponent nat

datatype slab_reason =
  BadSlabMagic bytes | SlabLengthBelowHeader u64 | SlabLengthAboveCeiling u64 u64
| SlabLengthMismatch nat nat | SlabCursorPastEnd nat u64 | SlabRecordsOverran nat nat u64
| SlabTrailingBytes nat | SlabWindowSumOverflow nat

datatype drop_reason =
  DropTooLong u32 u64 | DropAeadInPlainSlab u8 | DropEcInPlainSlab u8 | DropWindowOverflow u32 u32
| DropRangePastSlab nat nat nat | DropDictMissing u8 | DropRangeOutside u64 nat nat
| DropBytesTruncated nat nat nat

datatype dir_reason =
  DirNodeEmptyName nat | DirNodeSlash nat | DirNodeNul nat | DirNodeNotUtf8 nat
| DirNodeNotSorted bytes bytes | DirNodeEntryType nat u8

datatype inode_reason =
  InodeReservedFlags u64 u8 | InodeUnknownType u64 u32 | XattrNamespace u8 | XattrNotUtf8 | XattrNul
| InodeInlineTooLong u64 u32 u32 | InodeSliceEmpty u64 u64 u64 | InodeSliceGap u64 nat u64 u64
| SymlinkNotUtf8

datatype blob_reason =
  InodeCountOverflows nat | DirNodeCountOverflows nat | SharedInlineTooLong u32 u32
| SharedInlineIndex nat nat

datatype seek_reason =
  SeekTooSmall nat | SeekBadMagic | SeekBadVersion u16 | SeekFrameCountOverruns nat nat
| SeekBodyMismatch nat nat | SeekZeroFrame | SeekTotalMismatch nat u32 | SeekRangeOutside u64 nat nat
| SeekFrameTooLong

datatype codec_reason = CodecPanicked string | StoreLengthMismatch nat nat | FilterPrefixTooShort string

datatype paged_reason = PagedReadOverflow u64 nat | PagedOverDelivered nat nat nat

datatype store_reason =
  StoreZeroLocators nat | StoreBadLocator nat bytes | StoreUnreadable nat bytes
| StreamDropMissing bytes | StreamWriteFailed

datatype reader_reason =
  CacheRangeOutside u64 nat nat | NoSlabStore | DropInNoSlab
| SlabUnopenable bytes | NoUniqueRoot | RootInodeMissing | PathBadComponent bytes | PathNotDirectory bytes
| PathNodeMissing bytes | PathNotFound bytes | PathInodeMissing bytes u64 | PathNotRegular bytes | ExtractIo

datatype name_reason =
  NameEmpty | NameDot | NameDotDot | NameAbsolute | NameSeparator | NameNul | NameBackslash

datatype tree_reason =
  WalkRootMissing u64 | WalkNodeMissing bytes | WalkBadName bytes bytes name_reason | WalkInodeMissing u64
| PlaintextDropMissing bytes | PlaintextRange nat nat nat | PlaintextNoStore | ChunksNoStore | TreeIo

datatype epoch_reason =
  EpochBadMagic u32 | EpochVersion u16 | EpochUnknownOpcode u8 | EpochPathNotUtf8 nat
| EpochIdMismatch bytes bytes

text \<open>Where an epoch parser was when the cursor failed: the field's label, with the operation's or drop's index.\<close>

datatype epoch_place = EpochHeaderField string | EpochOpsCount | EpochOpField nat string
| EpochDropsCount | EpochDropField nat string

text \<open>Some messages quote the error they replace, so the two types are mutually recursive.\<close>

datatype reason =
  ReadOverflow nat nat
| ReservedNonzero bytes
| CountOverflows manifest_section nat
| DictionaryTooLong u32 u32
| ProfileNameNotUtf8
| FlagsReason flags_reason
| LocatorReason locator_reason
| SlabIndexReason slab_index_reason
| EcReason ec_reason
| MetarefReason metaref_reason
| DmsReason dms_reason
| HistoryReason history_reason
| DeltaReason delta_reason
| SlabReason slab_reason
| DropReason drop_reason
| DirReason dir_reason
| InodeReason inode_reason
| BlobReason blob_reason
| SeekReason seek_reason
| PagedReason paged_reason
| StoreReason store_reason
| ReaderReason reader_reason
| CodecReason codec_reason
| InEntry nat reason
| SlabOrdinal nat reason
| EpochReason epoch_reason
| TreeReason tree_reason
| PlaintextDecode core_error
| EpochTruncated epoch_place core_error
| ReasonText string

and core_error =
  TooShort nat nat
| BadMagic bytes
| Corrupt reason
| UnsupportedFeature feature

type_synonym 'a outcome = "core_error + 'a"

end
