(* ===== verification/Cursor.thy ===== *)
theory Cursor
  imports Core_Error
begin

text \<open>
  The bounds-checked cursor every section parser reads through (\<open>limnifs-core/src/cursor.rs\<close>) and the
  algebra of parsers over it. A parser takes the cursor and returns an error, or a value with the
  advanced cursor; the position after an error is unspecified in the source and absent here.

  Two judgements carry all wire-format proofs:
    \<^item> \<open>parses p bs v\<close>: wherever \<open>bs\<close> occurs in a buffer, \<open>p\<close> reads it as \<open>v\<close> and stops right after it;
    \<^item> \<open>preads p Q\<close>: whenever \<open>p\<close> succeeds with \<open>v\<close>, the bytes it consumed satisfy \<open>Q v\<close>, nothing else
      of the buffer changed, and the cursor is still inside it.
  The locale \<open>wire_format\<close> states the contract of a section (parser, encoder, validity) and derives that
  the parser accepts exactly the encodings of valid values.
\<close>

section \<open>The cursor\<close>

record cursor =
  cur_bytes :: bytes
  cur_pos :: nat

type_synonym 'a parser = "cursor \<Rightarrow> core_error + 'a \<times> cursor"

definition cursor_new :: "bytes \<Rightarrow> cursor" where
  "cursor_new bs = \<lparr>cur_bytes = bs, cur_pos = 0\<rparr>"

definition cursor_at_start :: "bytes \<Rightarrow> nat \<Rightarrow> cursor outcome" where
  "cursor_at_start bs start =
     (if start > length bs then Inl (TooShort (length bs) start)
      else Inr \<lparr>cur_bytes = bs, cur_pos = start\<rparr>)"

definition remaining_len :: "cursor \<Rightarrow> nat" where
  "remaining_len c =
     (if cur_pos c \<ge> length (cur_bytes c) then 0 else length (cur_bytes c) - cur_pos c)"

definition remaining :: "cursor \<Rightarrow> bytes" where
  "remaining c = drop (cur_pos c) (cur_bytes c)"

definition read_n :: "nat \<Rightarrow> bytes parser" where
  "read_n n c =
     (case usize_checked_add (cur_pos c) n of
        None \<Rightarrow> Inl (Corrupt (ReadOverflow n (cur_pos c)))
      | Some end_pos \<Rightarrow>
          if end_pos > length (cur_bytes c) then Inl (TooShort (remaining_len c) n)
          else Inr (take n (drop (cur_pos c) (cur_bytes c)), c\<lparr>cur_pos := end_pos\<rparr>))"

section \<open>Sequencing\<close>

definition pret :: "'a \<Rightarrow> 'a parser" where
  "pret v c = Inr (v, c)"

definition perr :: "core_error \<Rightarrow> 'a parser" where
  "perr e c = Inl e"

text \<open>The \<open>?\<close> operator: stop at the first error, otherwise go on from the advanced cursor.\<close>

definition pbind :: "'a parser \<Rightarrow> ('a \<Rightarrow> 'b parser) \<Rightarrow> 'b parser" where
  "pbind p f c = (case p c of Inl e \<Rightarrow> Inl e | Inr (v, c') \<Rightarrow> f v c')"

definition pmap_err :: "(core_error \<Rightarrow> core_error) \<Rightarrow> 'a parser \<Rightarrow> 'a parser" where
  "pmap_err g p c = (case p c of Inl e \<Rightarrow> Inl (g e) | Inr r \<Rightarrow> Inr r)"

text \<open>A check that does not read: an outcome lifted to a parser.\<close>

definition plift :: "'a outcome \<Rightarrow> 'a parser" where
  "plift r c = (case r of Inl e \<Rightarrow> Inl e | Inr v \<Rightarrow> Inr (v, c))"

text \<open>The pre-allocation check of the section parsers: \<open>TooShort\<close> unless \<open>need\<close> bytes remain.\<close>

definition pensure :: "nat \<Rightarrow> unit parser" where
  "pensure need c =
     (if remaining_len c < need then Inl (TooShort (remaining_len c) need) else Inr ((), c))"

text \<open>The \<open>for index in 0..n\<close> loops that push one parsed entry per round. The body sees the index and
  the entries so far.\<close>

fun ploop :: "(nat \<Rightarrow> 'a list \<Rightarrow> 'a parser) \<Rightarrow> nat \<Rightarrow> nat \<Rightarrow> 'a list \<Rightarrow> 'a list parser" where
  "ploop body i 0 acc = pret acc"
| "ploop body i (Suc n) acc = pbind (body i acc) (\<lambda>x. ploop body (Suc i) n (acc @ [x]))"

section \<open>The primitive readers\<close>

definition skip :: "nat \<Rightarrow> unit parser" where
  "skip n = pbind (read_n n) (\<lambda>_. pret ())"

definition read_u8 :: "u8 parser" where
  "read_u8 = pbind (read_n 1) (\<lambda>bs. pret (bs ! 0))"

definition read_u16_le :: "u16 parser" where
  "read_u16_le = pbind (read_n 2) (\<lambda>bs. pret (u16_from_le_bytes [bs ! 0, bs ! 1]))"

definition read_u32_le :: "u32 parser" where
  "read_u32_le =
     pbind (read_n 4) (\<lambda>bs. pret (u32_from_le_bytes [bs ! 0, bs ! 1, bs ! 2, bs ! 3]))"

definition read_u64_le :: "u64 parser" where
  "read_u64_le = pbind (read_n 8) (\<lambda>bs. pret (u64_from_le_bytes bs))"

definition read_magic :: "bytes parser" where
  "read_magic = read_n 4"

definition read_n_owned :: "nat \<Rightarrow> bytes parser" where
  "read_n_owned n = read_n n"

section \<open>Parsing an encoding\<close>

definition parses :: "'a parser \<Rightarrow> bytes \<Rightarrow> 'a \<Rightarrow> bool" where
  "parses p bs v \<longleftrightarrow>
     (\<forall>pre suf. length (pre @ bs @ suf) < usize_bound \<longrightarrow>
        p \<lparr>cur_bytes = pre @ bs @ suf, cur_pos = length pre\<rparr>
          = Inr (v, \<lparr>cur_bytes = pre @ bs @ suf, cur_pos = length pre + length bs\<rparr>))"

lemma parsesD:
  "parses p bs v \<Longrightarrow> length pre + length bs + length suf < usize_bound \<Longrightarrow>
   p \<lparr>cur_bytes = pre @ bs @ suf, cur_pos = length pre\<rparr>
     = Inr (v, \<lparr>cur_bytes = pre @ bs @ suf, cur_pos = length pre + length bs\<rparr>)"
  by (simp add: parses_def)

lemma parses_pret [wire_enc]: "v = w \<Longrightarrow> parses (pret v) [] w"
  by (simp add: parses_def pret_def)

lemma parses_bind:
  assumes p: "parses p bs v" and f: "parses (f v) bs' w"
  shows "parses (pbind p f) (bs @ bs') w"
  unfolding parses_def
proof (intro allI impI)
  fix pre suf
  assume len: "length (pre @ (bs @ bs') @ suf) < usize_bound"
  from p len have "p \<lparr>cur_bytes = pre @ bs @ (bs' @ suf), cur_pos = length pre\<rparr>
      = Inr (v, \<lparr>cur_bytes = pre @ bs @ (bs' @ suf), cur_pos = length pre + length bs\<rparr>)"
    by (intro parsesD) auto
  moreover from f len have "f v \<lparr>cur_bytes = (pre @ bs) @ bs' @ suf, cur_pos = length (pre @ bs)\<rparr>
      = Inr (w, \<lparr>cur_bytes = (pre @ bs) @ bs' @ suf, cur_pos = length (pre @ bs) + length bs'\<rparr>)"
    by (intro parsesD) auto
  ultimately show "pbind p f \<lparr>cur_bytes = pre @ (bs @ bs') @ suf, cur_pos = length pre\<rparr>
      = Inr (w, \<lparr>cur_bytes = pre @ (bs @ bs') @ suf, cur_pos = length pre + length (bs @ bs')\<rparr>)"
    by (simp add: pbind_def add.assoc)
qed

lemma parses_read_n: "n = length bs \<Longrightarrow> parses (read_n n) bs bs"
  by (auto simp: parses_def read_n_def usize_checked_add_def)

text \<open>A step that reads a known piece at the front, in the two shapes an encoding takes.\<close>

lemma parses_read_n_bind [wire_enc]:
  "length bs = n \<Longrightarrow> parses (f bs) rest w \<Longrightarrow> parses (pbind (read_n n) f) (bs @ rest) w"
  by (rule parses_bind [OF parses_read_n]) auto

lemma parses_read_n_last [wire_enc]:
  "length bs = n \<Longrightarrow> parses (f bs) [] w \<Longrightarrow> parses (pbind (read_n n) f) bs w"
  using parses_read_n_bind [of bs n f "[]" w] by simp

lemma parses_u8: "parses read_u8 [b] b"
  unfolding read_u8_def by (rule wire_enc | simp)+

lemma parses_u16: "parses read_u16_le (u16_to_le_bytes w) w"
proof -
  have "[u16_to_le_bytes w ! 0, u16_to_le_bytes w ! 1] = u16_to_le_bytes w"
    by (rule nth_equalityI) (auto simp: less_Suc_eq numeral_eq_Suc)
  then have "u16_from_le_bytes [u16_to_le_bytes w ! 0, u16_to_le_bytes w ! 1] = w" by simp
  then show ?thesis unfolding read_u16_le_def by (intro wire_enc) simp_all
qed

lemma parses_u32: "parses read_u32_le (u32_to_le_bytes w) w"
proof -
  let ?b = "u32_to_le_bytes w"
  have "[?b ! 0, ?b ! 1, ?b ! 2, ?b ! 3] = ?b"
    by (rule nth_equalityI) (auto simp: less_Suc_eq numeral_eq_Suc)
  then have "u32_from_le_bytes [?b ! 0, ?b ! 1, ?b ! 2, ?b ! 3] = w" by simp
  then show ?thesis unfolding read_u32_le_def by (intro wire_enc) simp_all
qed

lemma parses_u64: "parses read_u64_le (u64_to_le_bytes w) w"
  unfolding read_u64_le_def by (intro wire_enc) simp_all

lemma parses_u8_bind [wire_enc]:
  "parses (f b) rest w \<Longrightarrow> parses (pbind read_u8 f) (b # rest) w"
  using parses_bind [OF parses_u8, of f b rest w] by simp

lemma parses_u16_bind [wire_enc]:
  "parses (f x) rest w \<Longrightarrow> parses (pbind read_u16_le f) (u16_to_le_bytes x @ rest) w"
  by (rule parses_bind [OF parses_u16])

lemma parses_u32_bind [wire_enc]:
  "parses (f x) rest w \<Longrightarrow> parses (pbind read_u32_le f) (u32_to_le_bytes x @ rest) w"
  by (rule parses_bind [OF parses_u32])

lemma parses_u32_last [wire_enc]:
  "parses (f x) [] w \<Longrightarrow> parses (pbind read_u32_le f) (u32_to_le_bytes x) w"
  using parses_bind [OF parses_u32, of f x "[]" w] by simp

lemma parses_u64_bind [wire_enc]:
  "parses (f x) rest w \<Longrightarrow> parses (pbind read_u64_le f) (u64_to_le_bytes x @ rest) w"
  by (rule parses_bind [OF parses_u64])

lemma parses_u64_last [wire_enc]:
  "parses (f x) [] w \<Longrightarrow> parses (pbind read_u64_le f) (u64_to_le_bytes x) w"
  using parses_bind [OF parses_u64, of f x "[]" w] by simp

lemma parses_ensure [wire_enc]:
  "need \<le> length bs \<Longrightarrow> parses k bs w \<Longrightarrow> parses (pbind (pensure need) (\<lambda>_. k)) bs w"
  by (auto simp: parses_def pbind_def pensure_def remaining_len_def)

lemma parses_lift [wire_enc]:
  "r = Inr v \<Longrightarrow> parses (f v) bs w \<Longrightarrow> parses (pbind (plift r) f) bs w"
  by (auto simp: parses_def pbind_def plift_def)

lemma parses_if_err [wire_enc]: "\<not> b \<Longrightarrow> parses p bs w \<Longrightarrow> parses (if b then perr e else p) bs w"
  by simp

lemma parses_option [wire_enc]:
  "x = Some y \<Longrightarrow> parses (f y) bs w \<Longrightarrow> parses (case x of None \<Rightarrow> p | Some y \<Rightarrow> f y) bs w"
  by simp

lemma parses_bind_last: "parses p bs v \<Longrightarrow> parses (f v) [] w \<Longrightarrow> parses (pbind p f) bs w"
  using parses_bind [of p bs v f "[]" w] by simp

lemma parses_map_err: "parses p bs w \<Longrightarrow> parses (pmap_err g p) bs w"
  by (auto simp: parses_def pmap_err_def)

lemma pbind_map_err_Inr: "pbind (pmap_err g p) f c = Inr r \<longleftrightarrow> pbind p f c = Inr r"
  by (simp add: pbind_def pmap_err_def split: sum.splits)

lemma parses_map_err_bind [wire_enc]: "parses (pbind p f) bs w \<Longrightarrow> parses (pbind (pmap_err g p) f) bs w"
  by (simp add: parses_def pbind_map_err_Inr)

lemma parses_loop:
  assumes "\<And>j. j < length xs \<Longrightarrow> enc (xs ! j) \<noteq> None
      \<and> (\<forall>bs. enc (xs ! j) = Some bs \<longrightarrow> parses (body (i + j) (acc @ take j xs)) bs (xs ! j))"
    and "concat_opt (map enc xs) = Some all"
  shows "parses (ploop body i (length xs) acc) all (acc @ xs)"
  using assms
proof (induction xs arbitrary: i acc all)
  case Nil
  then show ?case by (simp add: parses_pret)
next
  case (Cons x xs)
  from Cons.prems(2) obtain b rest where b: "enc x = Some b"
    and rest: "concat_opt (map enc xs) = Some rest" and all: "all = b @ rest"
    by (cases "enc x"; cases "concat_opt (map enc xs)") auto
  have "parses (body i acc) b x"
    using Cons.prems(1) [of 0] b by simp
  moreover have "parses (ploop body (Suc i) (length xs) (acc @ [x])) rest ((acc @ [x]) @ xs)"
  proof (rule Cons.IH [OF _ rest])
    fix j assume "j < length xs"
    then show "enc (xs ! j) \<noteq> None \<and> (\<forall>bs. enc (xs ! j) = Some bs \<longrightarrow>
        parses (body (Suc i + j) ((acc @ [x]) @ take j xs)) bs (xs ! j))"
      using Cons.prems(1) [of "Suc j"] by simp
  qed
  ultimately show ?case unfolding all by (auto intro: parses_bind)
qed

section \<open>What a successful parse has consumed\<close>

definition wf_cursor :: "cursor \<Rightarrow> bool" where
  "wf_cursor c \<longleftrightarrow> cur_pos c \<le> length (cur_bytes c)"

definition preads :: "'a parser \<Rightarrow> ('a \<Rightarrow> bytes \<Rightarrow> bool) \<Rightarrow> bool" where
  "preads p Q \<longleftrightarrow>
     (\<forall>c v c'. wf_cursor c \<longrightarrow> p c = Inr (v, c') \<longrightarrow>
        (\<exists>bs rest. remaining c = bs @ rest \<and> Q v bs \<and> c' = c\<lparr>cur_pos := cur_pos c + length bs\<rparr>))"

lemma wf_cursor_advance:
  "wf_cursor c \<Longrightarrow> remaining c = bs @ rest \<Longrightarrow> wf_cursor (c\<lparr>cur_pos := cur_pos c + length bs\<rparr>)
    \<and> remaining (c\<lparr>cur_pos := cur_pos c + length bs\<rparr>) = rest"
proof -
  assume wf: "wf_cursor c" and rem: "remaining c = bs @ rest"
  from rem have "length (cur_bytes c) - cur_pos c = length bs + length rest"
    by (metis length_append length_drop remaining_def)
  moreover have "drop (length bs) (drop (cur_pos c) (cur_bytes c)) = rest"
    using rem by (simp add: remaining_def)
  ultimately show ?thesis using wf by (auto simp: wf_cursor_def remaining_def add.commute)
qed

lemma preadsI:
  "(\<And>c v c'. wf_cursor c \<Longrightarrow> p c = Inr (v, c') \<Longrightarrow>
      \<exists>bs rest. remaining c = bs @ rest \<and> Q v bs \<and> c' = c\<lparr>cur_pos := cur_pos c + length bs\<rparr>)
    \<Longrightarrow> preads p Q"
  by (auto simp: preads_def)

lemma preadsE:
  assumes "preads p Q" "wf_cursor c" "p c = Inr (v, c')"
  obtains bs rest where "remaining c = bs @ rest" "Q v bs" "c' = c\<lparr>cur_pos := cur_pos c + length bs\<rparr>"
  using assms unfolding preads_def by blast

lemma preads_bind:
  assumes p: "preads p R" and f: "\<And>v b. R v b \<Longrightarrow> preads (f v) (\<lambda>w b'. Q w (b @ b'))"
  shows "preads (pbind p f) Q"
proof (rule preadsI)
  fix c w c' assume wf: "wf_cursor c" and run: "pbind p f c = Inr (w, c')"
  then obtain v c1 where 1: "p c = Inr (v, c1)" and 2: "f v c1 = Inr (w, c')"
    by (auto simp: pbind_def split: sum.splits)
  from preadsE [OF p wf 1] obtain b r
    where b: "remaining c = b @ r" "R v b" "c1 = c\<lparr>cur_pos := cur_pos c + length b\<rparr>" .
  from wf_cursor_advance [OF wf b(1)] b(3) have wf1: "wf_cursor c1" and rem1: "remaining c1 = r"
    by simp_all
  from preadsE [OF f [OF b(2)] wf1 2] obtain b' r'
    where b': "remaining c1 = b' @ r'" "Q w (b @ b')" "c' = c1\<lparr>cur_pos := cur_pos c1 + length b'\<rparr>" .
  show "\<exists>bs rest. remaining c = bs @ rest \<and> Q w bs \<and> c' = c\<lparr>cur_pos := cur_pos c + length bs\<rparr>"
    using b b' rem1 by (intro exI [of _ "b @ b'"] exI [of _ r']) (simp add: add.assoc)
qed

lemma preads_mono: "preads p R \<Longrightarrow> (\<And>v b. R v b \<Longrightarrow> Q v b) \<Longrightarrow> preads p Q"
  unfolding preads_def by blast

lemma preads_read_n: "preads (read_n n) (\<lambda>v b. b = v \<and> length v = n)"
proof (rule preadsI)
  fix c v c' assume "wf_cursor c" and "read_n n c = Inr (v, c')"
  then have v: "v = take n (remaining c)" and len: "cur_pos c + n \<le> length (cur_bytes c)"
    and c': "c' = c\<lparr>cur_pos := cur_pos c + n\<rparr>"
    by (auto simp: read_n_def usize_checked_add_def remaining_def split: if_splits option.splits)
  from len have "length v = n" by (simp add: v remaining_def)
  then show "\<exists>bs rest. remaining c = bs @ rest \<and> (bs = v \<and> length v = n)
      \<and> c' = c\<lparr>cur_pos := cur_pos c + length bs\<rparr>"
    using v c' by (intro exI [of _ v] exI [of _ "drop n (remaining c)"]) simp
qed

lemma preads_pret [wire_dec]: "Q v [] \<Longrightarrow> preads (pret v) Q"
  by (auto simp: preads_def pret_def intro: exI [of _ "[]"])

lemma preads_perr [wire_dec]: "preads (perr e) Q"
  by (auto simp: preads_def perr_def)

lemma preads_read_n_bind [wire_dec]:
  "(\<And>b. length b = n \<Longrightarrow> preads (f b) (\<lambda>w b'. Q w (b @ b'))) \<Longrightarrow> preads (pbind (read_n n) f) Q"
  by (rule preads_bind [OF preads_read_n]) auto

lemma preads_u8: "preads read_u8 (\<lambda>v b. b = [v])"
  unfolding read_u8_def by (intro wire_dec) (auto simp: length_Suc_conv)

lemma preads_u16: "preads read_u16_le (\<lambda>v b. b = u16_to_le_bytes v)"
  unfolding read_u16_le_def
  by (intro wire_dec) (auto simp: length_Suc_conv numeral_eq_Suc to_from_le_bytes)

lemma preads_u32: "preads read_u32_le (\<lambda>v b. b = u32_to_le_bytes v)"
  unfolding read_u32_le_def
  by (intro wire_dec) (auto simp: length_Suc_conv numeral_eq_Suc to_from_le_bytes)

lemma preads_u64: "preads read_u64_le (\<lambda>v b. b = u64_to_le_bytes v)"
  unfolding read_u64_le_def by (intro wire_dec) (simp add: to_from_le_bytes)

lemma preads_u8_bind [wire_dec]:
  "(\<And>v. preads (f v) (\<lambda>w b. Q w (v # b))) \<Longrightarrow> preads (pbind read_u8 f) Q"
  by (rule preads_bind [OF preads_u8]) simp

lemma preads_u16_bind [wire_dec]:
  "(\<And>v. preads (f v) (\<lambda>w b. Q w (u16_to_le_bytes v @ b))) \<Longrightarrow> preads (pbind read_u16_le f) Q"
  by (rule preads_bind [OF preads_u16]) simp

lemma preads_u32_bind [wire_dec]:
  "(\<And>v. preads (f v) (\<lambda>w b. Q w (u32_to_le_bytes v @ b))) \<Longrightarrow> preads (pbind read_u32_le f) Q"
  by (rule preads_bind [OF preads_u32]) simp

lemma preads_u64_bind [wire_dec]:
  "(\<And>v. preads (f v) (\<lambda>w b. Q w (u64_to_le_bytes v @ b))) \<Longrightarrow> preads (pbind read_u64_le f) Q"
  by (rule preads_bind [OF preads_u64]) simp

lemma preads_ensure [wire_dec]: "preads k Q \<Longrightarrow> preads (pbind (pensure need) (\<lambda>_. k)) Q"
  by (auto simp: preads_def pbind_def pensure_def)

lemma preads_lift [wire_dec]:
  "(\<And>v. r = Inr v \<Longrightarrow> preads (f v) Q) \<Longrightarrow> preads (pbind (plift r) f) Q"
  by (auto simp: preads_def pbind_def plift_def split: sum.splits)

lemma preads_if [wire_dec]:
  "(b \<Longrightarrow> preads p Q) \<Longrightarrow> (\<not> b \<Longrightarrow> preads q Q) \<Longrightarrow> preads (if b then p else q) Q"
  by simp

lemma preads_option [wire_dec]:
  "preads p Q \<Longrightarrow> (\<And>y. x = Some y \<Longrightarrow> preads (f y) Q) \<Longrightarrow> preads (case x of None \<Rightarrow> p | Some y \<Rightarrow> f y) Q"
  by (cases x) simp_all

lemma preads_map_err: "preads p Q \<Longrightarrow> preads (pmap_err g p) Q"
  by (auto simp: preads_def pmap_err_def split: sum.splits)

lemma preads_map_err_bind [wire_dec]: "preads (pbind p f) Q \<Longrightarrow> preads (pbind (pmap_err g p) f) Q"
  by (simp add: preads_def pbind_map_err_Inr)

lemma preads_loop:
  assumes "\<And>j ys. I ys \<Longrightarrow> preads (body j ys) (\<lambda>x b. enc x = Some b \<and> I (ys @ [x]))"
    and "I acc"
  shows "preads (ploop body i n acc)
      (\<lambda>xs b. \<exists>ys. xs = acc @ ys \<and> length ys = n \<and> concat_opt (map enc ys) = Some b \<and> I xs)"
  using assms(2)
proof (induction n arbitrary: i acc)
  case 0
  then show ?case by (auto intro: wire_dec)
next
  case (Suc n)
  show ?case
    unfolding ploop.simps
  proof (rule preads_bind [OF assms(1) [OF Suc.prems]])
    fix x b assume b: "enc x = Some b \<and> I (acc @ [x])"
    show "preads (ploop body (Suc i) n (acc @ [x])) (\<lambda>w b'. \<exists>ys. w = acc @ ys \<and> length ys = Suc n
        \<and> concat_opt (map enc ys) = Some (b @ b') \<and> I w)"
    proof (rule preads_mono [OF Suc.IH [OF conjunct2 [OF b]]])
      fix w b' assume "\<exists>ys. w = (acc @ [x]) @ ys \<and> length ys = n
          \<and> concat_opt (map enc ys) = Some b' \<and> I w"
      then obtain ys where "w = (acc @ [x]) @ ys" "length ys = n" "concat_opt (map enc ys) = Some b'" "I w"
        by blast
      then show "\<exists>ys. w = acc @ ys \<and> length ys = Suc n \<and> concat_opt (map enc ys) = Some (b @ b') \<and> I w"
        using b by (intro exI [of _ "x # ys"]) simp
    qed
  qed
qed

text \<open>Both judgements together decide the parser at any position.\<close>

lemma parser_accepts_iff:
  assumes reads: "preads p Q" and parses: "\<And>bs. Q v bs \<Longrightarrow> parses p bs v"
    and wf: "wf_cursor c" and len: "length (cur_bytes c) < usize_bound"
  shows "p c = Inr (v, c') \<longleftrightarrow>
    (\<exists>bs rest. Q v bs \<and> remaining c = bs @ rest \<and> c' = c\<lparr>cur_pos := cur_pos c + length bs\<rparr>)"
proof
  assume "p c = Inr (v, c')"
  from preadsE [OF reads wf this]
  show "\<exists>bs rest. Q v bs \<and> remaining c = bs @ rest \<and> c' = c\<lparr>cur_pos := cur_pos c + length bs\<rparr>"
    by blast
next
  assume "\<exists>bs rest. Q v bs \<and> remaining c = bs @ rest \<and> c' = c\<lparr>cur_pos := cur_pos c + length bs\<rparr>"
  then obtain bs rest where "Q v bs" and rem: "remaining c = bs @ rest"
    and c': "c' = c\<lparr>cur_pos := cur_pos c + length bs\<rparr>" by blast
  then have "parses p bs v" by (rule_tac parses)
  moreover define pre where "pre = take (cur_pos c) (cur_bytes c)"
  ultimately have "p \<lparr>cur_bytes = pre @ bs @ rest, cur_pos = length pre\<rparr>
      = Inr (v, \<lparr>cur_bytes = pre @ bs @ rest, cur_pos = length pre + length bs\<rparr>)"
    using len rem wf by (intro parsesD) (auto simp: remaining_def wf_cursor_def
        dest!: arg_cong [where f = length])
  moreover have "c = \<lparr>cur_bytes = pre @ bs @ rest, cur_pos = length pre\<rparr>"
    using wf rem [symmetric] by (simp add: pre_def remaining_def wf_cursor_def)
  ultimately show "p c = Inr (v, c')" using c' by simp
qed

section \<open>The contract of a wire format\<close>

text \<open>What the readers of a section rely on: the parser reads back every encoding of a valid value,
  and whatever it accepts is the encoding of a valid value.\<close>

locale wire_format =
  fixes parse :: "'a parser"
    and encode :: "'a \<Rightarrow> bytes option"
    and valid :: "'a \<Rightarrow> bool"
  assumes encode_defined: "valid v \<Longrightarrow> encode v \<noteq> None"
    and encode_parse: "valid v \<Longrightarrow> encode v = Some bs \<Longrightarrow> parses parse bs v"
    and parse_encode: "preads parse (\<lambda>v bs. valid v \<and> encode v = Some bs)"
begin

text \<open>The parser accepts exactly the encodings of valid values, at any position.\<close>

lemma accepts_iff:
  assumes "wf_cursor c" and "length (cur_bytes c) < usize_bound"
  shows "parse c = Inr (v, c') \<longleftrightarrow>
    (\<exists>bs rest. valid v \<and> encode v = Some bs \<and> remaining c = bs @ rest
       \<and> c' = c\<lparr>cur_pos := cur_pos c + length bs\<rparr>)"
  using parser_accepts_iff [OF parse_encode _ assms] encode_parse by (auto simp: conj_assoc)

lemma prefix_free:
  assumes "valid v" "valid w" "encode v = Some a" "encode w = Some b" "a @ s = b @ t"
    and "length (a @ s) < usize_bound"
  shows "v = w \<and> s = t"
proof -
  from assms(5,6) have "length (b @ t) < usize_bound" by simp
  then have "parse \<lparr>cur_bytes = b @ t, cur_pos = 0\<rparr>
      = Inr (w, \<lparr>cur_bytes = b @ t, cur_pos = length b\<rparr>)"
    using parsesD [OF encode_parse [OF assms(2,4)], of "[]" t] by simp
  moreover have "parse \<lparr>cur_bytes = b @ t, cur_pos = 0\<rparr>
      = Inr (v, \<lparr>cur_bytes = b @ t, cur_pos = length a\<rparr>)"
  proof -
    from assms(6) have "length a + length s < usize_bound" by simp
    then show ?thesis
      using parsesD [OF encode_parse [OF assms(1,3)], of "[]" s] unfolding append_Nil assms(5) by simp
  qed
  ultimately have "v = w" and "length a = length b" by simp_all
  then show ?thesis using assms(5) by simp
qed

lemma encode_inj:
  assumes "valid v" "valid w" "encode v = Some a" "encode w = Some a" "length a < usize_bound"
  shows "v = w"
  using prefix_free [OF assms(1-4), of "[]" "[]"] assms(5) by simp

text \<open>A counted run of entries, each parsed independently, with the error annotation of its index.\<close>

lemma encodes_defined: "\<forall>x \<in> set xs. valid x \<Longrightarrow> concat_opt (map encode xs) \<noteq> None"
  using encode_defined by (induction xs) (auto, fastforce)

lemma parses_entries:
  assumes "\<forall>x \<in> set xs. valid x" and "concat_opt (map encode xs) = Some all"
  shows "parses (ploop (\<lambda>i _. pmap_err (g i) parse) i (length xs) []) all xs"
  using parses_loop [of xs encode "\<lambda>i _. pmap_err (g i) parse" i "[]", OF _ assms(2)] assms(1)
  by (simp add: encode_defined encode_parse parses_map_err)

lemma preads_entries:
  "preads (ploop (\<lambda>i _. pmap_err (g i) parse) i n [])
    (\<lambda>xs b. length xs = n \<and> concat_opt (map encode xs) = Some b \<and> (\<forall>x \<in> set xs. valid x))"
  by (rule preads_mono [OF preads_loop [where I = "\<lambda>xs. \<forall>x \<in> set xs. valid x" and enc = encode]])
    (auto intro: preads_map_err preads_mono [OF parse_encode])

lemma parse_new:
  assumes "valid v" "encode v = Some bs" "length bs + length rest < usize_bound"
  shows "parse (cursor_new (bs @ rest))
    = Inr (v, \<lparr>cur_bytes = bs @ rest, cur_pos = length bs\<rparr>)"
  using parsesD [OF encode_parse [OF assms(1,2)], of "[]" rest] assms(3)
  by (simp add: cursor_new_def)

end

text \<open>The contract of the entry lists: the body of the loop parses one entry, given the entries so far,
  and \<open>ok\<close> is the invariant of the accumulated list (no duplicate key, strictly sorted, ...). Whatever the
  section, a list with the invariant reads back, and what was read has the invariant.\<close>

locale entry_list =
  fixes body :: "nat \<Rightarrow> 'a list \<Rightarrow> 'a parser"
    and enc :: "'a \<Rightarrow> bytes option"
    and ok :: "'a list \<Rightarrow> bool"
  assumes ok_Nil: "ok []"
    and ok_butlast: "ok (xs @ [x]) \<Longrightarrow> ok xs"
    and enc_defined: "ok (xs @ [x]) \<Longrightarrow> enc x \<noteq> None"
    and body_parses: "ok (xs @ [x]) \<Longrightarrow> enc x = Some bs \<Longrightarrow> parses (body i xs) bs x"
    and body_preads: "ok xs \<Longrightarrow> preads (body i xs) (\<lambda>x b. enc x = Some b \<and> ok (xs @ [x]))"
begin

lemma ok_prefix: "ok (xs @ ys) \<Longrightarrow> ok xs"
proof (induction ys rule: rev_induct)
  case (snoc y ys)
  then show ?case using ok_butlast [of "xs @ ys" y] by simp
qed simp

lemma ok_take: "ok xs \<Longrightarrow> j < length xs \<Longrightarrow> ok (take j xs @ [xs ! j])"
  by (metis append_take_drop_id ok_prefix take_Suc_conv_app_nth)

lemma encs_defined:
  assumes "ok xs"
  obtains body_bytes where "concat_opt (map enc xs) = Some body_bytes"
proof -
  have "enc (xs ! j) \<noteq> None" if "j < length xs" for j
    using ok_take [OF assms that] by (rule enc_defined)
  then have "None \<notin> set (map enc xs)" by (metis (no_types) in_set_conv_nth length_map nth_map)
  then show ?thesis using that concat_opt_eq_None by blast
qed

lemma encs_Some: "ok xs \<Longrightarrow> \<exists>body_bytes. concat_opt (map enc xs) = Some body_bytes"
  using encs_defined by metis

lemma parses_list:
  assumes "ok xs" and "concat_opt (map enc xs) = Some all"
  shows "parses (ploop body 0 (length xs) []) all xs"
proof -
  have "parses (ploop body 0 (length xs) []) all ([] @ xs)"
    by (rule parses_loop [OF _ assms(2)])
      (auto simp: enc_defined [OF ok_take [OF assms(1)]] intro: body_parses ok_take [OF assms(1)])
  then show ?thesis by simp
qed

lemma preads_list:
  "preads (ploop body 0 n []) (\<lambda>xs b. length xs = n \<and> ok xs \<and> concat_opt (map enc xs) = Some b)"
  by (rule preads_mono [OF preads_loop [where I = ok, OF body_preads ok_Nil]]) auto

end

text \<open>The usual invariant: every entry is well formed and no two entries have the same key.\<close>

definition keyed_ok :: "('a \<Rightarrow> 'k) \<Rightarrow> ('a \<Rightarrow> bool) \<Rightarrow> 'a list \<Rightarrow> bool" where
  "keyed_ok key valid xs \<longleftrightarrow> distinct (map key xs) \<and> (\<forall>x \<in> set xs. valid x)"

lemma keyed_ok_snoc: "keyed_ok key valid (xs @ [x])
    \<longleftrightarrow> keyed_ok key valid xs \<and> key x \<notin> key ` set xs \<and> valid x"
  by (auto simp: keyed_ok_def)

lemma keyed_ok_Nil [simp]: "keyed_ok key valid []"
  by (simp add: keyed_ok_def)

text \<open>Every parser built from the readers leaves the buffer alone and the cursor inside it.\<close>

lemma preads_frame:
  assumes "preads p Q" "wf_cursor c" "p c = Inr (v, c')"
  shows "cur_bytes c' = cur_bytes c \<and> cur_pos c \<le> cur_pos c' \<and> wf_cursor c'"
proof -
  from preadsE [OF assms] obtain bs rest
    where "remaining c = bs @ rest" "c' = c\<lparr>cur_pos := cur_pos c + length bs\<rparr>" .
  with wf_cursor_advance [OF assms(2)] show ?thesis by auto
qed

lemma preads_new:
  assumes "preads p Q" "p (cursor_new bs) = Inr (v, c)"
  shows "\<exists>b rest. bs = b @ rest \<and> Q v b \<and> c = \<lparr>cur_bytes = bs, cur_pos = length b\<rparr>"
proof -
  have "wf_cursor (cursor_new bs)" by (simp add: wf_cursor_def cursor_new_def)
  from preadsE [OF assms(1) this assms(2)] show ?thesis by (simp add: remaining_def cursor_new_def) blast
qed

text \<open>Evaluation of encodings on concrete values.\<close>

lemmas wire_eval = le_bytes_numeral u16_to_le_bytes_def u32_to_le_bytes_def u64_to_le_bytes_def u32_try_from_def
  cursor_new_def wf_cursor_def remaining_def keyed_ok_def

text \<open>Evaluation of the readers on concrete buffers.\<close>

lemmas parser_eval = pbind_def pret_def perr_def plift_def pensure_def remaining_len_def read_n_def
  read_n_owned_def usize_checked_add_def usize_checked_mul_def read_u8_def read_u16_le_def read_u32_le_def
  read_u64_le_def u16_from_le_bytes_def u32_from_le_bytes_def u64_from_le_bytes_def cursor_new_def

end
