(* ===== verification/Format.thy ===== *)
theory Format
  imports Cursor
begin

text \<open>
  The semantic types of the wire format (\<open>limnifs-format/src/lib.rs\<close>): drop and slab identifiers, the
  tier byte, the representation triple, and the base-32 text form of a 32-byte identity. The text codec
  is proved to be a bijection between byte strings and the texts the decoder accepts, over the
  wrapping 64-bit shift register of the source.
\<close>

unbundle bit_operations_syntax

section \<open>Base 32\<close>

definition ascii :: "string \<Rightarrow> bytes" where
  "ascii s = map of_char s"

definition BASE32_LOWER :: bytes where
  "BASE32_LOWER = ascii ''abcdefghijklmnopqrstuvwxyz234567''"

fun b32_drain :: "u64 \<Rightarrow> nat \<Rightarrow> bytes \<Rightarrow> nat \<times> bytes" where
  "b32_drain buffer bits out =
     (if 5 \<le> bits then
        b32_drain buffer (bits - 5)
          (out @ [BASE32_LOWER ! unat (drop_bit (bits - 5) buffer AND 31)])
      else (bits, out))"

declare b32_drain.simps [simp del]

fun b32_encode_loop :: "bytes \<Rightarrow> u64 \<Rightarrow> nat \<Rightarrow> bytes \<Rightarrow> u64 \<times> nat \<times> bytes" where
  "b32_encode_loop [] buffer bits out = (buffer, bits, out)"
| "b32_encode_loop (byte # rest) buffer bits out =
     (let buffer = push_bit 8 buffer OR ucast byte;
          (bits, out) = b32_drain buffer (bits + 8) out
      in b32_encode_loop rest buffer bits out)"

definition encode_base32_lower_no_pad :: "bytes \<Rightarrow> bytes" where
  "encode_base32_lower_no_pad input =
     (let (buffer, bits, out) = b32_encode_loop input 0 0 []
      in if bits > 0
         then out @ [BASE32_LOWER ! unat (push_bit (5 - bits) buffer AND 31)]
         else out)"

definition b32_char_value :: "byte \<Rightarrow> nat option" where
  "b32_char_value ch =
     (if 97 \<le> unat ch \<and> unat ch \<le> 122 then Some (unat ch - 97)
      else if 50 \<le> unat ch \<and> unat ch \<le> 55 then Some (unat ch - 50 + 26)
      else None)"

fun b32_decode_loop :: "bytes \<Rightarrow> u64 \<Rightarrow> nat \<Rightarrow> bytes \<Rightarrow> (u64 \<times> nat \<times> bytes) option" where
  "b32_decode_loop [] buffer bits out = Some (buffer, bits, out)"
| "b32_decode_loop (ch # rest) buffer bits out =
     (case b32_char_value ch of
        None \<Rightarrow> None
      | Some val \<Rightarrow>
          let buffer = push_bit 5 buffer OR word_of_nat val; bits = bits + 5
          in if 8 \<le> bits
             then b32_decode_loop rest buffer (bits - 8)
                    (out @ [ucast (drop_bit (bits - 8) buffer AND 255)])
             else b32_decode_loop rest buffer bits out)"

definition decode_base32_lower_no_pad :: "bytes \<Rightarrow> bytes option" where
  "decode_base32_lower_no_pad input =
     (case b32_decode_loop input 0 0 [] of
        None \<Rightarrow> None
      | Some (buffer, bits, out) \<Rightarrow>
          if 5 \<le> bits \<or> buffer AND (push_bit bits 1 - 1) \<noteq> 0 then None else Some out)"

section \<open>Identifiers\<close>

text \<open>\<open>DropId\<close> and \<open>ManifestRoot\<close> wrap a 32-byte array.\<close>

type_synonym drop_id = bytes
type_synonym manifest_root = bytes

definition drop_id_to_text :: "drop_id \<Rightarrow> bytes" where
  "drop_id_to_text d = ascii ''b3:'' @ encode_base32_lower_no_pad d"

definition manifest_root_to_text :: "manifest_root \<Rightarrow> bytes" where
  "manifest_root_to_text r = ascii ''b3:'' @ encode_base32_lower_no_pad r"

definition strip_prefix :: "bytes \<Rightarrow> bytes \<Rightarrow> bytes option" where
  "strip_prefix pre s = (if take (length pre) s = pre then Some (drop (length pre) s) else None)"

lemma strip_prefix_Some: "strip_prefix pre s = Some rest \<longleftrightarrow> s = pre @ rest"
  by (auto simp: strip_prefix_def) (metis append_take_drop_id)

definition drop_id_parse_text :: "bytes \<Rightarrow> drop_id option" where
  "drop_id_parse_text s = do {
     rest \<leftarrow> strip_prefix (ascii ''b3:'') s;
     bs \<leftarrow> decode_base32_lower_no_pad rest;
     if length bs \<noteq> 32 then None else Some bs
   }"

record slab_id =
  ordinal :: u64
  slab_hash :: bytes

definition slab_id_to_bytes :: "slab_id \<Rightarrow> bytes" where
  "slab_id_to_bytes s = u64_to_le_bytes (ordinal s) @ slab_hash s"

definition slab_id_from_bytes :: "bytes \<Rightarrow> slab_id" where
  "slab_id_from_bytes bs = \<lparr>ordinal = u64_from_le_bytes (take 8 bs), slab_hash = drop 8 bs\<rparr>"

datatype tier = Epilimnion | Metalimnion | Hypolimnion

definition tier_from_byte :: "u8 \<Rightarrow> tier option" where
  "tier_from_byte b =
     (if b = 0 then Some Epilimnion else if b = 1 then Some Metalimnion
      else if b = 2 then Some Hypolimnion else None)"

fun tier_to_byte :: "tier \<Rightarrow> u8" where
  "tier_to_byte Epilimnion = 0"
| "tier_to_byte Metalimnion = 1"
| "tier_to_byte Hypolimnion = 2"

record representation =
  codec :: u8
  aead :: u8
  ec :: u8

definition STORE_PLAINTEXT :: representation where
  "STORE_PLAINTEXT = \<lparr>codec = 0, aead = 0, ec = 0\<rparr>"

definition is_plaintext :: "representation \<Rightarrow> bool" where
  "is_plaintext r \<longleftrightarrow> aead r = 0"

definition has_no_ec :: "representation \<Rightarrow> bool" where
  "has_no_ec r \<longleftrightarrow> ec r = 0"

definition representation_to_bytes :: "representation \<Rightarrow> bytes" where
  "representation_to_bytes r = [codec r, aead r, ec r]"

definition representation_from_bytes :: "bytes \<Rightarrow> representation" where
  "representation_from_bytes bs = \<lparr>codec = bs ! 0, aead = bs ! 1, ec = bs ! 2\<rparr>"

section \<open>The shift register in arithmetic terms\<close>

lemma unat_push_or:
  assumes "unat (w :: u64) < 2 ^ k" and "k < 64"
  shows "unat (push_bit k (b :: u64) OR w) = (unat b * 2 ^ k + unat w) mod 2 ^ 64"
proof -
  have "push_bit k b AND w = 0"
  proof (rule bit_word_eqI)
    fix n assume "n < LENGTH(64)"
    have "\<not> bit w n" if "k \<le> n"
    proof -
      from that assms(1) have "unat w < 2 ^ n"
        by (meson le_less_trans less_imp_le one_le_numeral order_less_le_trans power_increasing)
      then have "\<not> bit (unat w) n" by (simp add: bit_iff_odd)
      then show ?thesis by (simp add: bit_unsigned_iff)
    qed
    then show "bit (push_bit k b AND w) n \<longleftrightarrow> bit (0 :: u64) n"
      by (auto simp: bit_and_iff bit_push_bit_iff)
  qed
  then have "push_bit k b OR w = push_bit k b + w"
    by (simp add: disjunctive_add_eq_or)
  moreover have "unat (push_bit k b) = (unat b * 2 ^ k) mod 2 ^ 64"
    unfolding unsigned_push_bit_eq by (simp add: take_bit_eq_mod push_bit_eq_mult)
  ultimately show ?thesis
    by (simp add: unat_word_ariths(1) mod_add_left_eq)
qed

lemma unat_shift_mask5: "unat (drop_bit k (b :: u64) AND 31) = unat b div 2 ^ k mod 32"
proof -
  have "drop_bit k b AND 31 = take_bit 5 (drop_bit k b)"
    by (simp add: take_bit_eq_mask mask_eq_exp_minus_1)
  moreover have "unat (take_bit 5 (drop_bit k b)) = take_bit 5 (drop_bit k (unat b))"
    by (simp only: unsigned_take_bit_eq unat_drop_bit_eq)
  ultimately show ?thesis by (simp only: take_bit_eq_mod drop_bit_eq_div) simp
qed

lemma unat_shift_mask8: "unat (ucast (drop_bit k (b :: u64) AND 255) :: u8) = unat b div 2 ^ k mod 256"
proof -
  have "drop_bit k b AND 255 = take_bit 8 (drop_bit k b)"
    by (simp add: take_bit_eq_mask mask_eq_exp_minus_1)
  moreover have "unat (ucast (take_bit 8 (drop_bit k b)) :: u8) = take_bit 8 (take_bit 8 (drop_bit k (unat b)))"
    by (simp only: unsigned_ucast_eq unsigned_take_bit_eq unat_drop_bit_eq) simp
  ultimately show ?thesis by (simp only: take_bit_eq_mod drop_bit_eq_div) simp
qed

lemma unat_push_mask5:
  "j \<le> 5 \<Longrightarrow> unat (push_bit j (b :: u64) AND 31) = (unat b * 2 ^ j) mod 32"
proof -
  assume "j \<le> 5"
  have "push_bit j b AND 31 = take_bit 5 (push_bit j b)"
    by (simp add: take_bit_eq_mask mask_eq_exp_minus_1)
  moreover have "unat (take_bit 5 (push_bit j b)) = take_bit 5 (take_bit 64 (push_bit j (unat b)))"
    by (simp only: unsigned_take_bit_eq unsigned_push_bit_eq) simp
  moreover have "(x :: nat) mod 18446744073709551616 mod 32 = x mod 32" for x
    by (rule mod_mod_cancel) simp
  ultimately show ?thesis by (simp add: take_bit_eq_mod push_bit_eq_mult)
qed

lemma low_bits_zero_iff:
  "k < 64 \<Longrightarrow> (b :: u64) AND (push_bit k 1 - 1) = 0 \<longleftrightarrow> unat b mod 2 ^ k = 0"
proof -
  assume "k < 64"
  have "b AND (push_bit k 1 - 1) = take_bit k b"
    by (simp add: take_bit_eq_mask mask_eq_exp_minus_1 push_bit_eq_mult)
  moreover have "take_bit k b = 0 \<longleftrightarrow> unat (take_bit k b) = 0"
    by (simp add: unat_eq_zero)
  moreover have "unat (take_bit k b) = unat b mod 2 ^ k"
    by (simp only: unsigned_take_bit_eq) (simp add: take_bit_eq_mod)
  ultimately show ?thesis by simp
qed

text \<open>Big-endian value of a digit list.\<close>

definition be_val :: "nat \<Rightarrow> nat list \<Rightarrow> nat" where
  "be_val base ds = foldl (\<lambda>a d. a * base + d) 0 ds"

lemma be_val_Nil [simp]: "be_val base [] = 0"
  by (simp add: be_val_def)

lemma be_val_snoc [simp]: "be_val base (ds @ [d]) = be_val base ds * base + d"
  by (simp add: be_val_def)

lemma be_val_inj:
  assumes "be_val base xs = be_val base ys" "length xs = length ys"
    and "\<forall>d \<in> set xs. d < base" "\<forall>d \<in> set ys. d < base"
  shows "xs = ys"
  using assms
proof (induction xs arbitrary: ys rule: rev_induct)
  case Nil
  then show ?case by simp
next
  case (snoc x xs)
  then obtain y zs where ys: "ys = zs @ [y]" by (cases ys rule: rev_cases) auto
  with snoc.prems have eq: "be_val base xs * base + x = be_val base zs * base + y"
    and lt: "x < base" "y < base" by auto
  from lt eq have "x = y"
    by (metis mod_less mod_mult_self3)
  moreover from this eq lt have "be_val base xs = be_val base zs" by simp
  ultimately show ?case using snoc ys by auto
qed

section \<open>The base-32 codec is a bijection\<close>

lemma length_BASE32 [simp]: "length BASE32_LOWER = 32"
  by (simp add: BASE32_LOWER_def ascii_def)

lemma BASE32_nth_value: "i < 32 \<Longrightarrow> b32_char_value (BASE32_LOWER ! i) = Some i"
proof -
  have "\<forall>i \<in> {0..<32}. b32_char_value (BASE32_LOWER ! i) = Some i"
    by code_simp
  then show "i < 32 \<Longrightarrow> ?thesis" by simp
qed

lemma BASE32_letter: "i < 26 \<Longrightarrow> BASE32_LOWER ! i = word_of_nat (97 + i)"
proof -
  have "\<forall>i \<in> {0..<26}. BASE32_LOWER ! i = word_of_nat (97 + i)" by code_simp
  then show "i < 26 \<Longrightarrow> ?thesis" by simp
qed

lemma BASE32_digit: "i < 6 \<Longrightarrow> BASE32_LOWER ! (i + 26) = word_of_nat (50 + i)"
proof -
  have "\<forall>i \<in> {0..<6}. BASE32_LOWER ! (i + 26) = word_of_nat (50 + i)" by code_simp
  then show "i < 6 \<Longrightarrow> ?thesis" by simp
qed

lemma b32_char_value_nth:
  assumes "b32_char_value ch = Some i"
  shows "i < 32 \<and> BASE32_LOWER ! i = ch"
proof (cases "97 \<le> unat ch \<and> unat ch \<le> 122")
  case True
  with assms have i: "i = unat ch - 97" by (simp add: b32_char_value_def)
  with True have "i < 26" and u: "97 + i = unat ch" by auto
  moreover have "word_of_nat (97 + i) = ch" unfolding u by simp
  ultimately show ?thesis using BASE32_letter [of i] by simp
next
  case False
  with assms have r: "50 \<le> unat ch" "unat ch \<le> 55" and i: "i = unat ch - 50 + 26"
    by (auto simp: b32_char_value_def split: if_splits)
  then have "unat ch - 50 < 6" and u: "50 + (unat ch - 50) = unat ch" by auto
  moreover have "word_of_nat (50 + (unat ch - 50)) = ch" unfolding u by simp
  ultimately show ?thesis using BASE32_digit [of "unat ch - 50"] i by simp
qed

lemma mod_mult_add: "(a mod m * b + c) mod m = (a * b + c) mod (m :: nat)"
  by (metis mod_add_left_eq mod_mult_left_eq)

lemma dvd32: "(32::nat) dvd 18446744073709551616"
  by simp

lemma mod_dvd_mult: "d dvd m \<Longrightarrow> (x mod m * y) mod d = x * y mod (d :: nat)"
  by (metis mod_mod_cancel mod_mult_left_eq)

lemma mod64_div_mod: "k + w \<le> 64 \<Longrightarrow> (n mod 2 ^ 64) div 2 ^ k mod 2 ^ w = (n :: nat) div 2 ^ k mod 2 ^ w"
proof -
  assume kw: "k + w \<le> 64"
  have "take_bit w (drop_bit k (take_bit 64 n)) = take_bit w (drop_bit k n)"
    using kw by (auto simp: bit_eq_iff bit_take_bit_iff bit_drop_bit_eq)
  then show ?thesis by (simp only: take_bit_eq_mod drop_bit_eq_div)
qed

text \<open>What the decoder has read: the digits of the characters.\<close>

definition b32_digits :: "bytes \<Rightarrow> nat list" where
  "b32_digits s = map (\<lambda>ch. the (b32_char_value ch)) s"

definition b32_text :: "bytes \<Rightarrow> bool" where
  "b32_text s \<longleftrightarrow> (\<forall>ch \<in> set s. b32_char_value ch \<noteq> None)"

lemma b32_digits_simps [simp]:
  "b32_digits [] = []" "b32_digits (s @ t) = b32_digits s @ b32_digits t"
  "i < 32 \<Longrightarrow> b32_digits [BASE32_LOWER ! i] = [i]"
  by (simp_all add: b32_digits_def BASE32_nth_value)

lemma b32_text_snoc [simp]: "i < 32 \<Longrightarrow> b32_text (s @ [BASE32_LOWER ! i]) \<longleftrightarrow> b32_text s"
  by (auto simp: b32_text_def BASE32_nth_value)

lemma b32_digits_lt: "b32_text s \<Longrightarrow> \<forall>d \<in> set (b32_digits s). d < 32"
  by (fastforce simp: b32_text_def b32_digits_def dest: b32_char_value_nth)

lemma b32_digits_inj: "b32_text s \<Longrightarrow> b32_text t \<Longrightarrow> b32_digits s = b32_digits t \<Longrightarrow> s = t"
proof (induction s arbitrary: t)
  case Nil
  then show ?case by (simp add: b32_digits_def)
next
  case (Cons a s)
  then obtain b t' where t: "t = b # t'" by (cases t) (auto simp: b32_digits_def)
  with Cons.prems obtain i where "b32_char_value a = Some i" "b32_char_value b = Some i"
    by (auto simp: b32_text_def b32_digits_def)
  then have "a = b" by (metis b32_char_value_nth)
  with Cons t show ?case by (auto simp: b32_text_def b32_digits_def)
qed

lemma be_val_b32_snoc:
  "be_val 32 (b32_digits (s @ [BASE32_LOWER ! (x mod 32)])) = be_val 32 (b32_digits s) * 32 + x mod 32"
  by simp

text \<open>The encoder's loop: the register is the whole number read so far modulo \<open>2 ^ 64\<close>, the output is that
  number without its lowest \<open>bits\<close> bits.\<close>

definition enc_inv :: "nat \<Rightarrow> u64 \<Rightarrow> nat \<Rightarrow> bytes \<Rightarrow> bool" where
  "enc_inv N buffer bits out \<longleftrightarrow>
     unat buffer = N mod 2 ^ 64 \<and> b32_text out \<and> be_val 32 (b32_digits out) = N div 2 ^ bits"

lemma b32_drain_inv:
  assumes "enc_inv N buffer bits out" and "bits \<le> 12"
    and "b32_drain buffer bits out = (bits', out')"
  shows "enc_inv N buffer bits' out' \<and> bits' < 5 \<and> 5 * length out' + bits' = 5 * length out + bits"
  using assms
proof (induction buffer bits out rule: b32_drain.induct)
  case (1 buffer bits out)
  show ?case
  proof (cases "5 \<le> bits")
    case True
    let ?i = "unat (drop_bit (bits - 5) buffer AND 31)"
    have i: "?i = N div 2 ^ (bits - 5) mod 32"
      using 1(2,3) mod64_div_mod [of "bits - 5" 5 N] by (simp add: unat_shift_mask5 enc_inv_def)
    from True obtain k where k: "bits = k + 5" by (metis add.commute le_Suc_ex)
    have "N div 2 ^ bits = N div 2 ^ (bits - 5) div 32"
      by (simp add: k power_add div_mult2_eq)
    then have "enc_inv N buffer (bits - 5) (out @ [BASE32_LOWER ! ?i])"
      using 1(2) i by (simp add: enc_inv_def)
    moreover have "b32_drain buffer (bits - 5) (out @ [BASE32_LOWER ! ?i]) = (bits', out')"
      using 1(4) True by (subst (asm) b32_drain.simps) simp
    ultimately show ?thesis using 1(1) [OF True] 1(3) True by force
  next
    case False
    with 1 show ?thesis by (subst (asm) (2) b32_drain.simps) simp
  qed
qed

lemma b32_encode_loop_inv:
  assumes "enc_inv N buffer bits out" and "bits < 5"
    and "b32_encode_loop input buffer bits out = (buffer', bits', out')"
  shows "enc_inv (foldl (\<lambda>a b. a * 256 + unat b) N input) buffer' bits' out' \<and> bits' < 5
    \<and> 5 * length out' + bits' = 5 * length out + bits + 8 * length input"
  using assms
proof (induction input arbitrary: N buffer bits out)
  case Nil
  then show ?case by simp
next
  case (Cons byte rest)
  let ?buf = "push_bit 8 buffer OR ucast byte :: u64"
  have u: "unat (ucast byte :: u64) = unat byte"
    using unat_u8_lt [of byte] by (simp add: unsigned_ucast_eq take_bit_nat_eq_self)
  then have "unat ?buf = (N * 256 + unat byte) mod 2 ^ 64"
    using unat_push_or [of "ucast byte" 8 buffer] unat_u8_lt [of byte] Cons.prems(1)
    by (simp add: enc_inv_def mod_mult_add)
  moreover have "(N * 256 + unat byte) div 2 ^ (bits + 8) = N div 2 ^ bits"
    using unat_u8_lt [of byte] by (simp add: power_add div_mult2_eq mult.commute [of "2 ^ bits"])
  ultimately have inv: "enc_inv (N * 256 + unat byte) ?buf (bits + 8) out"
    using Cons.prems(1) by (simp add: enc_inv_def)
  obtain b1 o1 where dr: "b32_drain ?buf (bits + 8) out = (b1, o1)" by fastforce
  from b32_drain_inv [OF inv _ dr] Cons.prems(2)
  have st: "enc_inv (N * 256 + unat byte) ?buf b1 o1" "b1 < 5"
    "5 * length o1 + b1 = 5 * length out + (bits + 8)" by auto
  from Cons.prems(3) dr have "b32_encode_loop rest ?buf b1 o1 = (buffer', bits', out')" by simp
  from Cons.IH [OF st(1,2) this] st(3) show ?case by simp
qed

text \<open>The decoder's loop, dually: the output is the number read so far without its lowest \<open>bits\<close> bits.\<close>

definition dec_inv :: "nat \<Rightarrow> u64 \<Rightarrow> nat \<Rightarrow> bytes \<Rightarrow> bool" where
  "dec_inv M buffer bits out \<longleftrightarrow>
     unat buffer = M mod 2 ^ 64 \<and> be_val 256 (map unat out) = M div 2 ^ bits"

lemma b32_decode_loop_inv:
  assumes "dec_inv M buffer bits out" and "bits < 8" and "b32_text input"
  obtains buffer' bits' out' where "b32_decode_loop input buffer bits out = Some (buffer', bits', out')"
    and "dec_inv (foldl (\<lambda>a d. a * 32 + d) M (b32_digits input)) buffer' bits' out'" and "bits' < 8"
    and "8 * length out' + bits' = 8 * length out + bits + 5 * length input"
  using assms
proof (induction input arbitrary: M buffer bits out thesis)
  case Nil
  then show ?case by simp
next
  case (Cons ch rest)
  from Cons.prems(4) obtain d where d: "b32_char_value ch = Some d" and rest: "b32_text rest"
    by (auto simp: b32_text_def)
  then have d32: "d < 32" by (simp add: b32_char_value_nth)
  let ?buf = "push_bit 5 buffer OR word_of_nat d :: u64" and ?M = "M * 32 + d"
  have "unat ?buf = ?M mod 2 ^ 64"
    using unat_push_or [of "word_of_nat d" 5 buffer] d32 Cons.prems(2)
    by (simp add: dec_inv_def mod_mult_add)
  moreover have M: "?M div 2 ^ (bits + 5) = M div 2 ^ bits"
    using d32 by (simp add: power_add div_mult2_eq mult.commute [of "2 ^ bits"])
  ultimately have inv: "dec_inv ?M ?buf (bits + 5) out"
    using Cons.prems(2) by (simp add: dec_inv_def)
  have digits: "foldl (\<lambda>a d. a * 32 + d) M (b32_digits (ch # rest))
      = foldl (\<lambda>a d. a * 32 + d) ?M (b32_digits rest)"
    using d by (simp add: b32_digits_def)
  show ?case
  proof (cases "8 \<le> bits + 5")
    case True
    then obtain k where k: "bits + 5 = k + 8" by (metis add.commute le_Suc_ex)
    with Cons.prems(3) have k8: "k < 5" and k8': "k < 8" by simp_all
    let ?b = "ucast (drop_bit k ?buf AND 255) :: u8"
    have "unat ?b = ?M div 2 ^ k mod 256"
      unfolding unat_shift_mask8 using inv k8 mod64_div_mod [of k 8 ?M] by (simp add: dec_inv_def)
    moreover have "?M div 2 ^ (bits + 5) = ?M div 2 ^ k div 256"
      unfolding k by (simp add: power_add div_mult2_eq)
    ultimately have inv': "dec_inv ?M ?buf k (out @ [?b])"
      using inv by (simp add: dec_inv_def)
    have step: "b32_decode_loop (ch # rest) buffer bits out = b32_decode_loop rest ?buf k (out @ [?b])"
      using d k True by simp
    obtain buffer' bits' out' where r: "b32_decode_loop rest ?buf k (out @ [?b]) = Some (buffer', bits', out')"
      "dec_inv (foldl (\<lambda>a d. a * 32 + d) ?M (b32_digits rest)) buffer' bits' out'" "bits' < 8"
      "8 * length out' + bits' = 8 * length (out @ [?b]) + k + 5 * length rest"
      by (rule Cons.IH [OF _ inv' k8' rest])
    from r(4) k have "8 * length out' + bits' = 8 * length out + bits + 5 * length (ch # rest)" by simp
    with r(2,3) show ?thesis
      using Cons.prems(1) unfolding step digits r(1) by blast
  next
    case False
    then have small: "bits + 5 < 8" by simp
    from False have step: "b32_decode_loop (ch # rest) buffer bits out = b32_decode_loop rest ?buf (bits + 5) out"
      using d by simp
    obtain buffer' bits' out' where r: "b32_decode_loop rest ?buf (bits + 5) out = Some (buffer', bits', out')"
      "dec_inv (foldl (\<lambda>a d. a * 32 + d) ?M (b32_digits rest)) buffer' bits' out'" "bits' < 8"
      "8 * length out' + bits' = 8 * length out + (bits + 5) + 5 * length rest"
      by (rule Cons.IH [OF _ inv small rest])
    from r(4) have "8 * length out' + bits' = 8 * length out + bits + 5 * length (ch # rest)" by simp
    with r(2,3) show ?thesis
      using Cons.prems(1) unfolding step digits r(1) by blast
  qed
qed

lemma b32_decode_loop_text: "b32_decode_loop s buffer bits out = Some r \<Longrightarrow> b32_text s"
  by (induction s buffer bits out rule: b32_decode_loop.induct)
    (auto simp: b32_text_def Let_def split: option.splits if_splits)

text \<open>The two loops meet in one arithmetic fact: the text is the bytes shifted by the padding.\<close>

definition b32_pad :: "nat \<Rightarrow> nat" where
  "b32_pad n = (5 - 8 * n mod 5) mod 5"

lemma pad_bits: "5 * m + b = 8 * n \<Longrightarrow> b < 5 \<Longrightarrow> b = 8 * n mod (5::nat)"
  by (metis mod_less mod_mult_self4)

lemma pad_unique:
  assumes "8 * n + b = 5 * m" and "b < 5"
  shows "(5 - 8 * n mod 5) mod 5 = (b::nat)"
proof -
  define q where "q = 8 * n mod 5"
  have "(q + b) mod 5 = 0" using assms(1) by (simp add: q_def mod_add_left_eq)
  moreover have "q < 5" by (simp add: q_def)
  ultimately obtain t where t: "q + b = 5 * t" and "5 * t < 10" using assms(2) by (auto simp: mod_eq_0_iff_dvd)
  then have "t = 0 \<or> t = 1" by auto
  with t \<open>q < 5\<close> assms(2) have "(5 - q) mod 5 = b" by auto
  then show ?thesis by (simp add: q_def)
qed

lemma octets_unique: "8 * a + x = 8 * c + y \<Longrightarrow> x < 8 \<Longrightarrow> y < 8 \<Longrightarrow> x = y \<and> a = (c::nat)"
  by presburger

lemma encode_base32_spec:
  defines "N \<equiv> \<lambda>bs. be_val 256 (map unat bs)"
  shows "b32_text (encode_base32_lower_no_pad bs)
    \<and> be_val 32 (b32_digits (encode_base32_lower_no_pad bs)) = N bs * 2 ^ b32_pad (length bs)
    \<and> 5 * length (encode_base32_lower_no_pad bs) = 8 * length bs + b32_pad (length bs)"
proof -
  obtain buffer bits out where run: "b32_encode_loop bs 0 0 [] = (buffer, bits, out)"
    by (metis prod_cases3)
  have "enc_inv 0 0 0 []" by (simp add: enc_inv_def b32_text_def)
  from b32_encode_loop_inv [OF this _ run]
  have inv: "enc_inv (N bs) buffer bits out" and b5: "bits < 5"
    and len: "5 * length out + bits = 8 * length bs"
    by (auto simp: N_def be_val_def foldl_map)
  from len b5 have bits: "bits = 8 * length bs mod 5" by (rule pad_bits)
  show ?thesis
  proof (cases "bits = 0")
    case True
    with run inv len bits show ?thesis
      by (simp add: encode_base32_lower_no_pad_def enc_inv_def b32_pad_def)
  next
    case False
    then have pad: "b32_pad (length bs) = 5 - bits" using b5 bits by (simp add: b32_pad_def)
    let ?j = "5 - bits"
    have b: "(32::nat) = 2 ^ bits * 2 ^ ?j"
      using b5 by (simp flip: power_add)
    have dm: "N bs * 2 ^ ?j div 32 = N bs div 2 ^ bits"
      unfolding b by (rule div_mult_mult2) simp
    have i: "unat (push_bit ?j buffer AND 31) = N bs * 2 ^ ?j mod 32"
      using inv unat_push_mask5 [of ?j buffer] by (simp add: enc_inv_def mod_dvd_mult [OF dvd32])
    have "b32_text (out @ [BASE32_LOWER ! unat (push_bit ?j buffer AND 31)])"
      using inv i by (simp add: enc_inv_def)
    moreover have "be_val 32 (b32_digits (out @ [BASE32_LOWER ! unat (push_bit ?j buffer AND 31)]))
        = N bs * 2 ^ ?j div 32 * 32 + N bs * 2 ^ ?j mod 32"
      unfolding i dm be_val_b32_snoc using inv unfolding enc_inv_def by (simp only:)
    ultimately show ?thesis
      unfolding div_mult_mod_eq using run False len b5 by (simp add: encode_base32_lower_no_pad_def pad)
  qed
qed

lemma decode_base32_spec:
  "decode_base32_lower_no_pad s = Some bs \<longleftrightarrow>
     b32_text s \<and> be_val 32 (b32_digits s) = be_val 256 (map unat bs) * 2 ^ b32_pad (length bs)
     \<and> 5 * length s = 8 * length bs + b32_pad (length bs)" (is "_ \<longleftrightarrow> ?R")
proof (cases "b32_text s")
  case False
  then have "b32_decode_loop s 0 0 [] = None"
    using b32_decode_loop_text by fastforce
  with False show ?thesis by (simp add: decode_base32_lower_no_pad_def)
next
  case True
  define M where "M = be_val 32 (b32_digits s)"
  have "dec_inv 0 0 0 []" by (simp add: dec_inv_def)
  then obtain buffer bits out where run: "b32_decode_loop s 0 0 [] = Some (buffer, bits, out)"
    and inv: "dec_inv M buffer bits out" and b8: "bits < 8" and len: "8 * length out + bits = 5 * length s"
    using b32_decode_loop_inv [OF _ _ True, of 0 0 0 "[]"] unfolding M_def be_val_def by auto
  have low: "buffer AND (2 ^ bits - 1) = 0 \<longleftrightarrow> M mod 2 ^ bits = 0"
    using inv b8 mod64_div_mod [of 0 bits M] low_bits_zero_iff [of bits buffer] by (simp add: dec_inv_def)
  have dec: "decode_base32_lower_no_pad s = Some bs \<longleftrightarrow> bits < 5 \<and> M mod 2 ^ bits = 0 \<and> out = bs"
    by (auto simp: decode_base32_lower_no_pad_def run low)
  show ?thesis
  proof
    assume "decode_base32_lower_no_pad s = Some bs"
    with dec have b5: "bits < 5" and z: "M mod 2 ^ bits = 0" and out: "out = bs" by auto
    from len b5 have "b32_pad (length bs) = bits" unfolding out b32_pad_def by (rule pad_unique)
    moreover have "M = be_val 256 (map unat bs) * 2 ^ bits"
      using inv z unfolding dec_inv_def out by (metis add.right_neutral div_mult_mod_eq)
    ultimately show ?R using True len out by (simp add: M_def)
  next
    assume R: ?R
    let ?p = "b32_pad (length bs)"
    have p5: "?p < 5" by (simp add: b32_pad_def)
    from R len have "8 * length out + bits = 8 * length bs + ?p" by simp
    from octets_unique [OF this b8] p5 have bits: "bits = ?p" and n: "length out = length bs" by auto
    from R have M: "M = be_val 256 (map unat bs) * 2 ^ ?p" by (simp add: M_def)
    with inv have "be_val 256 (map unat out) = be_val 256 (map unat bs)"
      by (simp add: dec_inv_def bits)
    then have "map unat out = map unat bs"
      using n unat_u8_lt by (intro be_val_inj) auto
    then have "out = bs" by (rule map_injective) (simp add: inj_def word_unat_eq_iff)
    with dec p5 bits M show "decode_base32_lower_no_pad s = Some bs" by simp
  qed
qed

lemma decode_encode_iff: "decode_base32_lower_no_pad s = Some bs \<longleftrightarrow> s = encode_base32_lower_no_pad bs"
proof
  assume "decode_base32_lower_no_pad s = Some bs"
  then have d: "b32_text s" "be_val 32 (b32_digits s) = be_val 256 (map unat bs) * 2 ^ b32_pad (length bs)"
    "5 * length s = 8 * length bs + b32_pad (length bs)" by (simp_all add: decode_base32_spec)
  let ?e = "encode_base32_lower_no_pad bs"
  have e: "b32_text ?e" "be_val 32 (b32_digits ?e) = be_val 256 (map unat bs) * 2 ^ b32_pad (length bs)"
    "5 * length ?e = 8 * length bs + b32_pad (length bs)" using encode_base32_spec [of bs] by simp_all
  have "b32_digits s = b32_digits ?e"
    using d e b32_digits_lt by (intro be_val_inj [where base = 32]) (simp_all add: b32_digits_def)
  with d e show "s = ?e" by (intro b32_digits_inj)
next
  assume "s = encode_base32_lower_no_pad bs"
  then show "decode_base32_lower_no_pad s = Some bs"
    using encode_base32_spec [of bs] by (simp add: decode_base32_spec)
qed

section \<open>Laws of the identifiers\<close>

text \<open>C38. C34: parsing the text form of a drop identity succeeds exactly on the texts that \<open>to_text\<close> produces for
  32-byte identities, and returns that identity: the base-32 codec over the wrapping 64-bit register is
  lossless and the parser rejects every non-canonical spelling (bad alphabet, non-zero padding bits,
  superfluous characters).\<close>

theorem drop_id_text_bijection:
  "drop_id_parse_text s = Some d \<longleftrightarrow> length d = 32 \<and> s = drop_id_to_text d"
proof -
  have "strip_prefix (ascii ''b3:'') s = Some rest \<longleftrightarrow> s = ascii ''b3:'' @ rest" for rest
    by (rule strip_prefix_Some)
  then show ?thesis
    by (auto simp: drop_id_parse_text_def drop_id_to_text_def bind_eq_Some_conv decode_encode_iff
        split: if_splits)
qed

lemma slab_id_from_to_bytes: "slab_id_from_bytes (slab_id_to_bytes s) = s"
  by (simp add: slab_id_from_bytes_def slab_id_to_bytes_def)

lemma slab_id_to_from_bytes: "length bs = 40 \<Longrightarrow> slab_id_to_bytes (slab_id_from_bytes bs) = bs"
  by (simp add: slab_id_from_bytes_def slab_id_to_bytes_def to_from_le_bytes)

lemma length_slab_id_to_bytes [simp]: "length (slab_id_to_bytes s) = 8 + length (slab_hash s)"
  by (simp add: slab_id_to_bytes_def)

lemma tier_from_to_byte: "tier_from_byte b = Some t \<longleftrightarrow> b = tier_to_byte t"
  by (cases t) (auto simp: tier_from_byte_def)

lemma representation_from_to_bytes [simp]:
  "representation_from_bytes (representation_to_bytes r) = r"
  by (simp add: representation_from_bytes_def representation_to_bytes_def)

lemma representation_to_from_bytes:
  "length bs = 3 \<Longrightarrow> representation_to_bytes (representation_from_bytes bs) = bs"
  by (auto simp: representation_from_bytes_def representation_to_bytes_def length_Suc_conv numeral_eq_Suc)

end
