(* ===== verification/Manifest_Header.thy ===== *)
theory Manifest_Header
  imports Format
begin

text \<open>
  The 16-byte manifest header and the feature-flags section (\<open>limnifs-core/src/header.rs\<close>,
  \<open>feature_flags.rs\<close>) with their encoders (\<open>ManifestHeader::to_bytes\<close> and the builder of
  \<open>limnifs-conformance/src/builder.rs\<close>). Both are interpreted as wire formats.
\<close>

section \<open>Header\<close>

record manifest_header =
  drop_store_version :: u16
  metadata_version :: u16
  manifest_version :: u16

definition MANIFEST_MAGIC :: bytes where
  "MANIFEST_MAGIC = [0x4C, 0x4D, 0x46, 0x53]"

definition manifest_header_current :: manifest_header where
  "manifest_header_current = \<lparr>drop_store_version = 1, metadata_version = 1, manifest_version = 1\<rparr>"

definition manifest_header_to_bytes :: "manifest_header \<Rightarrow> bytes" where
  "manifest_header_to_bytes h =
     MANIFEST_MAGIC @ u16_to_le_bytes (drop_store_version h) @ u16_to_le_bytes (metadata_version h)
       @ u16_to_le_bytes (manifest_version h) @ replicate 6 0"

definition encode_header :: "manifest_header \<Rightarrow> bytes option" where
  "encode_header h =
     Some ([0x4C, 0x4D, 0x46, 0x53] @ u16_to_le_bytes (drop_store_version h)
       @ u16_to_le_bytes (metadata_version h) @ u16_to_le_bytes (manifest_version h)
       @ replicate 6 0)"

definition parse_manifest_header :: "manifest_header parser" where
  "parse_manifest_header =
     pbind read_magic (\<lambda>magic.
     if magic \<noteq> MANIFEST_MAGIC then perr (BadMagic magic) else
     pbind read_u16_le (\<lambda>dsv.
     pbind read_u16_le (\<lambda>mdv.
     pbind read_u16_le (\<lambda>mfv.
     pbind (read_n 6) (\<lambda>reserved.
     if list_ex (\<lambda>b. b \<noteq> 0) reserved then perr (Corrupt (ReservedNonzero reserved)) else
     pret \<lparr>drop_store_version = dsv, metadata_version = mdv, manifest_version = mfv\<rparr>)))))"

lemma length_MANIFEST_MAGIC [simp]: "length MANIFEST_MAGIC = 4"
  by (simp add: MANIFEST_MAGIC_def)

lemma encode_header_to_bytes: "encode_header h = Some (manifest_header_to_bytes h)"
  by (simp add: encode_header_def manifest_header_to_bytes_def MANIFEST_MAGIC_def)

lemma all_zero_replicate: "list_ex (\<lambda>b. b \<noteq> 0) bs \<longleftrightarrow> bs \<noteq> replicate (length bs) (0 :: byte)"
  by (induction bs) auto

lemma parses_header: "parses parse_manifest_header (manifest_header_to_bytes h) h"
  unfolding parse_manifest_header_def manifest_header_to_bytes_def read_magic_def
  by (rule wire_enc | simp add: all_zero_replicate)+

lemma preads_header:
  "preads parse_manifest_header (\<lambda>h b. b = manifest_header_to_bytes h)"
  unfolding parse_manifest_header_def manifest_header_to_bytes_def read_magic_def
  by (intro wire_dec) (simp_all add: all_zero_replicate)

interpretation header: wire_format parse_manifest_header encode_header "\<lambda>_. True"
  by unfold_locales (auto simp: encode_header_to_bytes parses_header intro: preads_mono [OF preads_header])

section \<open>Feature flags\<close>

record feature_flag =
  flag_id :: u16
  required :: bool

record feature_flags =
  ff_entries :: "feature_flag list"

definition FEATURE_FLAGS_SECTION_VERSION :: u8 where
  "FEATURE_FLAGS_SECTION_VERSION = 1"

definition feature_flags_get :: "feature_flags \<Rightarrow> u16 \<Rightarrow> feature_flag option" where
  "feature_flags_get ff i = find (\<lambda>e. flag_id e = i) (ff_entries ff)"

definition feature_flags_is_required :: "feature_flags \<Rightarrow> u16 \<Rightarrow> bool" where
  "feature_flags_is_required ff i =
     (case feature_flags_get ff i of None \<Rightarrow> False | Some e \<Rightarrow> required e)"

definition parse_feature_flag_entry :: "nat \<Rightarrow> feature_flag list \<Rightarrow> feature_flag parser" where
  "parse_feature_flag_entry index entries =
     pbind read_u16_le (\<lambda>fid.
     if fid = 0 then perr (Corrupt (FlagsReason (FlagIdReserved index))) else
     pbind read_u8 (\<lambda>required_byte.
     if \<not> (required_byte = 0 \<or> required_byte = 1)
     then perr (Corrupt (FlagsReason (FlagRequiredByte index required_byte))) else
     if list_ex (\<lambda>existing. flag_id existing = fid) entries
     then perr (Corrupt (FlagsReason (FlagDuplicate index fid))) else
     pret \<lparr>flag_id = fid, required = (required_byte = 1)\<rparr>))"

definition parse_feature_flags_section :: "feature_flags parser" where
  "parse_feature_flags_section =
     pbind read_u8 (\<lambda>section_version.
     if section_version \<noteq> FEATURE_FLAGS_SECTION_VERSION
     then perr (UnsupportedFeature (SectionVersion FeatureFlagsSection section_version)) else
     pbind read_u32_le (\<lambda>raw_count.
     case usize_checked_mul (unat raw_count) 3 of
       None \<Rightarrow> perr (Corrupt (CountOverflows FeatureFlagsSection (unat raw_count)))
     | Some payload_size \<Rightarrow>
         pbind (pensure payload_size) (\<lambda>_.
         pbind (ploop parse_feature_flag_entry 0 (unat raw_count) []) (\<lambda>entries.
         pret \<lparr>ff_entries = entries\<rparr>))))"

definition encode_feature_flag :: "feature_flag \<Rightarrow> bytes" where
  "encode_feature_flag f = u16_to_le_bytes (flag_id f) @ [if required f then 1 else 0]"

definition encode_feature_flags :: "feature_flags \<Rightarrow> bytes option" where
  "encode_feature_flags ff = do {
     count \<leftarrow> u32_try_from (length (ff_entries ff));
     body \<leftarrow> concat_opt (map (\<lambda>f. Some (encode_feature_flag f)) (ff_entries ff));
     Some ([FEATURE_FLAGS_SECTION_VERSION] @ u32_to_le_bytes count @ body)
   }"

text \<open>The section's well-formedness: what the parser promises its readers.\<close>

abbreviation flags_ok :: "feature_flag list \<Rightarrow> bool" where
  "flags_ok \<equiv> keyed_ok flag_id (\<lambda>f. flag_id f \<noteq> 0)"

definition valid_feature_flags :: "feature_flags \<Rightarrow> bool" where
  "valid_feature_flags ff \<longleftrightarrow> length (ff_entries ff) < 2 ^ 32 \<and> flags_ok (ff_entries ff)"

interpretation flag_entries: entry_list parse_feature_flag_entry "\<lambda>f. Some (encode_feature_flag f)" flags_ok
proof
  show "parses (parse_feature_flag_entry i acc) bs f"
    if "flags_ok (acc @ [f])" "Some (encode_feature_flag f) = Some bs" for acc f bs i
    using that unfolding parse_feature_flag_entry_def encode_feature_flag_def
    by (auto intro!: wire_enc simp: list_ex_key keyed_ok_snoc)
  show "preads (parse_feature_flag_entry i acc)
      (\<lambda>f b. Some (encode_feature_flag f) = Some b \<and> flags_ok (acc @ [f]))" if "flags_ok acc" for acc i
    using that unfolding parse_feature_flag_entry_def encode_feature_flag_def
    by (intro wire_dec) (auto simp: list_ex_key keyed_ok_snoc)
qed (simp_all add: keyed_ok_snoc)

lemma parses_feature_flags:
  assumes "valid_feature_flags ff" "encode_feature_flags ff = Some bs"
  shows "parses parse_feature_flags_section bs ff"
proof -
  let ?es = "ff_entries ff" and ?body = "concat (map encode_feature_flag (ff_entries ff))"
  have len: "length ?es < 2 ^ 32" and ok: "flags_ok ?es"
    using assms(1) by (auto simp: valid_feature_flags_def)
  from assms(2) len have bs: "bs = FEATURE_FLAGS_SECTION_VERSION # u32_to_le_bytes (word_of_nat (length ?es)) @ ?body"
    by (auto simp: encode_feature_flags_def concat_opt_map_Some)
  have "length ?body = 3 * length ?es"
    by (rule length_concat_map_const) (simp add: encode_feature_flag_def)
  then show ?thesis
    unfolding bs parse_feature_flags_section_def using len flag_entries.parses_list [OF ok concat_opt_map_Some]
    by (intro wire_enc parses_bind_last [of _ _ ?es]) (auto simp: usize_checked_mul_small)
qed

lemma preads_feature_flags:
  "preads parse_feature_flags_section (\<lambda>ff b. valid_feature_flags ff \<and> encode_feature_flags ff = Some b)"
  unfolding parse_feature_flags_section_def
proof (intro wire_dec preads_bind [OF flag_entries.preads_list], goal_cases)
  case (1 version raw_count size es b)
  then show ?case
    using unat_u32_lt [of raw_count] by (auto simp: valid_feature_flags_def encode_feature_flags_def)
qed

interpretation flags: wire_format parse_feature_flags_section encode_feature_flags valid_feature_flags
proof
  show "valid_feature_flags v \<Longrightarrow> encode_feature_flags v \<noteq> None" for v
    by (simp add: valid_feature_flags_def encode_feature_flags_def concat_opt_map_Some)
qed (rule parses_feature_flags preads_feature_flags; assumption)+

section \<open>The section's contract\<close>

text \<open>The feature-flags parser accepts exactly the encodings of well-formed sections (distinct, non-zero
  flag ids), wherever they occur in the buffer, and leaves the cursor right after the section.\<close>

theorem feature_flags_accepts_iff:
  assumes "wf_cursor c" "length (cur_bytes c) < usize_bound"
  shows "parse_feature_flags_section c = Inr (ff, c') \<longleftrightarrow>
    (\<exists>bs rest. valid_feature_flags ff \<and> encode_feature_flags ff = Some bs \<and> remaining c = bs @ rest
       \<and> c' = c\<lparr>cur_pos := cur_pos c + length bs\<rparr>)"
  using assms by (rule flags.accepts_iff)

definition flags_example :: bytes where
  "flags_example = [1, 2, 0, 0, 0, 1, 0, 1, 7, 0, 0, 9]"

theorem feature_flags_accepts_iff_witness:
  "parse_feature_flags_section (cursor_new flags_example) =
     Inr (\<lparr>ff_entries = [\<lparr>flag_id = 1, required = True\<rparr>, \<lparr>flag_id = 7, required = False\<rparr>]\<rparr>,
          \<lparr>cur_bytes = flags_example, cur_pos = 11\<rparr>)"
  by (subst feature_flags_accepts_iff)
    (simp_all add: flags_example_def wire_eval valid_feature_flags_def encode_feature_flags_def
      encode_feature_flag_def FEATURE_FLAGS_SECTION_VERSION_def)

end
