(* ===== verification/Locator.thy ===== *)
theory Locator
  imports Format
begin

text \<open>
  Locator entries and the slab index section (\<open>limnifs-core/src/locator.rs\<close>, \<open>slab_index.rs\<close>), with the
  builder's encoders. The sidecar gate \<open>local_sidecar_name\<close> is shown to admit flat file names only.
\<close>

section \<open>Locator entries\<close>

record locator_entry =
  uri :: bytes

definition DEFAULT_LOCATOR_MAX_URI_BYTES :: u32 where
  "DEFAULT_LOCATOR_MAX_URI_BYTES = 4096"

definition MIN_LOCATOR_URI_BYTES :: u32 where
  "MIN_LOCATOR_URI_BYTES = 4"

definition split_once :: "byte \<Rightarrow> bytes \<Rightarrow> (bytes \<times> bytes) option" where
  "split_once b s =
     (let p = takeWhile (\<lambda>x. x \<noteq> b) s
      in if length p < length s then Some (p, drop (Suc (length p)) s) else None)"

definition locator_scheme :: "locator_entry \<Rightarrow> bytes option" where
  "locator_scheme l = map_option fst (split_once 58 (uri l))"

definition locator_scheme_specific_part :: "locator_entry \<Rightarrow> bytes option" where
  "locator_scheme_specific_part l = map_option snd (split_once 58 (uri l))"

definition is_ascii_alphabetic :: "byte \<Rightarrow> bool" where
  "is_ascii_alphabetic c \<longleftrightarrow> (65 \<le> unat c \<and> unat c \<le> 90) \<or> (97 \<le> unat c \<and> unat c \<le> 122)"

definition is_ascii_alphanumeric :: "byte \<Rightarrow> bool" where
  "is_ascii_alphanumeric c \<longleftrightarrow> is_ascii_alphabetic c \<or> (48 \<le> unat c \<and> unat c \<le> 57)"

definition is_valid_scheme :: "bytes \<Rightarrow> bool" where
  "is_valid_scheme scheme =
     (case scheme of
        [] \<Rightarrow> False
      | c # cs \<Rightarrow> is_ascii_alphabetic c
          \<and> list_all (\<lambda>c. is_ascii_alphanumeric c \<or> c = 43 \<or> c = 45 \<or> c = 46) cs)"

definition parse_locator_entry_with_ceiling :: "u32 \<Rightarrow> locator_entry parser" where
  "parse_locator_entry_with_ceiling max_uri_bytes =
     pbind read_u32_le (\<lambda>raw_length.
     if raw_length < MIN_LOCATOR_URI_BYTES
     then perr (Corrupt (LocatorReason (LocatorTooShort raw_length))) else
     if raw_length > max_uri_bytes
     then perr (Corrupt (LocatorReason (LocatorTooLong raw_length max_uri_bytes))) else
     pbind (read_n (unat raw_length)) (\<lambda>uri_bytes.
     if \<not> utf8_valid uri_bytes
     then perr (Corrupt (LocatorReason (LocatorNotUtf8 (unat raw_length)))) else
     case split_once 58 uri_bytes of
       None \<Rightarrow> perr (Corrupt (LocatorReason (LocatorNoSeparator uri_bytes)))
     | Some sr \<Rightarrow>
         if fst sr = [] then perr (Corrupt (LocatorReason (LocatorEmptyScheme uri_bytes))) else
         if \<not> is_valid_scheme (fst sr)
         then perr (Corrupt (LocatorReason (LocatorBadScheme uri_bytes (fst sr)))) else
         if snd sr = [] then perr (Corrupt (LocatorReason (LocatorEmptyRest uri_bytes))) else
         pret \<lparr>uri = uri_bytes\<rparr>))"

definition parse_locator_entry :: "locator_entry parser" where
  "parse_locator_entry = parse_locator_entry_with_ceiling DEFAULT_LOCATOR_MAX_URI_BYTES"

definition annotate_locator_error :: "nat \<Rightarrow> core_error \<Rightarrow> core_error" where
  "annotate_locator_error index err =
     (case err of Corrupt reason \<Rightarrow> Corrupt (InEntry index reason) | other \<Rightarrow> other)"

definition parse_locator_entries_with_ceiling :: "u32 \<Rightarrow> u32 \<Rightarrow> locator_entry list parser" where
  "parse_locator_entries_with_ceiling count max_uri_bytes =
     (case usize_checked_mul (unat count) (4 + unat MIN_LOCATOR_URI_BYTES) of
        None \<Rightarrow> perr (Corrupt (LocatorReason (LocatorCountOverflows (unat count))))
      | Some min_total \<Rightarrow>
          pbind (pensure min_total) (\<lambda>_.
          ploop (\<lambda>index _. pmap_err (annotate_locator_error index)
                   (parse_locator_entry_with_ceiling max_uri_bytes)) 0 (unat count) []))"

definition parse_locator_entries :: "u32 \<Rightarrow> locator_entry list parser" where
  "parse_locator_entries count = parse_locator_entries_with_ceiling count DEFAULT_LOCATOR_MAX_URI_BYTES"

definition encode_locator :: "locator_entry \<Rightarrow> bytes option" where
  "encode_locator l = do {
     len \<leftarrow> u32_try_from (length (uri l));
     Some (u32_to_le_bytes len @ uri l)
   }"

text \<open>\<open>local_sidecar_name\<close>: the gate in front of every local join.\<close>

definition local_sidecar_name :: "bytes \<Rightarrow> bytes outcome" where
  "local_sidecar_name u =
     (case strip_prefix (ascii ''file:'') u of
        None \<Rightarrow> Inl (Corrupt (LocatorReason (NotFileUri u)))
      | Some rest \<Rightarrow>
          if rest = [] \<or> rest = ascii ''.'' \<or> rest = ascii ''..''
             \<or> 47 \<in> set rest \<or> 92 \<in> set rest \<or> 0 \<in> set rest \<or> 58 \<in> set rest
          then Inl (Corrupt (LocatorReason (NotFlatFileName u)))
          else Inr rest)"

definition valid_locator :: "u32 \<Rightarrow> locator_entry \<Rightarrow> bool" where
  "valid_locator max_uri_bytes l \<longleftrightarrow>
     4 \<le> length (uri l) \<and> length (uri l) \<le> unat max_uri_bytes \<and> utf8_valid (uri l)
     \<and> (case split_once 58 (uri l) of None \<Rightarrow> False
        | Some (scheme, rest) \<Rightarrow> is_valid_scheme scheme \<and> rest \<noteq> [])"

lemma valid_scheme_nonempty: "is_valid_scheme s \<Longrightarrow> s \<noteq> []"
  by (auto simp: is_valid_scheme_def)

lemma parses_locator:
  assumes "valid_locator m l" "encode_locator l = Some bs"
  shows "parses (parse_locator_entry_with_ceiling m) bs l"
proof -
  from assms(1) obtain sr where sr: "split_once 58 (uri l) = Some sr" "is_valid_scheme (fst sr)" "snd sr \<noteq> []"
    and l: "4 \<le> length (uri l)" "length (uri l) \<le> unat m" "utf8_valid (uri l)"
    by (auto simp: valid_locator_def split: option.splits)
  then have len: "length (uri l) < 2 ^ 32" using unat_u32_lt [of m] by simp
  with assms(2) have bs: "bs = u32_to_le_bytes (word_of_nat (length (uri l))) @ uri l"
    by (simp add: encode_locator_def)
  show ?thesis
    unfolding bs parse_locator_entry_with_ceiling_def
    using l len sr valid_scheme_nonempty [OF sr(2)]
    by (auto intro!: wire_enc simp: word_less_nat_alt MIN_LOCATOR_URI_BYTES_def)
qed

lemma preads_locator:
  "preads (parse_locator_entry_with_ceiling m) (\<lambda>l b. valid_locator m l \<and> encode_locator l = Some b)"
  unfolding parse_locator_entry_with_ceiling_def
proof (intro wire_dec, goal_cases)
  case (1 n b sr)
  then show ?case
    using unat_u32_lt [of n]
    by (auto simp: valid_locator_def encode_locator_def MIN_LOCATOR_URI_BYTES_def word_less_nat_alt
        split: prod.splits)
qed

interpretation locator: wire_format "parse_locator_entry_with_ceiling m" encode_locator "valid_locator m" for m
proof
  show "valid_locator m v \<Longrightarrow> encode_locator v \<noteq> None" for v
    using unat_u32_lt [of m] by (auto simp: valid_locator_def encode_locator_def)
qed (rule parses_locator preads_locator; assumption)+

lemma encode_locator_length: "encode_locator l = Some b \<Longrightarrow> length b = 4 + length (uri l)"
  by (auto simp: encode_locator_def bind_eq_Some_conv)

lemma parses_locators:
  assumes "\<forall>l \<in> set ls. valid_locator m l" "length ls < 2 ^ 32" "concat_opt (map encode_locator ls) = Some bs"
  shows "parses (parse_locator_entries_with_ceiling (word_of_nat (length ls)) m) bs ls"
proof -
  have "8 * length (map encode_locator ls) \<le> length bs"
  proof (rule concat_opt_length_ge [OF assms(3)])
    fix b assume "Some b \<in> set (map encode_locator ls)"
    then obtain l where "l \<in> set ls" "encode_locator l = Some b" by force
    then show "8 \<le> length b" using assms(1) by (auto simp: encode_locator_length valid_locator_def)
  qed
  then have room: "length ls * 8 \<le> length bs" by simp
  show ?thesis
    unfolding parse_locator_entries_with_ceiling_def
    using locator.parses_entries [OF assms(1,3)] assms(2) room
    by (intro wire_enc) (auto simp: usize_checked_mul_small MIN_LOCATOR_URI_BYTES_def)
qed

lemma preads_locators:
  "preads (parse_locator_entries_with_ceiling n m)
    (\<lambda>ls b. length ls = unat n \<and> concat_opt (map encode_locator ls) = Some b \<and> (\<forall>l \<in> set ls. valid_locator m l))"
  unfolding parse_locator_entries_with_ceiling_def
  by (intro wire_dec locator.preads_entries)

section \<open>Slab index\<close>

record slab_index_entry =
  sie_slab_id :: slab_id
  sie_locators :: "locator_entry list"

record slab_index =
  si_entries :: "slab_index_entry list"

definition SLAB_INDEX_SECTION_VERSION :: u8 where
  "SLAB_INDEX_SECTION_VERSION = 1"

definition slab_index_find :: "slab_index \<Rightarrow> slab_id \<Rightarrow> slab_index_entry option" where
  "slab_index_find si sid = find (\<lambda>e. sie_slab_id e = sid) (si_entries si)"

definition parse_slab_index_entry :: "u32 \<Rightarrow> nat \<Rightarrow> slab_index_entry list \<Rightarrow> slab_index_entry parser" where
  "parse_slab_index_entry max_locator_uri_bytes index entries =
     pbind read_u64_le (\<lambda>ord.
     pbind (read_n 32) (\<lambda>hash.
     let sid = \<lparr>ordinal = ord, slab_hash = hash\<rparr> in
     if list_ex (\<lambda>existing. sie_slab_id existing = sid) entries
     then perr (Corrupt (SlabIndexReason (SlabIdDuplicate index ord hash))) else
     pbind read_u32_le (\<lambda>locator_count.
     if locator_count = 0
     then perr (Corrupt (SlabIndexReason (SlabZeroLocators index ord))) else
     pbind (parse_locator_entries_with_ceiling locator_count max_locator_uri_bytes) (\<lambda>locators.
     pret \<lparr>sie_slab_id = sid, sie_locators = locators\<rparr>))))"

definition parse_slab_index_with_ceiling :: "u32 \<Rightarrow> slab_index parser" where
  "parse_slab_index_with_ceiling max_locator_uri_bytes =
     pbind read_u8 (\<lambda>section_version.
     if section_version \<noteq> SLAB_INDEX_SECTION_VERSION
     then perr (UnsupportedFeature (SectionVersion SlabIndexSection section_version)) else
     pbind read_u32_le (\<lambda>raw_count.
     case usize_checked_mul (unat raw_count) 44 of
       None \<Rightarrow> perr (Corrupt (CountOverflows SlabIndexSection (unat raw_count)))
     | Some min_section_size \<Rightarrow>
         pbind (pensure min_section_size) (\<lambda>_.
         pbind (ploop (parse_slab_index_entry max_locator_uri_bytes) 0 (unat raw_count) []) (\<lambda>entries.
         pret \<lparr>si_entries = entries\<rparr>))))"

definition parse_slab_index :: "slab_index parser" where
  "parse_slab_index = parse_slab_index_with_ceiling DEFAULT_LOCATOR_MAX_URI_BYTES"

definition encode_slab_index_entry :: "slab_index_entry \<Rightarrow> bytes option" where
  "encode_slab_index_entry e = do {
     locator_count \<leftarrow> u32_try_from (length (sie_locators e));
     ls \<leftarrow> concat_opt (map encode_locator (sie_locators e));
     Some (slab_id_to_bytes (sie_slab_id e) @ u32_to_le_bytes locator_count @ ls)
   }"

definition encode_slab_index :: "slab_index \<Rightarrow> bytes option" where
  "encode_slab_index si = do {
     count \<leftarrow> u32_try_from (length (si_entries si));
     body \<leftarrow> concat_opt (map encode_slab_index_entry (si_entries si));
     Some ([SLAB_INDEX_SECTION_VERSION] @ u32_to_le_bytes count @ body)
   }"

definition valid_slab_index_entry :: "u32 \<Rightarrow> slab_index_entry \<Rightarrow> bool" where
  "valid_slab_index_entry m e \<longleftrightarrow>
     length (slab_hash (sie_slab_id e)) = 32 \<and> sie_locators e \<noteq> [] \<and> length (sie_locators e) < 2 ^ 32
     \<and> (\<forall>l \<in> set (sie_locators e). valid_locator m l)"

abbreviation slab_entries_ok :: "u32 \<Rightarrow> slab_index_entry list \<Rightarrow> bool" where
  "slab_entries_ok m \<equiv> keyed_ok sie_slab_id (valid_slab_index_entry m)"

definition valid_slab_index :: "u32 \<Rightarrow> slab_index \<Rightarrow> bool" where
  "valid_slab_index m si \<longleftrightarrow> length (si_entries si) < 2 ^ 32 \<and> slab_entries_ok m (si_entries si)"

lemma encode_slab_index_entry_defined:
  assumes "valid_slab_index_entry m e"
  obtains ls where "concat_opt (map encode_locator (sie_locators e)) = Some ls"
    and "encode_slab_index_entry e = Some (slab_id_to_bytes (sie_slab_id e)
        @ u32_to_le_bytes (word_of_nat (length (sie_locators e))) @ ls)"
proof -
  have "None \<notin> set (map encode_locator (sie_locators e))"
    using assms locator.encode_defined [of m] by (fastforce simp: valid_slab_index_entry_def)
  then obtain ls where "concat_opt (map encode_locator (sie_locators e)) = Some ls"
    using concat_opt_eq_None by fastforce
  with assms that show ?thesis by (simp add: encode_slab_index_entry_def valid_slab_index_entry_def)
qed

lemma word_of_nat_length_nonzero:
  "xs \<noteq> [] \<Longrightarrow> length xs < 2 ^ 32 \<Longrightarrow> (word_of_nat (length xs) :: u32) \<noteq> 0"
  by (metis length_0_conv unat_0 unat_u32_of_nat)

lemma parses_slab_index_entry:
  assumes "slab_entries_ok m (acc @ [e])" "encode_slab_index_entry e = Some bs"
  shows "parses (parse_slab_index_entry m i acc) bs e"
proof -
  have v: "valid_slab_index_entry m e" and new: "sie_slab_id e \<notin> sie_slab_id ` set acc"
    using assms(1) by (simp_all add: keyed_ok_snoc)
  from v obtain ls where ls: "concat_opt (map encode_locator (sie_locators e)) = Some ls"
    and "encode_slab_index_entry e = Some (slab_id_to_bytes (sie_slab_id e)
        @ u32_to_le_bytes (word_of_nat (length (sie_locators e))) @ ls)"
    by (rule encode_slab_index_entry_defined)
  with assms(2) have bs: "bs = u64_to_le_bytes (ordinal (sie_slab_id e)) @ slab_hash (sie_slab_id e)
      @ u32_to_le_bytes (word_of_nat (length (sie_locators e))) @ ls"
    by (simp add: slab_id_to_bytes_def)
  have "parses (parse_locator_entries_with_ceiling (word_of_nat (length (sie_locators e))) m) ls (sie_locators e)"
    using v ls by (intro parses_locators) (auto simp: valid_slab_index_entry_def)
  moreover have "\<lparr>ordinal = ordinal (sie_slab_id e), slab_hash = slab_hash (sie_slab_id e)\<rparr> = sie_slab_id e"
    by simp
  ultimately show ?thesis
    using v new unfolding bs parse_slab_index_entry_def Let_def valid_slab_index_entry_def
    by (intro wire_enc parses_bind_last [of _ ls "sie_locators e"])
      (auto simp only: list_ex_key dest: word_of_nat_length_nonzero, simp_all)
qed

lemma preads_slab_index_entry:
  assumes "slab_entries_ok m acc"
  shows "preads (parse_slab_index_entry m i acc)
    (\<lambda>e b. encode_slab_index_entry e = Some b \<and> slab_entries_ok m (acc @ [e]))"
  unfolding parse_slab_index_entry_def Let_def
proof (intro wire_dec preads_bind [OF preads_locators], goal_cases)
  case (1 ord hash n ls b)
  moreover have "unat n \<noteq> 0" using 1(3) by (metis word_unat_eq_iff unat_0)
  ultimately show ?case
    using assms unat_u32_lt [of n]
    by (auto simp: encode_slab_index_entry_def keyed_ok_snoc valid_slab_index_entry_def
        slab_id_to_bytes_def list_ex_key)
qed

interpretation slab_entries: entry_list "parse_slab_index_entry m" encode_slab_index_entry "slab_entries_ok m" for m
proof
  show "encode_slab_index_entry e \<noteq> None" if "slab_entries_ok m (es @ [e])" for es e
    using that by (auto simp: keyed_ok_snoc elim!: encode_slab_index_entry_defined)
qed (auto intro: parses_slab_index_entry preads_slab_index_entry dest: keyed_ok_snoc [THEN iffD1])

lemma parses_slab_index:
  assumes "valid_slab_index m si" "encode_slab_index si = Some bs"
  shows "parses (parse_slab_index_with_ceiling m) bs si"
proof -
  let ?es = "si_entries si"
  have len: "length ?es < 2 ^ 32" and ok: "slab_entries_ok m ?es"
    using assms(1) by (auto simp: valid_slab_index_def)
  from assms(2) len obtain body where body: "concat_opt (map encode_slab_index_entry ?es) = Some body"
    and bs: "bs = SLAB_INDEX_SECTION_VERSION # u32_to_le_bytes (word_of_nat (length ?es)) @ body"
    by (auto simp: encode_slab_index_def bind_eq_Some_conv)
  have "44 * length (map encode_slab_index_entry ?es) \<le> length body"
  proof (rule concat_opt_length_ge [OF body])
    fix b assume "Some b \<in> set (map encode_slab_index_entry ?es)"
    then show "44 \<le> length b"
      using ok by (auto simp: keyed_ok_def valid_slab_index_entry_def encode_slab_index_entry_def
          bind_eq_Some_conv dest!: sym [of "Some b"])
  qed
  then show ?thesis
    unfolding bs parse_slab_index_with_ceiling_def using len slab_entries.parses_list [OF ok body]
    by (intro wire_enc parses_bind_last [of _ _ ?es]) (auto simp: usize_checked_mul_small)
qed

lemma preads_slab_index:
  "preads (parse_slab_index_with_ceiling m) (\<lambda>si b. valid_slab_index m si \<and> encode_slab_index si = Some b)"
  unfolding parse_slab_index_with_ceiling_def
proof (intro wire_dec preads_bind [OF slab_entries.preads_list], goal_cases)
  case (1 version raw_count size es b)
  then show ?case
    using unat_u32_lt [of raw_count] by (auto simp: valid_slab_index_def encode_slab_index_def)
qed

interpretation slab_index: wire_format "parse_slab_index_with_ceiling m" encode_slab_index "valid_slab_index m" for m
proof
  show "encode_slab_index v \<noteq> None" if "valid_slab_index m v" for v
  proof -
    from that have "slab_entries_ok m (si_entries v)" by (simp add: valid_slab_index_def)
    then obtain body where "concat_opt (map encode_slab_index_entry (si_entries v)) = Some body"
      by (rule slab_entries.encs_defined)
    with that show ?thesis by (simp add: valid_slab_index_def encode_slab_index_def)
  qed
qed (rule parses_slab_index preads_slab_index; assumption)+

section \<open>The section's contract\<close>

text \<open>The slab index parser accepts exactly the encodings of well-formed indexes: distinct slab ids, every
  entry with at least one locator, every locator a UTF-8 URI within the ceiling with a valid scheme and a non-empty
  rest.\<close>

theorem slab_index_accepts_iff:
  assumes "wf_cursor c" "length (cur_bytes c) < usize_bound"
  shows "parse_slab_index_with_ceiling m c = Inr (si, c') \<longleftrightarrow>
    (\<exists>bs rest. valid_slab_index m si \<and> encode_slab_index si = Some bs \<and> remaining c = bs @ rest
       \<and> c' = c\<lparr>cur_pos := cur_pos c + length bs\<rparr>)"
  using assms by (rule slab_index.accepts_iff)

definition slab_index_example :: slab_index where
  "slab_index_example = \<lparr>si_entries = [\<lparr>sie_slab_id = \<lparr>ordinal = 3, slab_hash = replicate 32 7\<rparr>,
     sie_locators = [\<lparr>uri = ascii ''file:a''\<rparr>]\<rparr>]\<rparr>"

definition slab_index_example_bytes :: bytes where
  "slab_index_example_bytes =
     [1, 1, 0, 0, 0, 3, 0, 0, 0, 0, 0, 0, 0] @ replicate 32 7 @ [1, 0, 0, 0, 6, 0, 0, 0] @ ascii ''file:a''"

theorem slab_index_accepts_iff_witness:
  "parse_slab_index_with_ceiling 4096 (cursor_new slab_index_example_bytes)
    = Inr (slab_index_example, \<lparr>cur_bytes = slab_index_example_bytes, cur_pos = 59\<rparr>)"
  by (subst slab_index_accepts_iff)
    (simp_all add: slab_index_example_def slab_index_example_bytes_def wire_eval valid_slab_index_def
      valid_slab_index_entry_def valid_locator_def split_once_def is_valid_scheme_def is_ascii_alphabetic_def
      is_ascii_alphanumeric_def ascii_def encode_slab_index_def encode_slab_index_entry_def encode_locator_def
      slab_id_to_bytes_def SLAB_INDEX_SECTION_VERSION_def)



end
