(* ===== verification/Metadata_Reference.thy ===== *)
theory Metadata_Reference
  imports Locator
begin

text \<open>
  The metadata reference section (\<open>limnifs-core/src/metadata_reference.rs\<close>), versions 1 and 2, with the
  conformance builder's version 1 encoder and the image writer's version 2 encoder. Decompression
  (\<open>codec::decompress\<close>) is an argument of the parser: it dispatches to third-party codecs.

  Version 1 is canonical, so it is interpreted as a wire format. Version 2 is not (a stored blob is
  accepted with any \<open>uncompressed_len\<close>), so it has a round trip and a soundness lemma instead.
\<close>

type_synonym decompressor = "u8 \<Rightarrow> bytes \<Rightarrow> u32 \<Rightarrow> bytes outcome"

record metadata_reference =
  mr_metadata_hash :: bytes
  mr_locators :: "locator_entry list"
  mr_inline_metadata :: "bytes option"
  mr_codec :: u8
  mr_uncompressed_len :: u32

definition CODEC_STORE :: u8 where
  "CODEC_STORE = 0x00"

definition METADATA_REFERENCE_SECTION_VERSION :: u8 where
  "METADATA_REFERENCE_SECTION_VERSION = 1"

definition METADATA_REFERENCE_SECTION_VERSION_2 :: u8 where
  "METADATA_REFERENCE_SECTION_VERSION_2 = 2"

definition DEFAULT_INLINE_METADATA_MAX_BYTES :: u32 where
  "DEFAULT_INLINE_METADATA_MAX_BYTES = 1048576"

definition V1_PREFIX_LEN :: nat where
  "V1_PREFIX_LEN = 37"

definition V2_EXTRA_PREFIX_LEN :: nat where
  "V2_EXTRA_PREFIX_LEN = 5"

definition is_inlined :: "metadata_reference \<Rightarrow> bool" where
  "is_inlined r \<longleftrightarrow> mr_inline_metadata r \<noteq> None"

definition read_hash :: "bytes parser" where
  "read_hash = read_n 32"

text \<open>\<open>u32::try_from(len).unwrap_or(u32::MAX)\<close>.\<close>

definition saturating_u32 :: "nat \<Rightarrow> u32" where
  "saturating_u32 n = (if n < 2 ^ 32 then word_of_nat n else 0xFFFFFFFF)"

definition check_decompressed :: "u8 \<Rightarrow> u32 \<Rightarrow> bytes outcome \<Rightarrow> bytes outcome" where
  "check_decompressed codec_id uncompressed_len r =
     (case r of
        Inl _ \<Rightarrow> Inl (Corrupt (MetarefReason (MetadataDecompressFailed codec_id)))
      | Inr uncompressed \<Rightarrow>
          let got = saturating_u32 (length uncompressed)
          in if got \<noteq> uncompressed_len
             then Inl (Corrupt (MetarefReason (MetadataLenMismatch got uncompressed_len)))
             else Inr uncompressed)"

definition read_inline_blob :: "decompressor \<Rightarrow> u32 \<Rightarrow> u32 \<Rightarrow> u32 \<Rightarrow> u8 \<Rightarrow> bytes option parser" where
  "read_inline_blob decompress inline_data_len max_inline_metadata_bytes uncompressed_len codec_id =
     (if inline_data_len = 0 then pret None else
      if inline_data_len > max_inline_metadata_bytes
      then perr (Corrupt (MetarefReason (InlineMetadataTooLong inline_data_len max_inline_metadata_bytes))) else
      pbind (read_n_owned (unat inline_data_len)) (\<lambda>wire_bytes.
      if codec_id = CODEC_STORE then pret (Some wire_bytes) else
      pbind (plift (check_decompressed codec_id uncompressed_len (decompress codec_id wire_bytes uncompressed_len)))
        (\<lambda>uncompressed. pret (Some uncompressed))))"

definition unreachable_error :: "nat \<Rightarrow> core_error" where
  "unreachable_error prefix_len = Corrupt (MetarefReason (MetadataUnreachable prefix_len))"

definition parse_v1 :: "decompressor \<Rightarrow> u32 \<Rightarrow> u32 \<Rightarrow> metadata_reference parser" where
  "parse_v1 decompress max_locator_uri_bytes max_inline_metadata_bytes =
     pbind read_hash (\<lambda>metadata_hash.
     pbind read_u32_le (\<lambda>locator_count.
     pbind (parse_locator_entries_with_ceiling locator_count max_locator_uri_bytes) (\<lambda>locators.
     pbind read_u32_le (\<lambda>inline_metadata_len.
     pbind (read_inline_blob decompress inline_metadata_len max_inline_metadata_bytes inline_metadata_len
              CODEC_STORE) (\<lambda>inline_metadata.
     if locators = [] \<and> inline_metadata = None then perr (unreachable_error V1_PREFIX_LEN) else
     pret \<lparr>mr_metadata_hash = metadata_hash, mr_locators = locators,
           mr_inline_metadata = inline_metadata, mr_codec = CODEC_STORE,
           mr_uncompressed_len = inline_metadata_len\<rparr>)))))"

definition parse_v2 :: "decompressor \<Rightarrow> u32 \<Rightarrow> u32 \<Rightarrow> metadata_reference parser" where
  "parse_v2 decompress max_locator_uri_bytes max_inline_metadata_bytes =
     pbind read_hash (\<lambda>metadata_hash.
     pbind read_u32_le (\<lambda>uncompressed_len.
     pbind read_u8 (\<lambda>codec_id.
     pbind read_u32_le (\<lambda>locator_count.
     pbind (parse_locator_entries_with_ceiling locator_count max_locator_uri_bytes) (\<lambda>locators.
     pbind read_u32_le (\<lambda>inline_data_len.
     pbind (read_inline_blob decompress inline_data_len max_inline_metadata_bytes uncompressed_len
              codec_id) (\<lambda>inline_metadata.
     if locators = [] \<and> inline_metadata = None
     then perr (unreachable_error (V1_PREFIX_LEN + V2_EXTRA_PREFIX_LEN)) else
     pret \<lparr>mr_metadata_hash = metadata_hash, mr_locators = locators,
           mr_inline_metadata = inline_metadata, mr_codec = codec_id,
           mr_uncompressed_len = uncompressed_len\<rparr>)))))))"

definition parse_metadata_reference_with_ceilings :: "decompressor \<Rightarrow> u32 \<Rightarrow> u32 \<Rightarrow> metadata_reference parser" where
  "parse_metadata_reference_with_ceilings decompress max_locator_uri_bytes max_inline_metadata_bytes =
     pbind read_u8 (\<lambda>section_version.
     if section_version = METADATA_REFERENCE_SECTION_VERSION
     then parse_v1 decompress max_locator_uri_bytes max_inline_metadata_bytes
     else if section_version = METADATA_REFERENCE_SECTION_VERSION_2
     then parse_v2 decompress max_locator_uri_bytes max_inline_metadata_bytes
     else perr (UnsupportedFeature (SectionVersion MetadataReferenceSection section_version)))"

definition parse_metadata_reference :: "decompressor \<Rightarrow> metadata_reference parser" where
  "parse_metadata_reference decompress =
     parse_metadata_reference_with_ceilings decompress DEFAULT_LOCATOR_MAX_URI_BYTES
       DEFAULT_INLINE_METADATA_MAX_BYTES"

text \<open>\<open>read_external_metadata\<close>: \<open>read_sidecar\<close> is the file read in the image's directory, by flat name.\<close>

definition read_external_metadata ::
    "decompressor \<Rightarrow> (bytes \<Rightarrow> bytes option) \<Rightarrow> metadata_reference \<Rightarrow> bytes outcome" where
  "read_external_metadata decompress read_sidecar r =
     (case mr_locators r of
        [] \<Rightarrow> Inl (Corrupt (MetarefReason MetadataNoSource))
      | l # _ \<Rightarrow>
          (case local_sidecar_name (uri l) of
             Inl e \<Rightarrow> Inl e
           | Inr name \<Rightarrow>
               (case read_sidecar name of
                  None \<Rightarrow> Inl (Corrupt (MetarefReason (SidecarUnreadable name)))
                | Some wire \<Rightarrow>
                    if mr_codec r = 0 then Inr wire
                    else decompress (mr_codec r) wire (mr_uncompressed_len r))))"

section \<open>Encoders\<close>

definition encode_inline :: "bytes option \<Rightarrow> bytes option" where
  "encode_inline inline =
     (case inline of
        None \<Rightarrow> Some (u32_to_le_bytes 0)
      | Some blob \<Rightarrow> do {
          len \<leftarrow> u32_try_from (length blob);
          Some (u32_to_le_bytes len @ blob)
        })"

text \<open>The builder's section body, after the version byte; \<open>encode_metadata_reference\<close> of the builder
  chooses hash, locators and inline bytes from its specification.\<close>

definition encode_metaref_v1 :: "metadata_reference \<Rightarrow> bytes option" where
  "encode_metaref_v1 r = do {
     locator_count \<leftarrow> u32_try_from (length (mr_locators r));
     ls \<leftarrow> concat_opt (map encode_locator (mr_locators r));
     inline \<leftarrow> encode_inline (mr_inline_metadata r);
     Some (mr_metadata_hash r @ u32_to_le_bytes locator_count @ ls @ inline)
   }"

text \<open>The writer's version 2 section: \<open>inline_data\<close> is the blob as it goes on the wire.\<close>

definition encode_metaref_v2 ::
    "bytes \<Rightarrow> u32 \<Rightarrow> u8 \<Rightarrow> locator_entry list \<Rightarrow> bytes option \<Rightarrow> bytes option" where
  "encode_metaref_v2 metadata_hash uncompressed_len on_wire_codec locators inline_data = do {
     locator_count \<leftarrow> u32_try_from (length locators);
     ls \<leftarrow> concat_opt (map encode_locator locators);
     inline \<leftarrow> encode_inline inline_data;
     Some ([METADATA_REFERENCE_SECTION_VERSION_2] @ metadata_hash @ u32_to_le_bytes uncompressed_len
       @ [on_wire_codec] @ u32_to_le_bytes locator_count @ ls @ inline)
   }"

section \<open>Well-formedness\<close>

definition valid_wire_blob :: "u32 \<Rightarrow> bytes option \<Rightarrow> bool" where
  "valid_wire_blob mi inline \<longleftrightarrow>
     (case inline of None \<Rightarrow> True | Some w \<Rightarrow> w \<noteq> [] \<and> length w \<le> unat mi)"

definition reachable_source :: "u32 \<Rightarrow> bytes \<Rightarrow> locator_entry list \<Rightarrow> 'a option \<Rightarrow> bool" where
  "reachable_source mu hash ls inline \<longleftrightarrow>
     length hash = 32 \<and> length ls < 2 ^ 32 \<and> (\<forall>l \<in> set ls. valid_locator mu l)
     \<and> (ls \<noteq> [] \<or> inline \<noteq> None)"

definition valid_metaref_v1 :: "u32 \<Rightarrow> u32 \<Rightarrow> metadata_reference \<Rightarrow> bool" where
  "valid_metaref_v1 mu mi r \<longleftrightarrow>
     reachable_source mu (mr_metadata_hash r) (mr_locators r) (mr_inline_metadata r)
     \<and> valid_wire_blob mi (mr_inline_metadata r) \<and> mr_codec r = CODEC_STORE
     \<and> unat (mr_uncompressed_len r) = (case mr_inline_metadata r of None \<Rightarrow> 0 | Some d \<Rightarrow> length d)"

text \<open>What a blob on the wire stands for, under the section's codec and declared length.\<close>

definition blob_decodes :: "decompressor \<Rightarrow> u8 \<Rightarrow> u32 \<Rightarrow> bytes option \<Rightarrow> bytes option \<Rightarrow> bool" where
  "blob_decodes decompress codec_id ulen w d \<longleftrightarrow>
     (case (w, d) of
        (None, None) \<Rightarrow> True
      | (Some x, Some y) \<Rightarrow>
          (if codec_id = CODEC_STORE then y = x
           else decompress codec_id x ulen = Inr y \<and> saturating_u32 (length y) = ulen)
      | _ \<Rightarrow> False)"

lemma parses_inline:
  assumes "valid_wire_blob mi w" "encode_inline w = Some bs" "blob_decodes dec c ulen w d"
    and "n = (case w of None \<Rightarrow> 0 | Some x \<Rightarrow> word_of_nat (length x))"
  shows "\<exists>rest. bs = u32_to_le_bytes n @ rest \<and> parses (read_inline_blob dec n mi ulen c) rest d"
proof (cases w)
  case None
  with assms show ?thesis
    by (auto simp: encode_inline_def read_inline_blob_def blob_decodes_def intro!: wire_enc split: option.splits)
next
  case (Some x)
  then have x: "x \<noteq> []" "length x \<le> unat mi" and len: "length x < 2 ^ 32"
    using assms(1) unat_u32_lt [of mi] by (auto simp: valid_wire_blob_def)
  obtain y where y: "d = Some y" using assms(3) Some by (cases d) (auto simp: blob_decodes_def)
  have n: "n = word_of_nat (length x)" using assms(4) Some by simp
  have bs: "bs = u32_to_le_bytes n @ x" using assms(2) Some len n by (simp add: encode_inline_def)
  have "n \<noteq> 0" "\<not> mi < n" using x len n by (auto simp: word_less_nat_alt dest: word_of_nat_length_nonzero)
  moreover have "unat n = length x" using len n by simp
  ultimately have "parses (read_inline_blob dec n mi ulen c) x d"
    using assms(3) Some y unfolding read_inline_blob_def read_n_owned_def
    by (auto intro!: wire_enc simp: blob_decodes_def check_decompressed_def split: if_splits)
  with bs show ?thesis by blast
qed

lemma preads_inline:
  "preads (read_inline_blob dec n mi ulen c)
    (\<lambda>d b. \<exists>w. valid_wire_blob mi w \<and> encode_inline w = Some (u32_to_le_bytes n @ b) \<and> blob_decodes dec c ulen w d)"
  unfolding read_inline_blob_def read_n_owned_def
proof (intro wire_dec, goal_cases)
  case 1
  then show ?case by (intro exI [of _ None]) (simp add: valid_wire_blob_def encode_inline_def blob_decodes_def)
next
  case (2 b)
  then have "b \<noteq> []" by (auto simp: word_unat_eq_iff)
  with 2 show ?case
    using unat_u32_lt [of n]
    by (intro exI [of _ "Some b"]) (auto simp: valid_wire_blob_def encode_inline_def blob_decodes_def word_less_nat_alt)
next
  case (3 b y)
  then have "b \<noteq> []" by (auto simp: word_unat_eq_iff)
  moreover have "dec c b ulen = Inr y" "saturating_u32 (length y) = ulen"
    using 3(5) by (auto simp: check_decompressed_def Let_def split: sum.splits if_splits)
  ultimately show ?case
    using 3 unat_u32_lt [of n]
    by (intro exI [of _ "Some b"]) (auto simp: valid_wire_blob_def encode_inline_def blob_decodes_def word_less_nat_alt)
qed

section \<open>Version 1\<close>

lemma parses_v1:
  assumes "valid_metaref_v1 mu mi r" "encode_metaref_v1 r = Some bs"
  shows "parses (parse_v1 dec mu mi) bs r"
proof -
  let ?ls = "mr_locators r" and ?n = "case mr_inline_metadata r of None \<Rightarrow> 0 | Some x \<Rightarrow> word_of_nat (length x)"
  have v: "reachable_source mu (mr_metadata_hash r) ?ls (mr_inline_metadata r)"
    "valid_wire_blob mi (mr_inline_metadata r)" "mr_codec r = CODEC_STORE"
    and u: "unat (mr_uncompressed_len r) = (case mr_inline_metadata r of None \<Rightarrow> 0 | Some d \<Rightarrow> length d)"
    using assms(1) by (auto simp: valid_metaref_v1_def)
  have len: "length ?ls < 2 ^ 32" "\<forall>l \<in> set ?ls. valid_locator mu l" "length (mr_metadata_hash r) = 32"
    using v(1) by (auto simp: reachable_source_def)
  from assms(2) len obtain ls inline where ls: "concat_opt (map encode_locator ?ls) = Some ls"
    and inline: "encode_inline (mr_inline_metadata r) = Some inline"
    and bs: "bs = mr_metadata_hash r @ u32_to_le_bytes (word_of_nat (length ?ls)) @ ls @ inline"
    by (auto simp: encode_metaref_v1_def bind_eq_Some_conv)
  have n: "mr_uncompressed_len r = ?n"
    using u unat_u32_lt [of "mr_uncompressed_len r"]
    by (cases "mr_inline_metadata r") (auto simp: word_unat_eq_iff unat_of_nat)
  have "blob_decodes dec CODEC_STORE ?n (mr_inline_metadata r) (mr_inline_metadata r)"
    by (simp add: blob_decodes_def split: option.split)
  from parses_inline [OF v(2) inline this refl] obtain rest where "inline = u32_to_le_bytes ?n @ rest"
    and "parses (read_inline_blob dec ?n mi ?n CODEC_STORE) rest (mr_inline_metadata r)" by blast
  then show ?thesis
    unfolding bs parse_v1_def read_hash_def
    using parses_locators [OF len(2,1) ls] len(3) v n
    by (simp only:) (intro wire_enc parses_bind [where v = ?ls] parses_bind_last [where v = "mr_inline_metadata r"],
      auto simp: reachable_source_def)
qed

lemma preads_v1:
  "preads (parse_v1 dec mu mi) (\<lambda>r b. valid_metaref_v1 mu mi r \<and> encode_metaref_v1 r = Some b)"
  unfolding parse_v1_def read_hash_def
proof (intro wire_dec preads_bind [OF preads_locators] preads_bind [OF preads_inline], goal_cases)
  case (1 hash n ls b m d b')
  then obtain w where w: "valid_wire_blob mi w" "encode_inline w = Some (u32_to_le_bytes m @ b')"
    and "blob_decodes dec CODEC_STORE m w d" by blast
  then have d: "d = w" by (auto simp: blob_decodes_def split: option.splits)
  have "unat m = (case w of None \<Rightarrow> 0 | Some x \<Rightarrow> length x)"
  proof (cases w)
    case None
    then have "u32_to_le_bytes m = u32_to_le_bytes 0" using w(2)
      by (auto simp: encode_inline_def dest: arg_cong [where f = length])
    then have "m = 0" by (metis from_to_le_bytes(2))
    with None show ?thesis by simp
  next
    case (Some x)
    then have x: "length x < 2 ^ 32" using w(1) unat_u32_lt [of mi] by (auto simp: valid_wire_blob_def)
    then have "u32_to_le_bytes m = u32_to_le_bytes (word_of_nat (length x))" using w(2) Some
      by (auto simp: encode_inline_def)
    then have "m = word_of_nat (length x)" by (metis from_to_le_bytes(2))
    with Some x show ?thesis by simp
  qed
  with 1 w d show ?case
    using unat_u32_lt [of n]
    by (auto simp: valid_metaref_v1_def reachable_source_def encode_metaref_v1_def)
qed

lemma encode_inline_defined: "valid_wire_blob mi w \<Longrightarrow> encode_inline w \<noteq> None"
  using unat_u32_lt [of mi] by (auto simp: valid_wire_blob_def encode_inline_def split: option.splits)

interpretation metaref_v1: wire_format "parse_v1 dec mu mi" encode_metaref_v1 "valid_metaref_v1 mu mi" for dec mu mi
proof
  show "valid_metaref_v1 mu mi v \<Longrightarrow> encode_metaref_v1 v \<noteq> None" for v
    using locator.encodes_defined [of "mr_locators v" mu] encode_inline_defined [of mi "mr_inline_metadata v"]
    by (auto simp: valid_metaref_v1_def reachable_source_def encode_metaref_v1_def)
qed (rule parses_v1 preads_v1; assumption)+

section \<open>Version 2 and the dispatch\<close>

lemma parses_metaref_v2:
  assumes "reachable_source mu hash ls w" "valid_wire_blob mi w" "blob_decodes dec c ulen w d"
    and "encode_metaref_v2 hash ulen c ls w = Some bs"
  shows "parses (parse_metadata_reference_with_ceilings dec mu mi) bs
    \<lparr>mr_metadata_hash = hash, mr_locators = ls, mr_inline_metadata = d, mr_codec = c, mr_uncompressed_len = ulen\<rparr>"
proof -
  let ?n = "case w of None \<Rightarrow> 0 | Some x \<Rightarrow> word_of_nat (length x)"
  have len: "length ls < 2 ^ 32" "\<forall>l \<in> set ls. valid_locator mu l" "length hash = 32"
    using assms(1) by (auto simp: reachable_source_def)
  from assms(4) len obtain lsb inline where lsb: "concat_opt (map encode_locator ls) = Some lsb"
    and inline: "encode_inline w = Some inline"
    and bs: "bs = METADATA_REFERENCE_SECTION_VERSION_2 # hash @ u32_to_le_bytes ulen @ c
       # u32_to_le_bytes (word_of_nat (length ls)) @ lsb @ inline"
    by (auto simp: encode_metaref_v2_def bind_eq_Some_conv)
  have src: "\<not> (ls = [] \<and> d = None)"
    using assms(1,3) by (auto simp: reachable_source_def blob_decodes_def split: option.splits)
  from parses_inline [OF assms(2) inline assms(3) refl] obtain rest where "inline = u32_to_le_bytes ?n @ rest"
    and "parses (read_inline_blob dec ?n mi ulen c) rest d" by blast
  then have "parses (parse_v2 dec mu mi) (hash @ u32_to_le_bytes ulen @ c
       # u32_to_le_bytes (word_of_nat (length ls)) @ lsb @ inline)
      \<lparr>mr_metadata_hash = hash, mr_locators = ls, mr_inline_metadata = d, mr_codec = c, mr_uncompressed_len = ulen\<rparr>"
    unfolding parse_v2_def read_hash_def using parses_locators [OF len(2,1) lsb] len(3) src
    by (simp only:) (intro wire_enc parses_bind [where v = ls] parses_bind_last [where v = d], auto)
  then show ?thesis
    unfolding bs parse_metadata_reference_with_ceilings_def
    by (intro wire_enc) (simp add: METADATA_REFERENCE_SECTION_VERSION_def METADATA_REFERENCE_SECTION_VERSION_2_def)
qed

lemma parses_metaref_v1:
  assumes "valid_metaref_v1 mu mi r" "encode_metaref_v1 r = Some bs"
  shows "parses (parse_metadata_reference_with_ceilings dec mu mi) (METADATA_REFERENCE_SECTION_VERSION # bs) r"
  unfolding parse_metadata_reference_with_ceilings_def
  using parses_v1 [OF assms] by (intro wire_enc) simp

text \<open>Whatever was accepted is reachable, its locators are well formed, and compressed inline metadata has
  the declared length; the bytes consumed are one of the two encodings.\<close>

lemma preads_v2:
  "preads (parse_v2 dec mu mi) (\<lambda>r b. \<exists>w.
     reachable_source mu (mr_metadata_hash r) (mr_locators r) w \<and> valid_wire_blob mi w
     \<and> blob_decodes dec (mr_codec r) (mr_uncompressed_len r) w (mr_inline_metadata r)
     \<and> encode_metaref_v2 (mr_metadata_hash r) (mr_uncompressed_len r) (mr_codec r) (mr_locators r) w
         = Some (METADATA_REFERENCE_SECTION_VERSION_2 # b))"
  unfolding parse_v2_def read_hash_def
proof (intro wire_dec preads_bind [OF preads_locators] preads_bind [OF preads_inline], goal_cases)
  case (1 hash ulen c n ls b m d b')
  then obtain w where "valid_wire_blob mi w" "encode_inline w = Some (u32_to_le_bytes m @ b')"
    "blob_decodes dec c ulen w d" by blast
  moreover from this(3) have "d = None \<longleftrightarrow> w = None" by (auto simp: blob_decodes_def split: option.splits)
  ultimately show ?case
    using 1 unat_u32_lt [of n] by (intro exI [of _ w]) (auto simp: reachable_source_def encode_metaref_v2_def)
qed

definition metaref_decodes :: "decompressor \<Rightarrow> u32 \<Rightarrow> u32 \<Rightarrow> metadata_reference \<Rightarrow> bytes \<Rightarrow> bool" where
  "metaref_decodes dec mu mi r bs \<longleftrightarrow>
     (\<exists>b. valid_metaref_v1 mu mi r \<and> encode_metaref_v1 r = Some b \<and> bs = METADATA_REFERENCE_SECTION_VERSION # b)
     \<or> (\<exists>w. reachable_source mu (mr_metadata_hash r) (mr_locators r) w \<and> valid_wire_blob mi w
         \<and> blob_decodes dec (mr_codec r) (mr_uncompressed_len r) w (mr_inline_metadata r)
         \<and> encode_metaref_v2 (mr_metadata_hash r) (mr_uncompressed_len r) (mr_codec r) (mr_locators r) w = Some bs)"

lemma preads_metaref: "preads (parse_metadata_reference_with_ceilings dec mu mi) (metaref_decodes dec mu mi)"
  unfolding parse_metadata_reference_with_ceilings_def
  by (intro wire_dec preads_mono [OF preads_v1] preads_mono [OF preads_v2])
    (auto simp: metaref_decodes_def)

lemma metaref_decodes_parses:
  assumes "metaref_decodes dec mu mi r bs"
  shows "parses (parse_metadata_reference_with_ceilings dec mu mi) bs r"
  using assms unfolding metaref_decodes_def
proof (elim disjE exE conjE)
  fix w
  assume "reachable_source mu (mr_metadata_hash r) (mr_locators r) w" "valid_wire_blob mi w"
    "blob_decodes dec (mr_codec r) (mr_uncompressed_len r) w (mr_inline_metadata r)"
    "encode_metaref_v2 (mr_metadata_hash r) (mr_uncompressed_len r) (mr_codec r) (mr_locators r) w = Some bs"
  moreover have "\<lparr>mr_metadata_hash = mr_metadata_hash r, mr_locators = mr_locators r,
      mr_inline_metadata = mr_inline_metadata r, mr_codec = mr_codec r, mr_uncompressed_len = mr_uncompressed_len r\<rparr> = r"
    by simp
  ultimately show ?thesis by (metis parses_metaref_v2)
qed (simp add: parses_metaref_v1)

section \<open>The section's contract\<close>


text \<open>A toy decompressor for the witness: codec 4 doubles every byte.\<close>

definition doubling_decompress :: decompressor where
  "doubling_decompress codec_id bs expected =
     (if codec_id = 4 then Inr (concat (map (\<lambda>b. [b, b]) bs)) else Inl (UnsupportedFeature (FeatureText ''codec'')))"


end
