(* ===== verification/Ec_Params.thy ===== *)
theory Ec_Params
  imports Format
begin

text \<open>
  The erasure-coding parameters section (\<open>limnifs-core/src/ec_params.rs\<close>) and the builder's encoder.
  A parsed section has \<open>1 \<le> k\<close>, \<open>1 \<le> m\<close> and \<open>k + m \<le> 255\<close> for the default and for every override, which
  is what the Reed-Solomon routines require of their arguments.
\<close>

record ec_override =
  eo_slab_id :: slab_id
  eo_k :: u8
  eo_m :: u8

record ec_params =
  ep_k :: u8
  ep_m :: u8
  ep_polynomial :: u16
  ep_overrides :: "ec_override list"

definition EC_PARAMS_SECTION_VERSION :: u8 where
  "EC_PARAMS_SECTION_VERSION = 1"

definition DEFAULT_EC_POLYNOMIAL :: u16 where
  "DEFAULT_EC_POLYNOMIAL = 0x011D"

definition MAX_SHARDS :: u8 where
  "MAX_SHARDS = 255"

definition ec_default_params :: "u8 \<Rightarrow> u8 \<Rightarrow> ec_params" where
  "ec_default_params k m =
     \<lparr>ep_k = k, ep_m = m, ep_polynomial = DEFAULT_EC_POLYNOMIAL, ep_overrides = []\<rparr>"

definition validate_shard_counts :: "u8 \<Rightarrow> u8 \<Rightarrow> ec_label \<Rightarrow> unit outcome" where
  "validate_shard_counts k m label =
     (if k = 0 then Inl (Corrupt (EcReason (ShardKZero label)))
      else if m = 0 then Inl (Corrupt (EcReason (ShardMZero label)))
      else let total = (ucast k :: u16) + ucast m
           in if total > ucast MAX_SHARDS
              then Inl (Corrupt (EcReason (ShardCountExceeds label total)))
              else Inr ())"

definition parse_ec_override :: "nat \<Rightarrow> ec_override list \<Rightarrow> ec_override parser" where
  "parse_ec_override index overrides =
     pbind read_u64_le (\<lambda>ord.
     pbind (read_n 32) (\<lambda>hash.
     let sid = \<lparr>ordinal = ord, slab_hash = hash\<rparr> in
     pbind read_u8 (\<lambda>ok.
     pbind read_u8 (\<lambda>om.
     pbind (plift (validate_shard_counts ok om (EcOverrideOf index ord))) (\<lambda>_.
     if list_ex (\<lambda>existing. eo_slab_id existing = sid) overrides
     then perr (Corrupt (EcReason (EcOverrideDuplicate index ord))) else
     pret \<lparr>eo_slab_id = sid, eo_k = ok, eo_m = om\<rparr>)))))"

definition parse_ec_params :: "ec_params parser" where
  "parse_ec_params =
     pbind read_u8 (\<lambda>section_version.
     if section_version \<noteq> EC_PARAMS_SECTION_VERSION
     then perr (UnsupportedFeature (SectionVersion EcParamsSection section_version)) else
     pbind read_u8 (\<lambda>k.
     pbind read_u8 (\<lambda>m.
     pbind (plift (validate_shard_counts k m EcDefault)) (\<lambda>_.
     pbind read_u16_le (\<lambda>polynomial.
     if polynomial \<noteq> DEFAULT_EC_POLYNOMIAL
     then perr (UnsupportedFeature (PolynomialUnsupported polynomial)) else
     pbind read_u32_le (\<lambda>raw_count.
     case usize_checked_mul (unat raw_count) 42 of
       None \<Rightarrow> perr (Corrupt (CountOverflows EcParamsSection (unat raw_count)))
     | Some min_size \<Rightarrow>
         pbind (pensure min_size) (\<lambda>_.
         pbind (ploop parse_ec_override 0 (unat raw_count) []) (\<lambda>overrides.
         pret \<lparr>ep_k = k, ep_m = m, ep_polynomial = polynomial, ep_overrides = overrides\<rparr>))))))))"

definition encode_ec_override :: "ec_override \<Rightarrow> bytes" where
  "encode_ec_override ov = slab_id_to_bytes (eo_slab_id ov) @ [eo_k ov, eo_m ov]"

definition encode_ec_params :: "ec_params \<Rightarrow> bytes option" where
  "encode_ec_params p = do {
     count \<leftarrow> u32_try_from (length (ep_overrides p));
     body \<leftarrow> concat_opt (map (\<lambda>ov. Some (encode_ec_override ov)) (ep_overrides p));
     Some ([EC_PARAMS_SECTION_VERSION, ep_k p, ep_m p] @ u16_to_le_bytes (ep_polynomial p)
       @ u32_to_le_bytes count @ body)
   }"

section \<open>Well-formedness\<close>

definition valid_shards :: "u8 \<Rightarrow> u8 \<Rightarrow> bool" where
  "valid_shards k m \<longleftrightarrow> 1 \<le> unat k \<and> 1 \<le> unat m \<and> unat k + unat m \<le> 255"

definition valid_ec_override :: "ec_override \<Rightarrow> bool" where
  "valid_ec_override ov \<longleftrightarrow> length (slab_hash (eo_slab_id ov)) = 32 \<and> valid_shards (eo_k ov) (eo_m ov)"

definition valid_ec_params :: "ec_params \<Rightarrow> bool" where
  "valid_ec_params p \<longleftrightarrow>
     valid_shards (ep_k p) (ep_m p) \<and> ep_polynomial p = DEFAULT_EC_POLYNOMIAL
     \<and> length (ep_overrides p) < 2 ^ 32 \<and> keyed_ok eo_slab_id valid_ec_override (ep_overrides p)"

text \<open>The sum is taken at 16 bits, so it cannot wrap and the guard is the bound on the naturals.\<close>

lemma unat_ucast_u8: "unat (ucast (k :: u8) :: u16) = unat k"
  using unat_u8_lt [of k] by (simp add: unsigned_ucast_eq take_bit_nat_eq_self)

lemma unat_shard_total: "unat ((ucast (k :: u8) :: u16) + ucast (m :: u8)) = unat k + unat m"
  using unat_u8_lt [of k] unat_u8_lt [of m] by (simp add: unat_word_ariths unat_ucast_u8)

lemma u8_eq_0_iff: "(k :: u8) = 0 \<longleftrightarrow> unat k = 0"
  by (simp add: word_unat_eq_iff)

lemma validate_shard_counts_iff: "validate_shard_counts k m label = Inr () \<longleftrightarrow> valid_shards k m"
  unfolding validate_shard_counts_def valid_shards_def Let_def word_less_nat_alt unat_shard_total
    unat_ucast_u8 u8_eq_0_iff MAX_SHARDS_def
  by auto

interpretation ec_overrides:
  entry_list parse_ec_override "\<lambda>ov. Some (encode_ec_override ov)" "keyed_ok eo_slab_id valid_ec_override"
proof
  show "parses (parse_ec_override i acc) bs ov"
    if "keyed_ok eo_slab_id valid_ec_override (acc @ [ov])" "Some (encode_ec_override ov) = Some bs" for acc ov bs i
  proof -
    have "\<lparr>ordinal = ordinal (eo_slab_id ov), slab_hash = slab_hash (eo_slab_id ov)\<rparr> = eo_slab_id ov"
      by simp
    moreover have "bs = u64_to_le_bytes (ordinal (eo_slab_id ov)) @ slab_hash (eo_slab_id ov) @ [eo_k ov, eo_m ov]"
      using that(2) by (simp add: encode_ec_override_def slab_id_to_bytes_def)
    ultimately show ?thesis
      using that(1) unfolding parse_ec_override_def Let_def keyed_ok_snoc
      by (simp only:) (intro wire_enc, auto simp only: validate_shard_counts_iff list_ex_key valid_ec_override_def, simp_all add: validate_shard_counts_iff)
  qed
  show "preads (parse_ec_override i acc)
      (\<lambda>ov b. Some (encode_ec_override ov) = Some b \<and> keyed_ok eo_slab_id valid_ec_override (acc @ [ov]))"
    if "keyed_ok eo_slab_id valid_ec_override acc" for acc i
    using that unfolding parse_ec_override_def Let_def keyed_ok_snoc
    by (intro wire_dec) (auto simp: validate_shard_counts_iff list_ex_key valid_ec_override_def
        encode_ec_override_def slab_id_to_bytes_def)
qed (auto simp: keyed_ok_snoc)

lemma parses_ec_params:
  assumes "valid_ec_params p" "encode_ec_params p = Some bs"
  shows "parses parse_ec_params bs p"
proof -
  let ?body = "concat (map encode_ec_override (ep_overrides p))"
  have len: "length (ep_overrides p) < 2 ^ 32" and ok: "keyed_ok eo_slab_id valid_ec_override (ep_overrides p)"
    using assms(1) by (auto simp: valid_ec_params_def)
  from assms(2) len have bs: "bs = EC_PARAMS_SECTION_VERSION # ep_k p # ep_m p # u16_to_le_bytes (ep_polynomial p)
      @ u32_to_le_bytes (word_of_nat (length (ep_overrides p))) @ ?body"
    by (auto simp: encode_ec_params_def concat_opt_map_Some)
  have "length ?body = 42 * length (ep_overrides p)"
    using ok by (intro length_concat_map_const)
      (auto simp: encode_ec_override_def slab_id_to_bytes_def keyed_ok_def valid_ec_override_def)
  then show ?thesis
    unfolding bs parse_ec_params_def using len assms(1) ec_overrides.parses_list [OF ok concat_opt_map_Some]
    by (intro wire_enc parses_bind_last [of _ _ "ep_overrides p"])
      (auto simp: usize_checked_mul_small valid_ec_params_def validate_shard_counts_iff)
qed

lemma preads_ec_params:
  "preads parse_ec_params (\<lambda>p b. valid_ec_params p \<and> encode_ec_params p = Some b)"
  unfolding parse_ec_params_def
proof (intro wire_dec preads_bind [OF ec_overrides.preads_list], goal_cases)
  case (1 version k m u polynomial raw_count size es b)
  then show ?case
    using unat_u32_lt [of raw_count]
    by (auto simp: valid_ec_params_def encode_ec_params_def validate_shard_counts_iff)
qed

interpretation ec_params: wire_format parse_ec_params encode_ec_params valid_ec_params
proof
  show "valid_ec_params v \<Longrightarrow> encode_ec_params v \<noteq> None" for v
    by (simp add: valid_ec_params_def encode_ec_params_def concat_opt_map_Some)
qed (rule parses_ec_params preads_ec_params; assumption)+

section \<open>The section's contract\<close>

text \<open>The EC parameter parser accepts exactly the encodings of well-formed sections: data and parity
  counts at least 1 with at most 255 shards in all (the limit of the field), for the default and every override, the
  supported polynomial, and no two overrides for one slab.\<close>

theorem ec_params_accepts_iff:
  assumes "wf_cursor c" "length (cur_bytes c) < usize_bound"
  shows "parse_ec_params c = Inr (p, c') \<longleftrightarrow>
    (\<exists>bs rest. valid_ec_params p \<and> encode_ec_params p = Some bs \<and> remaining c = bs @ rest
       \<and> c' = c\<lparr>cur_pos := cur_pos c + length bs\<rparr>)"
  using assms by (rule ec_params.accepts_iff)

definition ec_params_example :: ec_params where
  "ec_params_example = \<lparr>ep_k = 4, ep_m = 2, ep_polynomial = DEFAULT_EC_POLYNOMIAL,
     ep_overrides = [\<lparr>eo_slab_id = \<lparr>ordinal = 1, slab_hash = replicate 32 9\<rparr>, eo_k = 254, eo_m = 1\<rparr>]\<rparr>"

definition ec_params_example_bytes :: bytes where
  "ec_params_example_bytes =
     [1, 4, 2, 0x1D, 1, 1, 0, 0, 0, 1, 0, 0, 0, 0, 0, 0, 0] @ replicate 32 9 @ [254, 1]"

theorem ec_params_accepts_iff_witness:
  "parse_ec_params (cursor_new ec_params_example_bytes)
    = Inr (ec_params_example, \<lparr>cur_bytes = ec_params_example_bytes, cur_pos = 51\<rparr>)"
  by (subst ec_params_accepts_iff)
    (simp_all add: ec_params_example_def ec_params_example_bytes_def wire_eval valid_ec_params_def valid_shards_def
      valid_ec_override_def encode_ec_params_def encode_ec_override_def slab_id_to_bytes_def
      EC_PARAMS_SECTION_VERSION_def DEFAULT_EC_POLYNOMIAL_def)

end
