(* ===== verification/Dms_Policy.thy ===== *)
theory Dms_Policy
  imports Format
begin

text \<open>
  The dead man's switch policy section (\<open>limnifs-core/src/dms_policy.rs\<close>): a Shamir k-of-n escrow record
  with one share per custodian, and the builder's encoder.
\<close>

record share_record =
  custodian_id :: bytes
  share_data :: bytes

record dms_policy =
  dms_k :: u8
  dms_n :: u8
  dms_shares :: "share_record list"
  reconstruction_hint :: "bytes option"

definition DMS_POLICY_SECTION_VERSION :: u8 where
  "DMS_POLICY_SECTION_VERSION = 1"

definition DMS_SCHEME_SHAMIR :: u8 where
  "DMS_SCHEME_SHAMIR = 0x00"

definition DMS_SCHEME_EXTENDED :: u8 where
  "DMS_SCHEME_EXTENDED = 0xFF"

definition DEFAULT_SHARE_DATA_MAX_BYTES :: u32 where
  "DEFAULT_SHARE_DATA_MAX_BYTES = 1024"

definition DEFAULT_HINT_MAX_BYTES :: u32 where
  "DEFAULT_HINT_MAX_BYTES = 4096"

definition validate_shamir_params :: "u8 \<Rightarrow> u8 \<Rightarrow> unit outcome" where
  "validate_shamir_params k n =
     (if k = 0 then Inl (Corrupt (DmsReason DmsKZero))
      else if n = 0 then Inl (Corrupt (DmsReason DmsNZero))
      else if k > n then Inl (Corrupt (DmsReason (DmsKExceedsN k n)))
      else Inr ())"

definition read_string_with_ceiling :: "u32 \<Rightarrow> u32 \<Rightarrow> bytes parser" where
  "read_string_with_ceiling raw_len ceiling =
     (if raw_len > ceiling then perr (Corrupt (DmsReason (DmsStringTooLong raw_len ceiling))) else
      pbind (read_n (unat raw_len)) (\<lambda>bs.
      if \<not> utf8_valid bs then perr (Corrupt (DmsReason DmsStringNotUtf8)) else pret bs))"

definition parse_share_record :: "nat \<Rightarrow> u32 \<Rightarrow> u32 \<Rightarrow> share_record parser" where
  "parse_share_record index max_hint_bytes max_share_data_bytes =
     pbind read_u32_le (\<lambda>custodian_id_len.
     pbind (read_string_with_ceiling custodian_id_len max_hint_bytes) (\<lambda>cid.
     if cid = [] then perr (Corrupt (DmsReason (DmsEmptyCustodian index))) else
     pbind read_u32_le (\<lambda>share_data_len.
     if share_data_len = 0 then perr (Corrupt (DmsReason (DmsEmptyShare index))) else
     if share_data_len > max_share_data_bytes
     then perr (Corrupt (DmsReason (DmsShareTooLong index share_data_len max_share_data_bytes))) else
     pbind (read_n (unat share_data_len)) (\<lambda>data.
     pret \<lparr>custodian_id = cid, share_data = data\<rparr>))))"

text \<open>One round of the share loop. \<open>seen_custodians\<close> holds exactly the ids of the shares so far, so the
  failing \<open>insert\<close> is a hit in them.\<close>

definition parse_share_step :: "u32 \<Rightarrow> u32 \<Rightarrow> nat \<Rightarrow> share_record list \<Rightarrow> share_record parser" where
  "parse_share_step max_hint_bytes max_share_data_bytes index shares =
     pbind (parse_share_record index max_hint_bytes max_share_data_bytes) (\<lambda>share.
     if list_ex (\<lambda>s. custodian_id s = custodian_id share) shares
     then perr (Corrupt (DmsReason (DmsDuplicateCustodian index (custodian_id share)))) else
     pret share)"

definition parse_reconstruction_hint :: "u32 \<Rightarrow> bytes option parser" where
  "parse_reconstruction_hint max_hint_bytes =
     pbind read_u32_le (\<lambda>hint_len.
     if hint_len = 0 then pret None else
     if hint_len > max_hint_bytes
     then perr (Corrupt (DmsReason (DmsHintTooLong hint_len max_hint_bytes))) else
     pbind (read_n (unat hint_len)) (\<lambda>bs.
     if \<not> utf8_valid bs then perr (Corrupt (DmsReason DmsHintNotUtf8)) else pret (Some bs)))"

definition share_count_as_u16 :: "u32 \<Rightarrow> u16" where
  "share_count_as_u16 share_count = (if unat share_count < 2 ^ 16 then ucast share_count else 0)"

definition parse_dms_policy_with_ceilings :: "u32 \<Rightarrow> u32 \<Rightarrow> dms_policy parser" where
  "parse_dms_policy_with_ceilings max_share_data_bytes max_hint_bytes =
     pbind read_u8 (\<lambda>section_version.
     if section_version \<noteq> DMS_POLICY_SECTION_VERSION
     then perr (UnsupportedFeature (SectionVersion DmsPolicySection section_version)) else
     pbind read_u8 (\<lambda>scheme.
     if scheme = DMS_SCHEME_EXTENDED then perr (UnsupportedFeature DmsSchemeExtended) else
     if scheme \<noteq> DMS_SCHEME_SHAMIR then perr (UnsupportedFeature (DmsSchemeUnsupported scheme)) else
     pbind read_u8 (\<lambda>k.
     pbind read_u8 (\<lambda>n.
     pbind (plift (validate_shamir_params k n)) (\<lambda>_.
     pbind read_u32_le (\<lambda>share_count.
     if ucast n \<noteq> share_count_as_u16 share_count
     then perr (Corrupt (DmsReason (DmsShareCount share_count n))) else
     pbind (ploop (parse_share_step max_hint_bytes max_share_data_bytes) 0 (unat share_count) []) (\<lambda>shares.
     pbind (parse_reconstruction_hint max_hint_bytes) (\<lambda>hint.
     pret \<lparr>dms_k = k, dms_n = n, dms_shares = shares, reconstruction_hint = hint\<rparr>))))))))"

definition parse_dms_policy :: "dms_policy parser" where
  "parse_dms_policy = parse_dms_policy_with_ceilings DEFAULT_SHARE_DATA_MAX_BYTES DEFAULT_HINT_MAX_BYTES"

definition encode_share_record :: "share_record \<Rightarrow> bytes option" where
  "encode_share_record s = do {
     cid_len \<leftarrow> u32_try_from (length (custodian_id s));
     sd_len \<leftarrow> u32_try_from (length (share_data s));
     Some (u32_to_le_bytes cid_len @ custodian_id s @ u32_to_le_bytes sd_len @ share_data s)
   }"

definition encode_hint :: "bytes option \<Rightarrow> bytes option" where
  "encode_hint hint =
     (case hint of
        None \<Rightarrow> Some (u32_to_le_bytes 0)
      | Some h \<Rightarrow> do {
          len \<leftarrow> u32_try_from (length h);
          Some (u32_to_le_bytes len @ h)
        })"

definition encode_dms_policy :: "dms_policy \<Rightarrow> bytes option" where
  "encode_dms_policy p = do {
     count \<leftarrow> u32_try_from (length (dms_shares p));
     body \<leftarrow> concat_opt (map encode_share_record (dms_shares p));
     hint \<leftarrow> encode_hint (reconstruction_hint p);
     Some ([DMS_POLICY_SECTION_VERSION, DMS_SCHEME_SHAMIR, dms_k p, dms_n p]
       @ u32_to_le_bytes count @ body @ hint)
   }"

section \<open>Well-formedness\<close>

definition valid_share :: "u32 \<Rightarrow> u32 \<Rightarrow> share_record \<Rightarrow> bool" where
  "valid_share max_hint max_data s \<longleftrightarrow>
     custodian_id s \<noteq> [] \<and> length (custodian_id s) \<le> unat max_hint \<and> utf8_valid (custodian_id s)
     \<and> share_data s \<noteq> [] \<and> length (share_data s) \<le> unat max_data"

definition valid_hint :: "u32 \<Rightarrow> bytes option \<Rightarrow> bool" where
  "valid_hint max_hint hint \<longleftrightarrow>
     (case hint of None \<Rightarrow> True
      | Some h \<Rightarrow> h \<noteq> [] \<and> length h \<le> unat max_hint \<and> utf8_valid h)"

abbreviation shares_ok :: "u32 \<Rightarrow> u32 \<Rightarrow> share_record list \<Rightarrow> bool" where
  "shares_ok max_hint max_data \<equiv> keyed_ok custodian_id (valid_share max_hint max_data)"

definition valid_dms_policy :: "u32 \<Rightarrow> u32 \<Rightarrow> dms_policy \<Rightarrow> bool" where
  "valid_dms_policy max_data max_hint p \<longleftrightarrow>
     1 \<le> unat (dms_k p) \<and> unat (dms_k p) \<le> unat (dms_n p)
     \<and> length (dms_shares p) = unat (dms_n p) \<and> shares_ok max_hint max_data (dms_shares p)
     \<and> valid_hint max_hint (reconstruction_hint p)"

lemma validate_shamir_params_iff:
  "validate_shamir_params k n = Inr () \<longleftrightarrow> 1 \<le> unat k \<and> unat k \<le> unat n"
  by (auto simp: validate_shamir_params_def word_unat_eq_iff word_less_nat_alt)

text \<open>The share count equals \<open>n\<close> as naturals: a count past 16 bits falls back to 0, which \<open>n\<close> is not.\<close>

lemma share_count_eq_n:
  "n \<noteq> 0 \<Longrightarrow> (ucast (n :: u8) = share_count_as_u16 c) \<longleftrightarrow> unat c = unat n"
proof -
  assume n: "n \<noteq> 0"
  have un: "unat (ucast n :: u16) = unat n"
    using unat_u8_lt [of n] by (simp add: unsigned_ucast_eq take_bit_nat_eq_self)
  have uc: "unat (ucast c :: u16) = unat c" if "unat c < 65536"
    using that by (simp add: unsigned_ucast_eq take_bit_nat_eq_self)
  show ?thesis
    using n un uc unat_u8_lt [of n]
    by (auto simp: share_count_as_u16_def word_unat_eq_iff)
qed

lemma word_of_length_pos: "xs \<noteq> [] \<Longrightarrow> length xs < 2 ^ 32 \<Longrightarrow> (word_of_nat (length xs) :: u32) \<noteq> 0"
  by (metis length_0_conv unat_0 unat_u32_of_nat)

lemma u32_pos_length: "length xs = unat (n :: u32) \<Longrightarrow> n \<noteq> 0 \<Longrightarrow> xs \<noteq> []"
  by (auto simp: word_unat_eq_iff)

lemma parses_share_step:
  assumes "shares_ok mh md (acc @ [s])" "encode_share_record s = Some bs"
  shows "parses (parse_share_step mh md i acc) bs s"
proof -
  have v: "custodian_id s \<noteq> []" "length (custodian_id s) \<le> unat mh" "utf8_valid (custodian_id s)"
      "share_data s \<noteq> []" "length (share_data s) \<le> unat md" and new: "custodian_id s \<notin> custodian_id ` set acc"
    using assms(1) by (auto simp: keyed_ok_snoc valid_share_def)
  have len: "length (custodian_id s) < 2 ^ 32" "length (share_data s) < 2 ^ 32"
    using v unat_u32_lt [of mh] unat_u32_lt [of md] by simp_all
  have bs: "bs = u32_to_le_bytes (word_of_nat (length (custodian_id s))) @ custodian_id s
      @ u32_to_le_bytes (word_of_nat (length (share_data s))) @ share_data s"
    using assms(2) len by (simp add: encode_share_record_def)
  have "parses (read_string_with_ceiling (word_of_nat (length (custodian_id s))) mh) (custodian_id s) (custodian_id s)"
    unfolding read_string_with_ceiling_def using v len by (intro wire_enc) (auto simp: word_less_nat_alt)
  then have "parses (parse_share_record i mh md) bs s"
    unfolding bs parse_share_record_def using v len
    by (intro wire_enc parses_bind [where v = "custodian_id s"])
      (auto simp: word_less_nat_alt dest: word_of_length_pos)
  then show ?thesis
    unfolding parse_share_step_def using new
    by (intro parses_bind_last [where v = s] wire_enc) (auto simp: list_ex_key)
qed

lemma preads_string_with_ceiling:
  "preads (read_string_with_ceiling n m)
    (\<lambda>v b. b = v \<and> length v = unat n \<and> unat n \<le> unat m \<and> utf8_valid v)"
  unfolding read_string_with_ceiling_def
  by (intro wire_dec) (auto simp: word_less_nat_alt)

lemma preads_share_step:
  assumes "shares_ok mh md acc"
  shows "preads (parse_share_step mh md i acc)
    (\<lambda>s b. encode_share_record s = Some b \<and> shares_ok mh md (acc @ [s]))"
  unfolding parse_share_step_def
proof (rule preads_bind [where R = "\<lambda>s b. encode_share_record s = Some b \<and> valid_share mh md s"])
  show "preads (parse_share_record i mh md) (\<lambda>s b. encode_share_record s = Some b \<and> valid_share mh md s)"
    unfolding parse_share_record_def
  proof (intro wire_dec preads_bind [OF preads_string_with_ceiling], goal_cases)
    case (1 n cid b n' data)
    then show ?case
      using unat_u32_lt [of n] unat_u32_lt [of n'] u32_pos_length [of data n']
      by (auto simp: encode_share_record_def valid_share_def word_less_nat_alt)
  qed
qed (intro wire_dec, use assms in \<open>auto simp: keyed_ok_snoc list_ex_key\<close>)

interpretation share_records: entry_list "parse_share_step mh md" encode_share_record "shares_ok mh md" for mh md
proof
  show "encode_share_record s \<noteq> None" if "shares_ok mh md (acc @ [s])" for acc s
    using that unat_u32_lt [of mh] unat_u32_lt [of md]
    by (auto simp: keyed_ok_snoc valid_share_def encode_share_record_def)
qed (auto intro: parses_share_step preads_share_step dest: keyed_ok_snoc [THEN iffD1])

lemma parses_hint:
  assumes "valid_hint m hint" "encode_hint hint = Some bs"
  shows "parses (parse_reconstruction_hint m) bs hint"
proof (cases hint)
  case None
  then show ?thesis
    using assms(2) unfolding parse_reconstruction_hint_def encode_hint_def by (auto intro!: wire_enc)
next
  case (Some h)
  then have "h \<noteq> []" "length h \<le> unat m" "utf8_valid h" "length h < 2 ^ 32"
    using assms(1) unat_u32_lt [of m] by (auto simp: valid_hint_def)
  moreover from this Some have "bs = u32_to_le_bytes (word_of_nat (length h)) @ h"
    using assms(2) by (simp add: encode_hint_def)
  ultimately show ?thesis
    using Some word_of_length_pos [of h] unfolding parse_reconstruction_hint_def
    by (simp only:) (intro wire_enc, auto simp: word_less_nat_alt intro!: wire_enc)
qed

lemma preads_hint:
  "preads (parse_reconstruction_hint m) (\<lambda>hint b. valid_hint m hint \<and> encode_hint hint = Some b)"
  unfolding parse_reconstruction_hint_def
proof (intro wire_dec, goal_cases)
  case (1 n)
  then show ?case by (simp add: valid_hint_def encode_hint_def)
next
  case (2 n h)
  then show ?case
    using unat_u32_lt [of n] u32_pos_length [of h n]
    by (auto simp: valid_hint_def encode_hint_def word_less_nat_alt)
qed

lemma parses_dms_policy:
  assumes "valid_dms_policy md mh p" "encode_dms_policy p = Some bs"
  shows "parses (parse_dms_policy_with_ceilings md mh) bs p"
proof -
  let ?ss = "dms_shares p"
  have kn: "1 \<le> unat (dms_k p)" "unat (dms_k p) \<le> unat (dms_n p)" and len: "length ?ss = unat (dms_n p)"
    and ok: "shares_ok mh md ?ss" and hint: "valid_hint mh (reconstruction_hint p)"
    using assms(1) by (auto simp: valid_dms_policy_def)
  have len': "length ?ss < 2 ^ 32" using len unat_u8_lt [of "dms_n p"] by simp
  with assms(2) obtain body h where body: "concat_opt (map encode_share_record ?ss) = Some body"
    and h: "encode_hint (reconstruction_hint p) = Some h"
    and bs: "bs = DMS_POLICY_SECTION_VERSION # DMS_SCHEME_SHAMIR # dms_k p # dms_n p
       # u32_to_le_bytes (word_of_nat (length ?ss)) @ body @ h"
    by (auto simp: encode_dms_policy_def bind_eq_Some_conv)
  have n: "dms_n p \<noteq> 0" using kn by auto
  have eq: "unat (word_of_nat (length ?ss) :: u32) = length ?ss" using len' by simp
  have "parses (ploop (parse_share_step mh md) 0 (length ?ss) []) body ?ss"
    by (rule share_records.parses_list [OF ok body])
  then have loop: "parses (ploop (parse_share_step mh md) 0 (unat (word_of_nat (length ?ss) :: u32)) []) body ?ss"
    unfolding eq .
  show ?thesis
    unfolding bs parse_dms_policy_with_ceilings_def
    using kn len eq share_count_eq_n [OF n] loop parses_hint [OF hint h]
    by (intro wire_enc parses_bind [where v = ?ss] parses_bind_last [where v = "reconstruction_hint p"])
      (auto simp: validate_shamir_params_iff DMS_SCHEME_SHAMIR_def DMS_SCHEME_EXTENDED_def)
qed

lemma preads_dms_policy:
  "preads (parse_dms_policy_with_ceilings md mh) (\<lambda>p b. valid_dms_policy md mh p \<and> encode_dms_policy p = Some b)"
  unfolding parse_dms_policy_with_ceilings_def
proof (intro wire_dec preads_bind [OF share_records.preads_list] preads_bind [OF preads_hint], goal_cases)
  case (1 version scheme k n u count ss b hint b')
  then have kn: "1 \<le> unat k" "unat k \<le> unat n" by (simp_all add: validate_shamir_params_iff)
  then have "n \<noteq> 0" by auto
  with 1 have "length ss = unat n" using share_count_eq_n [of n count] by simp
  with 1 kn show ?case
    using unat_u32_lt [of count] by (auto simp: valid_dms_policy_def encode_dms_policy_def)
qed

lemma encode_hint_defined: "valid_hint m hint \<Longrightarrow> encode_hint hint \<noteq> None"
  using unat_u32_lt [of m] by (auto simp: valid_hint_def encode_hint_def split: option.splits)

interpretation dms_policy: wire_format "parse_dms_policy_with_ceilings md mh" encode_dms_policy
  "valid_dms_policy md mh" for md mh
proof
  show "encode_dms_policy v \<noteq> None" if v: "valid_dms_policy md mh v" for v
  proof -
    from v have "shares_ok mh md (dms_shares v)" by (simp add: valid_dms_policy_def)
    then obtain body where "concat_opt (map encode_share_record (dms_shares v)) = Some body"
      by (rule share_records.encs_defined)
    moreover obtain h where "encode_hint (reconstruction_hint v) = Some h"
      using v encode_hint_defined [of mh] by (auto simp: valid_dms_policy_def)
    ultimately show ?thesis
      using v unat_u8_lt [of "dms_n v"] by (simp add: valid_dms_policy_def encode_dms_policy_def)
  qed
qed (rule parses_dms_policy preads_dms_policy; assumption)+

section \<open>The section's contract\<close>

text \<open>The DMS policy parser accepts exactly the encodings of well-formed policies: \<open>1 \<le> k \<le> n\<close>, exactly \<open>n\<close>
  shares with distinct non-empty custodians and non-empty share data, all within the ceilings.\<close>

theorem dms_policy_accepts_iff:
  assumes "wf_cursor c" "length (cur_bytes c) < usize_bound"
  shows "parse_dms_policy_with_ceilings md mh c = Inr (p, c') \<longleftrightarrow>
    (\<exists>bs rest. valid_dms_policy md mh p \<and> encode_dms_policy p = Some bs \<and> remaining c = bs @ rest
       \<and> c' = c\<lparr>cur_pos := cur_pos c + length bs\<rparr>)"
  using assms by (rule dms_policy.accepts_iff)

definition dms_policy_example :: dms_policy where
  "dms_policy_example = \<lparr>dms_k = 1, dms_n = 2,
     dms_shares = [\<lparr>custodian_id = [97], share_data = [5]\<rparr>, \<lparr>custodian_id = [98], share_data = [6, 7]\<rparr>],
     reconstruction_hint = Some [104]\<rparr>"

definition dms_policy_example_bytes :: bytes where
  "dms_policy_example_bytes = [1, 0, 1, 2, 2, 0, 0, 0, 1, 0, 0, 0, 97, 1, 0, 0, 0, 5,
     1, 0, 0, 0, 98, 2, 0, 0, 0, 6, 7, 1, 0, 0, 0, 104]"

theorem dms_policy_accepts_iff_witness:
  "parse_dms_policy_with_ceilings 1024 4096 (cursor_new dms_policy_example_bytes)
    = Inr (dms_policy_example, \<lparr>cur_bytes = dms_policy_example_bytes, cur_pos = 34\<rparr>)"
  by (subst dms_policy_accepts_iff)
    (simp_all add: dms_policy_example_def dms_policy_example_bytes_def wire_eval valid_dms_policy_def
      valid_share_def valid_hint_def encode_dms_policy_def encode_share_record_def encode_hint_def
      DMS_POLICY_SECTION_VERSION_def DMS_SCHEME_SHAMIR_def)

end
