(* ===== verification/History.thy ===== *)
theory History
  imports Format
begin

text \<open>
  The history section (\<open>limnifs-core/src/history.rs\<close>): the non-empty log of the operations that produced
  the image, with the builder's encoder.
\<close>

datatype history_op = Build | Delta | Flatten | Turnover | Deepen

fun history_op_to_byte :: "history_op \<Rightarrow> u8" where
  "history_op_to_byte Build = 0x01"
| "history_op_to_byte Delta = 0x02"
| "history_op_to_byte Flatten = 0x03"
| "history_op_to_byte Turnover = 0x04"
| "history_op_to_byte Deepen = 0x05"

definition history_op_from_byte :: "u8 \<Rightarrow> history_op option" where
  "history_op_from_byte byte =
     (if byte = 0x01 then Some Build else if byte = 0x02 then Some Delta
      else if byte = 0x03 then Some Flatten else if byte = 0x04 then Some Turnover
      else if byte = 0x05 then Some Deepen else None)"

record history_entry =
  he_op :: history_op
  he_timestamp_ns :: u64
  he_inputs :: "bytes list"
  he_params :: bytes

record history =
  h_entries :: "history_entry list"

definition HISTORY_SECTION_VERSION :: u8 where
  "HISTORY_SECTION_VERSION = 1"

definition OP_EXTENDED :: u8 where
  "OP_EXTENDED = 0xFF"

definition DEFAULT_HISTORY_PARAMS_MAX_BYTES :: u32 where
  "DEFAULT_HISTORY_PARAMS_MAX_BYTES = 4096"

definition parse_history_entry_with_ceiling :: "u32 \<Rightarrow> history_entry parser" where
  "parse_history_entry_with_ceiling max_params_bytes =
     pbind read_u8 (\<lambda>op_byte.
     if op_byte = OP_EXTENDED then perr (UnsupportedFeature HistoryOpExtended) else
     case history_op_from_byte op_byte of
       None \<Rightarrow> perr (UnsupportedFeature (HistoryOpReserved op_byte))
     | Some op \<Rightarrow>
         pbind read_u64_le (\<lambda>timestamp_ns.
         pbind read_u32_le (\<lambda>raw_input_count.
         case usize_checked_mul (unat raw_input_count) 32 of
           None \<Rightarrow> perr (Corrupt (HistoryReason (HistoryInputsOverflow (unat raw_input_count))))
         | Some inputs_size \<Rightarrow>
             pbind (read_n inputs_size) (\<lambda>inputs_bytes.
             pbind read_u32_le (\<lambda>params_len.
             if params_len > max_params_bytes
             then perr (Corrupt (HistoryReason (HistoryParamsTooLong params_len max_params_bytes))) else
             pbind (read_n (unat params_len)) (\<lambda>params.
             pret \<lparr>he_op = op, he_timestamp_ns = timestamp_ns, he_inputs = chunks 32 inputs_bytes,
                   he_params = params\<rparr>))))))"

definition annotate_history_error :: "nat \<Rightarrow> core_error \<Rightarrow> core_error" where
  "annotate_history_error index err =
     (case err of
        Corrupt reason \<Rightarrow> Corrupt (InEntry index reason)
      | UnsupportedFeature feature \<Rightarrow> UnsupportedFeature (FeatureInEntry index feature)
      | other \<Rightarrow> other)"

definition parse_history_with_ceiling :: "u32 \<Rightarrow> history parser" where
  "parse_history_with_ceiling max_params_bytes =
     pbind read_u8 (\<lambda>section_version.
     if section_version \<noteq> HISTORY_SECTION_VERSION
     then perr (UnsupportedFeature (SectionVersion HistorySection section_version)) else
     pbind read_u32_le (\<lambda>raw_count.
     if unat raw_count = 0 then perr (Corrupt (HistoryReason HistoryEmpty)) else
     case usize_checked_mul (unat raw_count) 17 of
       None \<Rightarrow> perr (Corrupt (CountOverflows HistorySection (unat raw_count)))
     | Some min_section_size \<Rightarrow>
         pbind (pensure min_section_size) (\<lambda>_.
         pbind (ploop (\<lambda>index _. pmap_err (annotate_history_error index)
                  (parse_history_entry_with_ceiling max_params_bytes)) 0 (unat raw_count) []) (\<lambda>entries.
         pret \<lparr>h_entries = entries\<rparr>))))"

definition parse_history :: "history parser" where
  "parse_history = parse_history_with_ceiling DEFAULT_HISTORY_PARAMS_MAX_BYTES"

definition encode_history_entry :: "history_entry \<Rightarrow> bytes option" where
  "encode_history_entry e = do {
     input_count \<leftarrow> u32_try_from (length (he_inputs e));
     params_len \<leftarrow> u32_try_from (length (he_params e));
     Some ([history_op_to_byte (he_op e)] @ u64_to_le_bytes (he_timestamp_ns e)
       @ u32_to_le_bytes input_count @ concat (he_inputs e)
       @ u32_to_le_bytes params_len @ he_params e)
   }"

definition encode_history :: "history \<Rightarrow> bytes option" where
  "encode_history h = do {
     count \<leftarrow> u32_try_from (length (h_entries h));
     body \<leftarrow> concat_opt (map encode_history_entry (h_entries h));
     Some ([HISTORY_SECTION_VERSION] @ u32_to_le_bytes count @ body)
   }"

section \<open>Well-formedness\<close>

definition valid_history_entry :: "u32 \<Rightarrow> history_entry \<Rightarrow> bool" where
  "valid_history_entry m e \<longleftrightarrow>
     length (he_inputs e) < 2 ^ 32 \<and> (\<forall>r \<in> set (he_inputs e). length r = 32)
     \<and> length (he_params e) \<le> unat m"

definition valid_history :: "u32 \<Rightarrow> history \<Rightarrow> bool" where
  "valid_history m h \<longleftrightarrow>
     h_entries h \<noteq> [] \<and> length (h_entries h) < 2 ^ 32 \<and> (\<forall>e \<in> set (h_entries h). valid_history_entry m e)"

lemma history_op_from_to_byte [simp]: "history_op_from_byte (history_op_to_byte op) = Some op"
  by (cases op) (simp_all add: history_op_from_byte_def)

lemma history_op_from_byte_Some: "history_op_from_byte b = Some op \<Longrightarrow> history_op_to_byte op = b"
  by (auto simp: history_op_from_byte_def split: if_splits)

lemma history_op_not_extended [simp]: "history_op_to_byte op \<noteq> OP_EXTENDED"
  by (cases op) (simp_all add: OP_EXTENDED_def)

lemma parses_history_entry:
  assumes "valid_history_entry m e" "encode_history_entry e = Some bs"
  shows "parses (parse_history_entry_with_ceiling m) bs e"
proof -
  have len: "length (he_inputs e) < 2 ^ 32" "length (he_params e) < 2 ^ 32"
    and inputs: "\<forall>r \<in> set (he_inputs e). length r = 32" and params: "length (he_params e) \<le> unat m"
    using assms(1) unat_u32_lt [of m] by (auto simp: valid_history_entry_def)
  have bs: "bs = history_op_to_byte (he_op e) # u64_to_le_bytes (he_timestamp_ns e)
       @ u32_to_le_bytes (word_of_nat (length (he_inputs e))) @ concat (he_inputs e)
       @ u32_to_le_bytes (word_of_nat (length (he_params e))) @ he_params e"
    using assms(2) len by (simp add: encode_history_entry_def)
  have "length (concat (he_inputs e)) = 32 * length (he_inputs e)" "chunks 32 (concat (he_inputs e)) = he_inputs e"
    using inputs length_concat_map_const [of "he_inputs e" id 32] chunks_exact_map [of "he_inputs e" id 32] by simp_all
  then show ?thesis
    unfolding bs parse_history_entry_with_ceiling_def using len params
    by (intro wire_enc) (auto simp: usize_checked_mul_small word_less_nat_alt)
qed

lemma chunks_full:
  "length bs = k * n \<Longrightarrow> 0 < n \<Longrightarrow> length (chunks n bs) = k \<and> (\<forall>c \<in> set (chunks n bs). length c = n)"
proof (induction k arbitrary: bs)
  case 0
  then show ?case by simp
next
  case (Suc k)
  then obtain x xs where bs: "bs = x # xs" by (cases bs) auto
  have "length (drop n bs) = k * n" using Suc.prems(1) by simp
  from Suc.IH [OF this Suc.prems(2)] show ?case using Suc.prems bs by auto
qed

lemma preads_history_entry:
  "preads (parse_history_entry_with_ceiling m) (\<lambda>e b. valid_history_entry m e \<and> encode_history_entry e = Some b)"
  unfolding parse_history_entry_with_ceiling_def
proof (intro wire_dec, goal_cases)
  case (1 op_byte op t n size inputs params_len params)
  have size: "size = unat n * 32"
    using 1(3) unat_u32_lt [of n] by (simp add: usize_checked_mul_small)
  from chunks_full [of inputs "unat n" 32] 1(4) size
  have "length (chunks 32 inputs) = unat n" "\<forall>c \<in> set (chunks 32 inputs). length c = 32" by simp_all
  then show ?case
    using 1 history_op_from_byte_Some [OF 1(2)] unat_u32_lt [of n] unat_u32_lt [of params_len]
    by (auto simp: valid_history_entry_def encode_history_entry_def word_less_nat_alt)
qed

interpretation history_entry: wire_format "parse_history_entry_with_ceiling m" encode_history_entry
  "valid_history_entry m" for m
proof
  show "valid_history_entry m v \<Longrightarrow> encode_history_entry v \<noteq> None" for v
    using unat_u32_lt [of m] by (auto simp: valid_history_entry_def encode_history_entry_def)
qed (rule parses_history_entry preads_history_entry; assumption)+

lemma encode_history_entry_length: "encode_history_entry e = Some b \<Longrightarrow> 17 \<le> length b"
  by (auto simp: encode_history_entry_def bind_eq_Some_conv)

lemma parses_history:
  assumes "valid_history m h" "encode_history h = Some bs"
  shows "parses (parse_history_with_ceiling m) bs h"
proof -
  let ?es = "h_entries h"
  have len: "length ?es < 2 ^ 32" and ne: "?es \<noteq> []" and ok: "\<forall>e \<in> set ?es. valid_history_entry m e"
    using assms(1) by (auto simp: valid_history_def)
  from assms(2) len obtain body where body: "concat_opt (map encode_history_entry ?es) = Some body"
    and bs: "bs = HISTORY_SECTION_VERSION # u32_to_le_bytes (word_of_nat (length ?es)) @ body"
    by (auto simp: encode_history_def bind_eq_Some_conv)
  have "17 * length (map encode_history_entry ?es) \<le> length body"
    by (rule concat_opt_length_ge [OF body]) (auto intro: encode_history_entry_length dest!: sym [of "Some _"])
  then show ?thesis
    unfolding bs parse_history_with_ceiling_def using len ne history_entry.parses_entries [OF ok body]
    by (intro wire_enc parses_bind_last [of _ _ ?es]) (auto simp: usize_checked_mul_small)
qed

lemma preads_history:
  "preads (parse_history_with_ceiling m) (\<lambda>h b. valid_history m h \<and> encode_history h = Some b)"
  unfolding parse_history_with_ceiling_def
proof (intro wire_dec preads_bind [OF history_entry.preads_entries], goal_cases)
  case (1 version raw_count size es b)
  then show ?case
    using unat_u32_lt [of raw_count] by (auto simp: valid_history_def encode_history_def)
qed

interpretation history: wire_format "parse_history_with_ceiling m" encode_history "valid_history m" for m
proof
  show "valid_history m v \<Longrightarrow> encode_history v \<noteq> None" for v
    using history_entry.encodes_defined [of "h_entries v" m] by (auto simp: valid_history_def encode_history_def)
qed (rule parses_history preads_history; assumption)+

section \<open>The section's contract\<close>

text \<open>The history parser accepts exactly the encodings of non-empty logs whose entries have 32-byte
  inputs and parameters within the ceiling.\<close>

theorem history_accepts_iff:
  assumes "wf_cursor c" "length (cur_bytes c) < usize_bound"
  shows "parse_history_with_ceiling m c = Inr (h, c') \<longleftrightarrow>
    (\<exists>bs rest. valid_history m h \<and> encode_history h = Some bs \<and> remaining c = bs @ rest
       \<and> c' = c\<lparr>cur_pos := cur_pos c + length bs\<rparr>)"
  using assms by (rule history.accepts_iff)

definition history_example :: history where
  "history_example = \<lparr>h_entries = [\<lparr>he_op = Flatten, he_timestamp_ns = 258, he_inputs = [replicate 32 3], he_params = [1, 2]\<rparr>]\<rparr>"

definition history_example_bytes :: bytes where
  "history_example_bytes = [1, 1, 0, 0, 0, 3, 2, 1, 0, 0, 0, 0, 0, 0, 1, 0, 0, 0] @ replicate 32 3 @ [2, 0, 0, 0, 1, 2]"

theorem history_accepts_iff_witness:
  "parse_history_with_ceiling 4096 (cursor_new history_example_bytes)
    = Inr (history_example, \<lparr>cur_bytes = history_example_bytes, cur_pos = 56\<rparr>)"
  by (subst history_accepts_iff)
    (simp_all add: history_example_def history_example_bytes_def wire_eval valid_history_def
      valid_history_entry_def encode_history_def encode_history_entry_def HISTORY_SECTION_VERSION_def)

end
