(* ===== verification/Merkle.thy ===== *)
theory Merkle
  imports Cursor
begin

text \<open>
  The Merkle root of a manifest (\<open>limnifs-core/src/merkle.rs\<close>). BLAKE3 is a third-party function, the
  argument \<open>H\<close> of the definitions; nothing is assumed of it. Binding is stated as a reduction: two manifests
  with the same root either agree in every section hash or exhibit a collision of \<open>H\<close>.
\<close>

record section_hashes =
  sh_metadata :: bytes
  sh_format_header :: bytes
  sh_feature_flags :: bytes
  sh_metadata_reference :: bytes
  sh_slab_index :: bytes
  sh_crypto_params :: bytes
  sh_ec_params :: bytes
  sh_dms_policy :: bytes
  sh_delta_linkage :: bytes
  sh_history :: bytes

definition MERKLE_DOMAIN_SEPARATOR :: bytes where
  "MERKLE_DOMAIN_SEPARATOR = [0x6C, 0x69, 0x6D, 0x6E, 0x69, 0x66, 0x73, 0x2F, 0x76, 0x31]"

definition hash_section :: "(bytes \<Rightarrow> bytes) \<Rightarrow> bytes \<Rightarrow> bytes" where
  "hash_section H bs = H bs"

definition hash_empty_section :: "(bytes \<Rightarrow> bytes) \<Rightarrow> bytes" where
  "hash_empty_section H = hash_section H []"

definition section_hashes_minimal ::
    "(bytes \<Rightarrow> bytes) \<Rightarrow> bytes \<Rightarrow> bytes \<Rightarrow> bytes \<Rightarrow> bytes \<Rightarrow> bytes \<Rightarrow> bytes \<Rightarrow> section_hashes" where
  "section_hashes_minimal H metadata format_header feature_flags metadata_reference slab_index history =
     (let empty = hash_empty_section H
      in \<lparr>sh_metadata = metadata, sh_format_header = format_header, sh_feature_flags = feature_flags,
          sh_metadata_reference = metadata_reference, sh_slab_index = slab_index,
          sh_crypto_params = empty, sh_ec_params = empty, sh_dms_policy = empty,
          sh_delta_linkage = empty, sh_history = history\<rparr>)"

text \<open>The hasher is updated with the separator and the ten hashes in order; hashing a stream of updates
  is hashing their concatenation.\<close>

definition merkle_input :: "section_hashes \<Rightarrow> bytes" where
  "merkle_input h = MERKLE_DOMAIN_SEPARATOR @ sh_metadata h @ sh_format_header h @ sh_feature_flags h
     @ sh_metadata_reference h @ sh_slab_index h @ sh_crypto_params h @ sh_ec_params h
     @ sh_dms_policy h @ sh_delta_linkage h @ sh_history h"

definition compute_merkle_root :: "(bytes \<Rightarrow> bytes) \<Rightarrow> section_hashes \<Rightarrow> bytes" where
  "compute_merkle_root H h = H (merkle_input h)"

definition hashes_32 :: "section_hashes \<Rightarrow> bool" where
  "hashes_32 h \<longleftrightarrow>
     list_all (\<lambda>b. length b = 32)
       [sh_metadata h, sh_format_header h, sh_feature_flags h, sh_metadata_reference h, sh_slab_index h,
        sh_crypto_params h, sh_ec_params h, sh_dms_policy h, sh_delta_linkage h, sh_history h]"

lemma length_merkle_input: "hashes_32 h \<Longrightarrow> length (merkle_input h) = 330"
  by (simp add: hashes_32_def merkle_input_def MERKLE_DOMAIN_SEPARATOR_def)

lemma merkle_input_inj: "hashes_32 h \<Longrightarrow> hashes_32 h' \<Longrightarrow> merkle_input h = merkle_input h' \<Longrightarrow> h = h'"
  by (simp add: hashes_32_def merkle_input_def)

end
