(* ===== verification/Manifest_Builder.thy ===== *)
theory Manifest_Builder
  imports Manifest_Header Metadata_Reference Ec_Params Dms_Policy History Merkle
begin

text \<open>
  The conformance builder (\<open>limnifs-conformance/src/builder.rs\<close>), which composes the section encoders into a
  manifest and its root, and the harness (\<open>harness.rs\<close>), which parses the manifest back section by
  section and recomputes the root from the bytes. The builder's specification types mirror the parsed
  section types, which are used for both.
\<close>

section \<open>Builder\<close>

datatype metadata_reference_spec =
  External (ext_hash: bytes) (ext_locators: "locator_entry list")
| Inlined (inl_metadata: bytes)

record manifest_spec =
  ms_header :: manifest_header
  ms_feature_flags :: feature_flags
  ms_metadata_reference :: metadata_reference_spec
  ms_slab_index :: slab_index
  ms_ec_params :: "ec_params option"
  ms_dms_policy :: "dms_policy option"
  ms_history :: history

record manifest_artifact =
  ma_bytes :: bytes
  ma_merkle_root :: bytes
  ma_section_hashes :: section_hashes

text \<open>The hash, locators and inline blob the builder writes, in the shape the reader returns them.\<close>

definition spec_metaref :: "(bytes \<Rightarrow> bytes) \<Rightarrow> metadata_reference_spec \<Rightarrow> metadata_reference" where
  "spec_metaref H m =
     (case m of
        External hash ls \<Rightarrow>
          \<lparr>mr_metadata_hash = hash, mr_locators = ls, mr_inline_metadata = None,
           mr_codec = CODEC_STORE, mr_uncompressed_len = 0\<rparr>
      | Inlined metadata \<Rightarrow>
          \<lparr>mr_metadata_hash = hash_section H metadata, mr_locators = [], mr_inline_metadata = Some metadata,
           mr_codec = CODEC_STORE, mr_uncompressed_len = word_of_nat (length metadata)\<rparr>)"

definition encode_metadata_reference :: "(bytes \<Rightarrow> bytes) \<Rightarrow> metadata_reference_spec \<Rightarrow> (bytes \<times> bytes) option" where
  "encode_metadata_reference H m = do {
     body \<leftarrow> encode_metaref_v1 (spec_metaref H m);
     Some (METADATA_REFERENCE_SECTION_VERSION # body, mr_metadata_hash (spec_metaref H m))
   }"

definition encode_optional :: "('a \<Rightarrow> bytes option) \<Rightarrow> 'a option \<Rightarrow> bytes option" where
  "encode_optional enc x = (case x of None \<Rightarrow> Some [] | Some v \<Rightarrow> enc v)"

definition build :: "(bytes \<Rightarrow> bytes) \<Rightarrow> manifest_spec \<Rightarrow> manifest_artifact option" where
  "build H spec = do {
     header \<leftarrow> encode_header (ms_header spec);
     flags \<leftarrow> encode_feature_flags (ms_feature_flags spec);
     (meta_ref, metadata_hash) \<leftarrow> encode_metadata_reference H (ms_metadata_reference spec);
     slab_index \<leftarrow> encode_slab_index (ms_slab_index spec);
     ec \<leftarrow> encode_optional encode_ec_params (ms_ec_params spec);
     dms \<leftarrow> encode_optional encode_dms_policy (ms_dms_policy spec);
     history \<leftarrow> encode_history (ms_history spec);
     let hashes =
       \<lparr>sh_metadata = metadata_hash,
        sh_format_header = hash_section H header,
        sh_feature_flags = hash_section H flags,
        sh_metadata_reference = hash_section H meta_ref,
        sh_slab_index = hash_section H slab_index,
        sh_crypto_params = hash_empty_section H,
        sh_ec_params = (if ms_ec_params spec \<noteq> None then hash_section H ec else hash_empty_section H),
        sh_dms_policy = (if ms_dms_policy spec \<noteq> None then hash_section H dms else hash_empty_section H),
        sh_delta_linkage = hash_empty_section H,
        sh_history = hash_section H history\<rparr>;
     Some \<lparr>ma_bytes = header @ flags @ meta_ref @ slab_index @ ec @ dms @ history,
           ma_merkle_root = compute_merkle_root H hashes,
           ma_section_hashes = hashes\<rparr>
   }"

section \<open>Harness\<close>

text \<open>A section parser together with the bytes \<open>bytes[start..end]\<close> between the cursor positions before
  and after it.\<close>

definition pspan :: "'a parser \<Rightarrow> ('a \<times> bytes) parser" where
  "pspan p c =
     (case p c of
        Inl e \<Rightarrow> Inl e
      | Inr (v, c') \<Rightarrow> Inr ((v, take (cur_pos c' - cur_pos c) (drop (cur_pos c) (cur_bytes c))), c'))"

text \<open>An optional section, attempted only where the feature flags declare it.\<close>

definition poptional :: "bool \<Rightarrow> 'a parser \<Rightarrow> 'a option parser" where
  "poptional present p = (if present then pbind p (\<lambda>v. pret (Some v)) else pret None)"

definition has_feature :: "feature_flags \<Rightarrow> u16 \<Rightarrow> bool" where
  "has_feature flags i \<longleftrightarrow> feature_flags_is_required flags i \<or> feature_flags_get flags i \<noteq> None"

definition recompute_root :: "(bytes \<Rightarrow> bytes) \<Rightarrow> decompressor \<Rightarrow> bytes parser" where
  "recompute_root H dec =
     pbind (pspan parse_manifest_header) (\<lambda>(_, header).
     pbind (pspan parse_feature_flags_section) (\<lambda>(flags, flag_bytes).
     pbind (pspan (parse_metadata_reference dec)) (\<lambda>(metadata_reference, meta_ref).
     pbind (pspan parse_slab_index) (\<lambda>(_, slab_index).
     pbind (pspan (poptional (has_feature flags 0x0001) parse_ec_params)) (\<lambda>(_, ec).
     pbind (pspan (poptional (has_feature flags 0x0002) parse_dms_policy)) (\<lambda>(_, dms).
     pbind (pspan parse_history) (\<lambda>(_, history).
     pret (compute_merkle_root H
       \<lparr>sh_metadata = mr_metadata_hash metadata_reference,
        sh_format_header = hash_section H header,
        sh_feature_flags = hash_section H flag_bytes,
        sh_metadata_reference = hash_section H meta_ref,
        sh_slab_index = hash_section H slab_index,
        sh_crypto_params = hash_empty_section H,
        sh_ec_params = (if has_feature flags 0x0001 then hash_section H ec else hash_empty_section H),
        sh_dms_policy = (if has_feature flags 0x0002 then hash_section H dms else hash_empty_section H),
        sh_delta_linkage = hash_empty_section H,
        sh_history = hash_section H history\<rparr>))))))))"

definition parse_and_recompute_root :: "(bytes \<Rightarrow> bytes) \<Rightarrow> decompressor \<Rightarrow> manifest_artifact \<Rightarrow> bytes outcome" where
  "parse_and_recompute_root H dec artifact =
     (case recompute_root H dec (cursor_new (ma_bytes artifact)) of
        Inl e \<Rightarrow> Inl e | Inr (root, _) \<Rightarrow> Inr root)"

definition summary :: "decompressor \<Rightarrow> (feature_flag list \<times> bool \<times> nat \<times> nat) parser" where
  "summary dec =
     pbind parse_manifest_header (\<lambda>_.
     pbind parse_feature_flags_section (\<lambda>flags.
     pbind (parse_metadata_reference dec) (\<lambda>metadata_reference.
     pbind parse_slab_index (\<lambda>slab_index.
     pbind (poptional (feature_flags_get flags 0x0001 \<noteq> None) parse_ec_params) (\<lambda>_.
     pbind (poptional (feature_flags_get flags 0x0002 \<noteq> None) parse_dms_policy) (\<lambda>_.
     pbind parse_history (\<lambda>history.
     pret (ff_entries flags, is_inlined metadata_reference, length (si_entries slab_index),
           length (h_entries history)))))))))"

definition parse_summary :: "decompressor \<Rightarrow> bytes \<Rightarrow> (feature_flag list \<times> bool \<times> nat \<times> nat) outcome" where
  "parse_summary dec bs =
     (case summary dec (cursor_new bs) of Inl e \<Rightarrow> Inl e | Inr (r, _) \<Rightarrow> Inr r)"

datatype round_trip_error = ParseFailed core_error | RootMismatch bytes bytes | SummaryFailed core_error | BuilderPanic

record harness_report =
  encoded_root :: bytes
  parsed_root :: bytes
  parsed_flags :: "feature_flag list"
  parsed_metadata_inlined :: bool
  parsed_slab_count :: nat
  parsed_history_count :: nat

definition try_round_trip :: "(bytes \<Rightarrow> bytes) \<Rightarrow> decompressor \<Rightarrow> manifest_spec \<Rightarrow> round_trip_error + harness_report" where
  "try_round_trip H dec spec =
     (case build H spec of
        None \<Rightarrow> Inl BuilderPanic
      | Some artifact \<Rightarrow>
          (case parse_and_recompute_root H dec artifact of
             Inl e \<Rightarrow> Inl (ParseFailed e)
           | Inr root \<Rightarrow>
               if root \<noteq> ma_merkle_root artifact then Inl (RootMismatch (ma_merkle_root artifact) root) else
               (case parse_summary dec (ma_bytes artifact) of
                  Inl e \<Rightarrow> Inl (SummaryFailed e)
                | Inr (flags, inlined, slabs, hist) \<Rightarrow>
                    Inr \<lparr>encoded_root = ma_merkle_root artifact, parsed_root = root, parsed_flags = flags,
                         parsed_metadata_inlined = inlined, parsed_slab_count = slabs,
                         parsed_history_count = hist\<rparr>)))"

section \<open>Well-formed specifications\<close>

text \<open>The optional sections are present exactly where the feature flags declare them; each section is
  within the ceilings of the default parsers.\<close>

definition valid_spec :: "(bytes \<Rightarrow> bytes) \<Rightarrow> manifest_spec \<Rightarrow> bool" where
  "valid_spec H spec \<longleftrightarrow>
     valid_feature_flags (ms_feature_flags spec)
     \<and> valid_metaref_v1 DEFAULT_LOCATOR_MAX_URI_BYTES DEFAULT_INLINE_METADATA_MAX_BYTES
         (spec_metaref H (ms_metadata_reference spec))
     \<and> valid_slab_index DEFAULT_LOCATOR_MAX_URI_BYTES (ms_slab_index spec)
     \<and> (ms_ec_params spec \<noteq> None \<longleftrightarrow> feature_flags_get (ms_feature_flags spec) 0x0001 \<noteq> None)
     \<and> (\<forall>p \<in> set_option (ms_ec_params spec). valid_ec_params p)
     \<and> (ms_dms_policy spec \<noteq> None \<longleftrightarrow> feature_flags_get (ms_feature_flags spec) 0x0002 \<noteq> None)
     \<and> (\<forall>p \<in> set_option (ms_dms_policy spec).
          valid_dms_policy DEFAULT_SHARE_DATA_MAX_BYTES DEFAULT_HINT_MAX_BYTES p)
     \<and> valid_history DEFAULT_HISTORY_PARAMS_MAX_BYTES (ms_history spec)"

lemma parses_span: "parses p bs v \<Longrightarrow> parses (pspan p) bs (v, bs)"
  by (simp add: parses_def pspan_def)

lemma parses_span_bind:
  "parses p bs v \<Longrightarrow> parses (f v bs) rest w \<Longrightarrow> parses (pbind (pspan p) (\<lambda>(v, b). f v b)) (bs @ rest) w"
  by (rule parses_bind [OF parses_span]) simp_all

lemma parses_span_last:
  "parses p bs v \<Longrightarrow> parses (f v bs) [] w \<Longrightarrow> parses (pbind (pspan p) (\<lambda>(v, b). f v b)) bs w"
  by (rule parses_bind_last [OF parses_span]) simp_all

lemma parses_optional:
  assumes "encode_optional enc x = Some bs" "present \<longleftrightarrow> x \<noteq> None"
    and "\<And>v. x = Some v \<Longrightarrow> enc v = Some bs \<Longrightarrow> parses p bs v"
  shows "parses (poptional present p) bs x"
proof (cases x)
  case None
  with assms(1,2) show ?thesis by (auto simp: encode_optional_def poptional_def intro!: wire_enc)
next
  case (Some v)
  with assms have "parses p bs v" by (simp add: encode_optional_def)
  then have "parses (pbind p (\<lambda>v. pret (Some v))) bs (Some v)"
    by (rule parses_bind_last) (simp add: parses_pret)
  with Some assms(2) show ?thesis by (simp add: poptional_def)
qed

text \<open>The bytes a recomputation covers, split into their sections, and the root as a function of them.\<close>

definition root_of :: "(bytes \<Rightarrow> bytes) \<Rightarrow> bytes \<Rightarrow> bytes \<Rightarrow> bytes \<Rightarrow> bytes \<Rightarrow> bytes \<Rightarrow> bytes \<Rightarrow> bytes \<Rightarrow> bytes \<Rightarrow> bool \<Rightarrow> bool \<Rightarrow> bytes" where
  "root_of H mh header flags mr si ecb dms hist has_ec has_dms = compute_merkle_root H
     \<lparr>sh_metadata = mh, sh_format_header = hash_section H header, sh_feature_flags = hash_section H flags,
      sh_metadata_reference = hash_section H mr, sh_slab_index = hash_section H si,
      sh_crypto_params = hash_empty_section H,
      sh_ec_params = (if has_ec then hash_section H ecb else hash_empty_section H),
      sh_dms_policy = (if has_dms then hash_section H dms else hash_empty_section H),
      sh_delta_linkage = hash_empty_section H, sh_history = hash_section H hist\<rparr>"

text \<open>The sections of a built manifest, each parsed by its own parser.\<close>

definition built_sections :: "(bytes \<Rightarrow> bytes) \<Rightarrow> manifest_spec \<Rightarrow> manifest_artifact \<Rightarrow> bytes \<Rightarrow> bytes \<Rightarrow> bytes \<Rightarrow> bytes \<Rightarrow> bytes \<Rightarrow> bytes \<Rightarrow> bytes \<Rightarrow> bool" where
  "built_sections H spec a header flags mr si ecb dms hist \<longleftrightarrow>
     ma_bytes a = header @ flags @ mr @ si @ ecb @ dms @ hist
     \<and> parses parse_manifest_header header (ms_header spec)
     \<and> parses parse_feature_flags_section flags (ms_feature_flags spec)
     \<and> (\<forall>dec. parses (parse_metadata_reference dec) mr (spec_metaref H (ms_metadata_reference spec)))
     \<and> parses parse_slab_index si (ms_slab_index spec)
     \<and> parses (poptional (ms_ec_params spec \<noteq> None) parse_ec_params) ecb (ms_ec_params spec)
     \<and> parses (poptional (ms_dms_policy spec \<noteq> None) parse_dms_policy) dms (ms_dms_policy spec)
     \<and> parses parse_history hist (ms_history spec)
     \<and> ma_merkle_root a = root_of H (mr_metadata_hash (spec_metaref H (ms_metadata_reference spec)))
          header flags mr si ecb dms hist (ms_ec_params spec \<noteq> None) (ms_dms_policy spec \<noteq> None)"

lemma build_sections:
  assumes "valid_spec H spec" "build H spec = Some a"
  obtains header flags mr si ecb dms hist where "built_sections H spec a header flags mr si ecb dms hist"
proof -
  from assms(2) obtain header flags body si ecb dms hist
    where enc: "encode_header (ms_header spec) = Some header" "encode_feature_flags (ms_feature_flags spec) = Some flags"
      "encode_metaref_v1 (spec_metaref H (ms_metadata_reference spec)) = Some body"
      "encode_slab_index (ms_slab_index spec) = Some si"
      "encode_optional encode_ec_params (ms_ec_params spec) = Some ecb"
      "encode_optional encode_dms_policy (ms_dms_policy spec) = Some dms"
      "encode_history (ms_history spec) = Some hist"
    by (auto simp: build_def encode_metadata_reference_def bind_eq_Some_conv)
  have v: "valid_feature_flags (ms_feature_flags spec)"
    "valid_metaref_v1 DEFAULT_LOCATOR_MAX_URI_BYTES DEFAULT_INLINE_METADATA_MAX_BYTES
       (spec_metaref H (ms_metadata_reference spec))"
    "valid_slab_index DEFAULT_LOCATOR_MAX_URI_BYTES (ms_slab_index spec)"
    "valid_history DEFAULT_HISTORY_PARAMS_MAX_BYTES (ms_history spec)"
    using assms(1) by (simp_all add: valid_spec_def)
  let ?mr = "METADATA_REFERENCE_SECTION_VERSION # body"
  have "parses (poptional (ms_ec_params spec \<noteq> None) parse_ec_params) ecb (ms_ec_params spec)"
    using assms(1) by (intro parses_optional [OF enc(5)] ec_params.encode_parse) (auto simp: valid_spec_def)
  moreover have "parses (poptional (ms_dms_policy spec \<noteq> None) parse_dms_policy) dms (ms_dms_policy spec)"
    using assms(1) unfolding parse_dms_policy_def
    by (intro parses_optional [OF enc(6)] dms_policy.encode_parse) (auto simp: valid_spec_def)
  moreover have "\<forall>dec. parses (parse_metadata_reference dec) ?mr (spec_metaref H (ms_metadata_reference spec))"
    unfolding parse_metadata_reference_def using parses_metaref_v1 [OF v(2) enc(3)] by blast
  moreover have "ma_merkle_root a = root_of H (mr_metadata_hash (spec_metaref H (ms_metadata_reference spec)))
      header flags ?mr si ecb dms hist (ms_ec_params spec \<noteq> None) (ms_dms_policy spec \<noteq> None)"
    "ma_bytes a = header @ flags @ ?mr @ si @ ecb @ dms @ hist"
    using assms(2) enc by (auto simp: build_def encode_metadata_reference_def Let_def root_of_def)
  ultimately have "built_sections H spec a header flags ?mr si ecb dms hist"
    using header.encode_parse [OF _ enc(1)] flags.encode_parse [OF v(1) enc(2)]
      slab_index.encode_parse [OF v(3) enc(4)] history.encode_parse [OF v(4) enc(7)]
    unfolding built_sections_def parse_slab_index_def parse_history_def by blast
  then show thesis by (rule that)
qed

lemma has_feature_iff: "has_feature ff i \<longleftrightarrow> feature_flags_get ff i \<noteq> None"
  by (auto simp: has_feature_def feature_flags_is_required_def split: option.splits)

lemma build_defined:
  assumes "valid_spec H spec"
  shows "build H spec \<noteq> None"
proof -
  have "encode_optional encode_ec_params (ms_ec_params spec) \<noteq> None"
    using assms ec_params.encode_defined by (auto simp: valid_spec_def encode_optional_def split: option.splits)
  moreover have "encode_optional encode_dms_policy (ms_dms_policy spec) \<noteq> None"
    using assms dms_policy.encode_defined by (fastforce simp: valid_spec_def encode_optional_def split: option.splits)
  ultimately show ?thesis
    using assms flags.encode_defined [of "ms_feature_flags spec"]
      metaref_v1.encode_defined [of _ _ "spec_metaref H (ms_metadata_reference spec)"]
      slab_index.encode_defined [of _ "ms_slab_index spec"] history.encode_defined [of _ "ms_history spec"]
    by (fastforce simp: valid_spec_def build_def encode_metadata_reference_def encode_header_def Let_def)
qed

section \<open>Reading back what was built\<close>

lemma spec_flags_declare:
  assumes "valid_spec H spec"
  shows "has_feature (ms_feature_flags spec) 0x0001 \<longleftrightarrow> ms_ec_params spec \<noteq> None"
    "has_feature (ms_feature_flags spec) 0x0002 \<longleftrightarrow> ms_dms_policy spec \<noteq> None"
    "feature_flags_get (ms_feature_flags spec) 0x0001 \<noteq> None \<longleftrightarrow> ms_ec_params spec \<noteq> None"
    "feature_flags_get (ms_feature_flags spec) 0x0002 \<noteq> None \<longleftrightarrow> ms_dms_policy spec \<noteq> None"
  using assms unfolding valid_spec_def has_feature_iff by blast+

lemma parses_recompute_root:
  assumes "valid_spec H spec" "build H spec = Some a"
  shows "parses (recompute_root H dec) (ma_bytes a) (ma_merkle_root a)"
proof -
  obtain header flags mr si ecb dms hist where "built_sections H spec a header flags mr si ecb dms hist"
    by (rule build_sections [OF assms])
  then have p: "ma_bytes a = header @ flags @ mr @ si @ ecb @ dms @ hist"
    "parses parse_manifest_header header (ms_header spec)"
    "parses parse_feature_flags_section flags (ms_feature_flags spec)"
    "parses (parse_metadata_reference dec) mr (spec_metaref H (ms_metadata_reference spec))"
    "parses parse_slab_index si (ms_slab_index spec)"
    "parses (poptional (has_feature (ms_feature_flags spec) 0x0001) parse_ec_params) ecb (ms_ec_params spec)"
    "parses (poptional (has_feature (ms_feature_flags spec) 0x0002) parse_dms_policy) dms (ms_dms_policy spec)"
    "parses parse_history hist (ms_history spec)"
    "ma_merkle_root a = root_of H (mr_metadata_hash (spec_metaref H (ms_metadata_reference spec)))
       header flags mr si ecb dms hist (ms_ec_params spec \<noteq> None) (ms_dms_policy spec \<noteq> None)"
    unfolding built_sections_def spec_flags_declare [OF assms(1)] by blast+
  show ?thesis
    unfolding p(1,9) recompute_root_def
    by (intro parses_span_bind [OF p(2)] parses_span_bind [OF p(3)] parses_span_bind [OF p(4)]
        parses_span_bind [OF p(5)] parses_span_bind [OF p(6)] parses_span_bind [OF p(7)]
        parses_span_last [OF p(8)] parses_pret)
      (simp only: root_of_def spec_flags_declare [OF assms(1)])
qed

lemma parses_summary:
  assumes "valid_spec H spec" "build H spec = Some a"
  shows "parses (summary dec) (ma_bytes a) (ff_entries (ms_feature_flags spec),
    is_inlined (spec_metaref H (ms_metadata_reference spec)), length (si_entries (ms_slab_index spec)),
    length (h_entries (ms_history spec)))"
proof -
  obtain header flags mr si ecb dms hist where "built_sections H spec a header flags mr si ecb dms hist"
    by (rule build_sections [OF assms])
  then have p: "ma_bytes a = header @ flags @ mr @ si @ ecb @ dms @ hist"
    "parses parse_manifest_header header (ms_header spec)"
    "parses parse_feature_flags_section flags (ms_feature_flags spec)"
    "parses (parse_metadata_reference dec) mr (spec_metaref H (ms_metadata_reference spec))"
    "parses parse_slab_index si (ms_slab_index spec)"
    "parses (poptional (feature_flags_get (ms_feature_flags spec) 0x0001 \<noteq> None) parse_ec_params) ecb (ms_ec_params spec)"
    "parses (poptional (feature_flags_get (ms_feature_flags spec) 0x0002 \<noteq> None) parse_dms_policy) dms (ms_dms_policy spec)"
    "parses parse_history hist (ms_history spec)"
    unfolding built_sections_def spec_flags_declare [OF assms(1)] by blast+
  show ?thesis
    unfolding p(1) summary_def
    by (rule parses_bind [OF p(2)] parses_bind [OF p(3)] parses_bind [OF p(4)] parses_bind [OF p(5)]
      parses_bind [OF p(6)] parses_bind [OF p(7)] parses_bind_last [OF p(8)] parses_pret refl)+
qed

lemma parses_new:
  "parses p bs v \<Longrightarrow> length bs < usize_bound \<Longrightarrow>
   p (cursor_new bs) = Inr (v, \<lparr>cur_bytes = bs, cur_pos = length bs\<rparr>)"
  using parsesD [of p bs v "[]" "[]"] by (simp add: cursor_new_def)

section \<open>What a recomputed root binds\<close>

lemma preads_span: "preads p Q \<Longrightarrow> preads (pspan p) (\<lambda>(v, b') b. b' = b \<and> Q v b)"
  unfolding preads_def pspan_def remaining_def
  by (fastforce split: sum.splits prod.splits)

lemma preads_span_bind:
  "preads p R \<Longrightarrow> (\<And>v b. R v b \<Longrightarrow> preads (f v b) (\<lambda>w b'. Q w (b @ b')))
    \<Longrightarrow> preads (pbind (pspan p) (\<lambda>(v, b). f v b)) Q"
  by (rule preads_bind [OF preads_span]) auto

lemma preads_optional:
  "preads p Q \<Longrightarrow> preads (poptional present p) (\<lambda>_ b. \<not> present \<longrightarrow> b = [])"
  unfolding poptional_def
  by (auto intro!: wire_dec preads_bind [where R = Q])

text \<open>The metadata hash and the section strings a recomputation hashes; an absent optional section is the
  empty string.\<close>

definition sections_of :: "decompressor \<Rightarrow> (bytes \<times> bytes list) parser" where
  "sections_of dec =
     pbind (pspan parse_manifest_header) (\<lambda>(_, header).
     pbind (pspan parse_feature_flags_section) (\<lambda>(flags, flag_bytes).
     pbind (pspan (parse_metadata_reference dec)) (\<lambda>(metadata_reference, meta_ref).
     pbind (pspan parse_slab_index) (\<lambda>(_, slab_index).
     pbind (pspan (poptional (has_feature flags 0x0001) parse_ec_params)) (\<lambda>(_, ecb).
     pbind (pspan (poptional (has_feature flags 0x0002) parse_dms_policy)) (\<lambda>(_, dms).
     pbind (pspan parse_history) (\<lambda>(_, history).
     pret (mr_metadata_hash metadata_reference,
       [header, flag_bytes, meta_ref, slab_index,
        if has_feature flags 0x0001 then ecb else [], if has_feature flags 0x0002 then dms else [], history]))))))))"

definition sections_merkle_input :: "(bytes \<Rightarrow> bytes) \<Rightarrow> bytes \<Rightarrow> bytes list \<Rightarrow> bytes" where
  "sections_merkle_input H mh ss =
     merkle_input \<lparr>sh_metadata = mh, sh_format_header = H (ss ! 0), sh_feature_flags = H (ss ! 1),
       sh_metadata_reference = H (ss ! 2), sh_slab_index = H (ss ! 3), sh_crypto_params = H [],
       sh_ec_params = H (ss ! 4), sh_dms_policy = H (ss ! 5), sh_delta_linkage = H [], sh_history = H (ss ! 6)\<rparr>"

text \<open>Every string the computation feeds to \<open>H\<close>.\<close>

definition hashed_strings :: "(bytes \<Rightarrow> bytes) \<Rightarrow> decompressor \<Rightarrow> bytes \<Rightarrow> bytes list" where
  "hashed_strings H dec bs =
     (case sections_of dec (cursor_new bs) of
        Inl _ \<Rightarrow> []
      | Inr ((mh, ss), _) \<Rightarrow> sections_merkle_input H mh ss # [] # ss)"

lemma recompute_root_sections:
  "recompute_root H dec = pbind (sections_of dec) (\<lambda>(mh, ss). pret (H (sections_merkle_input H mh ss)))"
  unfolding recompute_root_def sections_of_def sections_merkle_input_def compute_merkle_root_def
    hash_section_def hash_empty_section_def
  by (auto simp: fun_eq_iff pbind_def pret_def split: sum.split)

lemma metaref_decodes_hash: "metaref_decodes dec mu mi r b \<Longrightarrow> length (mr_metadata_hash r) = 32"
  by (auto simp: metaref_decodes_def valid_metaref_v1_def reachable_source_def)

lemma preads_sections:
  "preads (sections_of dec) (\<lambda>(mh, ss) b. length mh = 32 \<and> length ss = 7 \<and> b = concat ss)"
  unfolding sections_of_def parse_metadata_reference_def parse_slab_index_def parse_history_def parse_dms_policy_def
proof (intro preads_span_bind [OF preads_header] preads_span_bind [OF preads_feature_flags]
    preads_span_bind [OF preads_metaref] preads_span_bind [OF preads_slab_index]
    preads_span_bind [OF preads_optional [OF preads_ec_params]]
    preads_span_bind [OF preads_optional [OF preads_dms_policy]]
    preads_span_bind [OF preads_history] preads_pret, goal_cases)
  case (1 h b1 ff b2 r b3 si b4 ep b5 dp b6 hi b7)
  then have "length (mr_metadata_hash r) = 32" by (blast intro: metaref_decodes_hash)
  with 1 show ?case by auto
qed

lemma recompute_root_runs:
  assumes "recompute_root H dec (cursor_new bs) = Inr (root, c)"
  obtains mh ss where "sections_of dec (cursor_new bs) = Inr ((mh, ss), c)" "length mh = 32" "length ss = 7"
    "take (cur_pos c) bs = concat ss" "root = H (sections_merkle_input H mh ss)"
proof -
  from assms obtain mh ss where s: "sections_of dec (cursor_new bs) = Inr ((mh, ss), c)"
    and root: "root = H (sections_merkle_input H mh ss)"
    by (auto simp: recompute_root_sections pbind_def pret_def split: sum.splits prod.splits)
  have "wf_cursor (cursor_new bs)" by (simp add: wf_cursor_def cursor_new_def)
  from preadsE [OF preads_sections this s] obtain b rest where "remaining (cursor_new bs) = b @ rest"
    and q: "length mh = 32 \<and> length ss = 7 \<and> b = concat ss"
    and "c = (cursor_new bs)\<lparr>cur_pos := cur_pos (cursor_new bs) + length b\<rparr>" by auto
  then have "take (cur_pos c) bs = concat ss" by (auto simp: remaining_def cursor_new_def)
  with s q root that show ?thesis by blast
qed

lemma sections_merkle_input_inj:
  assumes "\<forall>x. length (H x) = 32" "length mh = 32" "length mh' = 32" "length ss = 7" "length ss' = 7"
    and "sections_merkle_input H mh ss = sections_merkle_input H mh' ss'"
  shows "map H ss = map H ss'"
proof -
  have "H (ss ! i) = H (ss' ! i)" if "i < 7" for i
    using assms(1-3) merkle_input_inj [OF _ _ assms(6) [unfolded sections_merkle_input_def]] that
    by (auto simp: hashes_32_def less_Suc_eq numeral_eq_Suc)
  then show ?thesis using assms(4,5) by (intro nth_equalityI) auto
qed

section \<open>Evaluating the reader on examples\<close>

abbreviation no_codec :: decompressor where
  "no_codec \<equiv> \<lambda>_ _ _. Inl (UnsupportedFeature (FeatureText ''codec''))"

lemmas manifest_eval = pspan_def parser_eval parse_manifest_header_def read_magic_def MANIFEST_MAGIC_def
  parse_feature_flags_section_def FEATURE_FLAGS_SECTION_VERSION_def has_feature_def feature_flags_is_required_def
  feature_flags_get_def parse_metadata_reference_def parse_metadata_reference_with_ceilings_def
  METADATA_REFERENCE_SECTION_VERSION_def parse_v1_def read_hash_def parse_locator_entries_with_ceiling_def
  MIN_LOCATOR_URI_BYTES_def read_inline_blob_def DEFAULT_INLINE_METADATA_MAX_BYTES_def CODEC_STORE_def
  parse_slab_index_def parse_slab_index_with_ceiling_def SLAB_INDEX_SECTION_VERSION_def poptional_def
  parse_history_def parse_history_with_ceiling_def HISTORY_SECTION_VERSION_def pmap_err_def
  parse_history_entry_with_ceiling_def OP_EXTENDED_def history_op_from_byte_def DEFAULT_HISTORY_PARAMS_MAX_BYTES_def

definition sevens :: bytes where
  "sevens = [7, 7, 7, 7, 7, 7, 7, 7, 7, 7, 7, 7, 7, 7, 7, 7, 7, 7, 7, 7, 7, 7, 7, 7, 7, 7, 7, 7, 7, 7, 7, 7]"

end
