(* ===== verification/Delta_Linkage.thy ===== *)
theory Delta_Linkage
  imports Format
begin

text \<open>
  The delta linkage section (\<open>limnifs-core/src/delta_linkage.rs\<close>): the base image's root and the tree
  operations. The only encoder of the repository is the image writer's (\<open>write_layer\<close>), which emits no
  operation; \<open>encode_delta_linkage\<close> is the section's layout for any list of operations, the reference the parser
  is checked against, and agrees with the writer on the empty list.
\<close>

datatype tree_op_kind = Add | Remove | Replace

definition tree_op_kind_from_byte :: "u8 \<Rightarrow> tree_op_kind option" where
  "tree_op_kind_from_byte byte =
     (if byte = 0x01 then Some Add else if byte = 0x02 then Some Remove
      else if byte = 0x03 then Some Replace else None)"

fun tree_op_kind_byte :: "tree_op_kind \<Rightarrow> u8" where
  "tree_op_kind_byte Add = 0x01"
| "tree_op_kind_byte Remove = 0x02"
| "tree_op_kind_byte Replace = 0x03"

fun has_inode_number :: "tree_op_kind \<Rightarrow> bool" where
  "has_inode_number Remove = False"
| "has_inode_number Add = True"
| "has_inode_number Replace = True"

record tree_op =
  to_kind :: tree_op_kind
  to_path :: bytes
  to_inode_number :: "u64 option"

record delta_linkage =
  dl_base_root :: bytes
  dl_tree_ops :: "tree_op list"

definition DELTA_LINKAGE_SECTION_VERSION :: u8 where
  "DELTA_LINKAGE_SECTION_VERSION = 1"

text \<open>\<open>path.contains("//")\<close>.\<close>

fun has_double_slash :: "bytes \<Rightarrow> bool" where
  "has_double_slash (a # b # rest) = ((a = 47 \<and> b = 47) \<or> has_double_slash (b # rest))"
| "has_double_slash _ = False"

definition parse_tree_op_inode :: "tree_op_kind \<Rightarrow> u64 option parser" where
  "parse_tree_op_inode kind =
     (if has_inode_number kind then pbind read_u64_le (\<lambda>n. pret (Some n)) else pret None)"

definition parse_tree_op :: "nat \<Rightarrow> tree_op list \<Rightarrow> tree_op parser" where
  "parse_tree_op index ops =
     pbind read_u8 (\<lambda>op_byte.
     if op_byte = 0xFF then perr (UnsupportedFeature (TreeOpExtended index)) else
     case tree_op_kind_from_byte op_byte of
       None \<Rightarrow> perr (UnsupportedFeature (TreeOpReserved index op_byte))
     | Some kind \<Rightarrow>
         pbind read_u32_le (\<lambda>path_len.
         if unat path_len = 0 then perr (Corrupt (DeltaReason (TreeOpEmptyPath index))) else
         pbind (read_n (unat path_len)) (\<lambda>path.
         if \<not> utf8_valid path then perr (Corrupt (DeltaReason (TreeOpNotUtf8 index))) else
         if 0 \<in> set path then perr (Corrupt (DeltaReason (TreeOpNulByte index))) else
         if has_double_slash path then perr (Corrupt (DeltaReason (TreeOpEmptyComponent index))) else
         pbind (parse_tree_op_inode kind) (\<lambda>inode_number.
         pret \<lparr>to_kind = kind, to_path = path, to_inode_number = inode_number\<rparr>))))"

definition parse_delta_linkage :: "delta_linkage parser" where
  "parse_delta_linkage =
     pbind read_u8 (\<lambda>section_version.
     if section_version \<noteq> DELTA_LINKAGE_SECTION_VERSION
     then perr (UnsupportedFeature (SectionVersion DeltaLinkageSection section_version)) else
     pbind (read_n 32) (\<lambda>base_root.
     pbind read_u32_le (\<lambda>raw_count.
     case usize_checked_mul (unat raw_count) 6 of
       None \<Rightarrow> perr (Corrupt (CountOverflows DeltaLinkageSection (unat raw_count)))
     | Some min_total \<Rightarrow>
         pbind (pensure min_total) (\<lambda>_.
         pbind (ploop parse_tree_op 0 (unat raw_count) []) (\<lambda>tree_ops.
         pret \<lparr>dl_base_root = base_root, dl_tree_ops = tree_ops\<rparr>)))))"

definition encode_tree_op :: "tree_op \<Rightarrow> bytes option" where
  "encode_tree_op op = do {
     path_len \<leftarrow> u32_try_from (length (to_path op));
     Some ([tree_op_kind_byte (to_kind op)] @ u32_to_le_bytes path_len @ to_path op
       @ (case to_inode_number op of None \<Rightarrow> [] | Some n \<Rightarrow> u64_to_le_bytes n))
   }"

definition encode_delta_linkage :: "delta_linkage \<Rightarrow> bytes option" where
  "encode_delta_linkage d = do {
     count \<leftarrow> u32_try_from (length (dl_tree_ops d));
     body \<leftarrow> concat_opt (map encode_tree_op (dl_tree_ops d));
     Some ([DELTA_LINKAGE_SECTION_VERSION] @ dl_base_root d @ u32_to_le_bytes count @ body)
   }"

text \<open>The writer's inline encoding of a layer's linkage.\<close>

definition encode_layer_linkage :: "bytes \<Rightarrow> bytes" where
  "encode_layer_linkage base_root = [DELTA_LINKAGE_SECTION_VERSION] @ base_root @ u32_to_le_bytes 0"

section \<open>Well-formedness\<close>

definition valid_tree_op :: "tree_op \<Rightarrow> bool" where
  "valid_tree_op op \<longleftrightarrow>
     to_path op \<noteq> [] \<and> length (to_path op) < 2 ^ 32 \<and> utf8_valid (to_path op) \<and> 0 \<notin> set (to_path op)
     \<and> \<not> has_double_slash (to_path op)
     \<and> (to_inode_number op \<noteq> None \<longleftrightarrow> has_inode_number (to_kind op))"

abbreviation tree_ops_ok :: "tree_op list \<Rightarrow> bool" where
  "tree_ops_ok ops \<equiv> \<forall>op \<in> set ops. valid_tree_op op"

definition valid_delta_linkage :: "delta_linkage \<Rightarrow> bool" where
  "valid_delta_linkage d \<longleftrightarrow>
     length (dl_base_root d) = 32 \<and> length (dl_tree_ops d) < 2 ^ 32 \<and> tree_ops_ok (dl_tree_ops d)"

lemma tree_op_kind_round_trip [simp]: "tree_op_kind_from_byte (tree_op_kind_byte k) = Some k"
  by (cases k) (simp_all add: tree_op_kind_from_byte_def)

lemma tree_op_kind_from_byte_Some: "tree_op_kind_from_byte b = Some k \<Longrightarrow> tree_op_kind_byte k = b"
  by (auto simp: tree_op_kind_from_byte_def split: if_splits)

lemma tree_op_kind_not_extended [simp]: "tree_op_kind_byte k \<noteq> 0xFF"
  by (cases k) simp_all

lemma parses_tree_op_inode:
  "(n \<noteq> None \<longleftrightarrow> has_inode_number k) \<Longrightarrow>
   parses (parse_tree_op_inode k) (case n of None \<Rightarrow> [] | Some v \<Rightarrow> u64_to_le_bytes v) n"
  unfolding parse_tree_op_inode_def by (cases n) (auto intro!: wire_enc)

lemma preads_tree_op_inode:
  "preads (parse_tree_op_inode k)
    (\<lambda>n b. (n \<noteq> None \<longleftrightarrow> has_inode_number k) \<and> b = (case n of None \<Rightarrow> [] | Some v \<Rightarrow> u64_to_le_bytes v))"
  unfolding parse_tree_op_inode_def by (intro wire_dec) auto

lemma parses_tree_op:
  assumes "valid_tree_op op" "encode_tree_op op = Some bs"
  shows "parses (parse_tree_op i acc) bs op"
proof -
  have v: "to_path op \<noteq> []" "length (to_path op) < 2 ^ 32" "utf8_valid (to_path op)" "0 \<notin> set (to_path op)"
    "\<not> has_double_slash (to_path op)" "to_inode_number op \<noteq> None \<longleftrightarrow> has_inode_number (to_kind op)"
    using assms(1) by (auto simp: valid_tree_op_def)
  then have bs: "bs = tree_op_kind_byte (to_kind op) # u32_to_le_bytes (word_of_nat (length (to_path op)))
      @ to_path op @ (case to_inode_number op of None \<Rightarrow> [] | Some n \<Rightarrow> u64_to_le_bytes n)"
    using assms(2) by (simp add: encode_tree_op_def)
  show ?thesis
    unfolding bs parse_tree_op_def using v parses_tree_op_inode [OF v(6)]
    by (intro wire_enc parses_bind_last [where v = "to_inode_number op"]) auto
qed

lemma preads_tree_op:
  "preads (parse_tree_op i acc) (\<lambda>op b. encode_tree_op op = Some b \<and> valid_tree_op op)"
  unfolding parse_tree_op_def
proof (intro wire_dec preads_bind [OF preads_tree_op_inode], goal_cases)
  case (1 op_byte kind path_len path n b)
  then show ?case
    using unat_u32_lt [of path_len] tree_op_kind_from_byte_Some [OF 1(2)]
    by (auto simp: encode_tree_op_def valid_tree_op_def)
qed

interpretation tree_ops: entry_list parse_tree_op encode_tree_op tree_ops_ok
proof
  show "encode_tree_op op \<noteq> None" if "tree_ops_ok (ops @ [op])" for ops op
    using that by (auto simp: valid_tree_op_def encode_tree_op_def)
qed (auto intro: parses_tree_op preads_mono [OF preads_tree_op])

lemma encode_tree_op_length: "valid_tree_op op \<Longrightarrow> encode_tree_op op = Some b \<Longrightarrow> 6 \<le> length b"
  by (cases "to_path op") (auto simp: encode_tree_op_def valid_tree_op_def bind_eq_Some_conv)

lemma parses_delta_linkage:
  assumes "valid_delta_linkage d" "encode_delta_linkage d = Some bs"
  shows "parses parse_delta_linkage bs d"
proof -
  let ?ops = "dl_tree_ops d"
  have len: "length ?ops < 2 ^ 32" and root: "length (dl_base_root d) = 32" and ok: "tree_ops_ok ?ops"
    using assms(1) by (auto simp: valid_delta_linkage_def)
  from assms(2) len obtain body where body: "concat_opt (map encode_tree_op ?ops) = Some body"
    and bs: "bs = DELTA_LINKAGE_SECTION_VERSION # dl_base_root d @ u32_to_le_bytes (word_of_nat (length ?ops)) @ body"
    by (auto simp: encode_delta_linkage_def bind_eq_Some_conv)
  have "6 * length (map encode_tree_op ?ops) \<le> length body"
    by (rule concat_opt_length_ge [OF body]) (use ok in \<open>auto intro: encode_tree_op_length dest!: sym [of "Some _"]\<close>)
  then show ?thesis
    unfolding bs parse_delta_linkage_def using len root tree_ops.parses_list [OF ok body]
    by (intro wire_enc parses_bind_last [of _ _ ?ops]) (auto simp: usize_checked_mul_small)
qed

lemma preads_delta_linkage:
  "preads parse_delta_linkage (\<lambda>d b. valid_delta_linkage d \<and> encode_delta_linkage d = Some b)"
  unfolding parse_delta_linkage_def
proof (intro wire_dec preads_bind [OF tree_ops.preads_list], goal_cases)
  case (1 version root raw_count size ops b)
  then show ?case
    using unat_u32_lt [of raw_count] by (auto simp: valid_delta_linkage_def encode_delta_linkage_def)
qed

interpretation delta_linkage: wire_format parse_delta_linkage encode_delta_linkage valid_delta_linkage
proof
  show "encode_delta_linkage v \<noteq> None" if "valid_delta_linkage v" for v
  proof -
    from that have "tree_ops_ok (dl_tree_ops v)" by (simp add: valid_delta_linkage_def)
    then obtain body where "concat_opt (map encode_tree_op (dl_tree_ops v)) = Some body"
      by (rule tree_ops.encs_defined)
    with that show ?thesis by (simp add: valid_delta_linkage_def encode_delta_linkage_def)
  qed
qed (rule parses_delta_linkage preads_delta_linkage; assumption)+

lemma encode_layer_linkage_eq:
  "encode_delta_linkage \<lparr>dl_base_root = r, dl_tree_ops = []\<rparr> = Some (encode_layer_linkage r)"
  by (simp add: encode_delta_linkage_def encode_layer_linkage_def)

section \<open>The section's contract\<close>

text \<open>The delta linkage parser accepts exactly the encodings of well-formed linkages: every path is
  non-empty UTF-8 without NUL and without an empty component, and an inode number is present exactly for the
  operations that carry one.\<close>

theorem delta_linkage_accepts_iff:
  assumes "wf_cursor c" "length (cur_bytes c) < usize_bound"
  shows "parse_delta_linkage c = Inr (d, c') \<longleftrightarrow>
    (\<exists>bs rest. valid_delta_linkage d \<and> encode_delta_linkage d = Some bs \<and> remaining c = bs @ rest
       \<and> c' = c\<lparr>cur_pos := cur_pos c + length bs\<rparr>)"
  using assms by (rule delta_linkage.accepts_iff)

definition delta_linkage_example :: delta_linkage where
  "delta_linkage_example = \<lparr>dl_base_root = replicate 32 1,
     dl_tree_ops = [\<lparr>to_kind = Add, to_path = [97, 47, 98], to_inode_number = Some 5\<rparr>,
                    \<lparr>to_kind = Remove, to_path = [99], to_inode_number = None\<rparr>]\<rparr>"

definition delta_linkage_example_bytes :: bytes where
  "delta_linkage_example_bytes = 1 # replicate 32 1 @ [2, 0, 0, 0, 1, 3, 0, 0, 0, 97, 47, 98, 5, 0, 0, 0, 0, 0, 0, 0,
     2, 1, 0, 0, 0, 99]"

theorem delta_linkage_accepts_iff_witness:
  "parse_delta_linkage (cursor_new delta_linkage_example_bytes)
    = Inr (delta_linkage_example, \<lparr>cur_bytes = delta_linkage_example_bytes, cur_pos = 59\<rparr>)"
  by (subst delta_linkage_accepts_iff)
    (simp_all add: delta_linkage_example_def delta_linkage_example_bytes_def wire_eval valid_delta_linkage_def
      valid_tree_op_def encode_delta_linkage_def encode_tree_op_def DELTA_LINKAGE_SECTION_VERSION_def)

end
