(* ===== verification/Dictionary_Section.thy ===== *)
theory Dictionary_Section
  imports Cursor
begin

text \<open>
  The compression dictionary section (\<open>limnifs-core/src/dictionary_section.rs\<close>). The encoder clamps its counts
  where they do not fit the wire; within 255 dictionaries of at most 1 MiB it is the parser's inverse.
\<close>

record dictionary =
  codec_id :: u8
  class_id :: u8
  dict_data :: bytes

record dictionary_section =
  ds_version :: u8
  ds_dicts :: "dictionary list"

definition DICTIONARY_SECTION_VERSION :: u8 where
  "DICTIONARY_SECTION_VERSION = 1"

definition MAX_DICT_COUNT :: u8 where
  "MAX_DICT_COUNT = 255"

definition MAX_DICT_SIZE :: u32 where
  "MAX_DICT_SIZE = 1048576"

definition NO_DICT :: u8 where
  "NO_DICT = 0xFF"

definition parse_dictionary :: "nat \<Rightarrow> dictionary list \<Rightarrow> dictionary parser" where
  "parse_dictionary _ _ =
     pbind read_u8 (\<lambda>codec.
     pbind read_u8 (\<lambda>cls.
     pbind read_u32_le (\<lambda>dict_len.
     if dict_len > MAX_DICT_SIZE then perr (Corrupt (DictionaryTooLong dict_len MAX_DICT_SIZE)) else
     pbind (read_n (unat dict_len)) (\<lambda>data.
     pret \<lparr>codec_id = codec, class_id = cls, dict_data = data\<rparr>))))"

definition parse_dictionary_section :: "dictionary_section parser" where
  "parse_dictionary_section =
     pbind read_u8 (\<lambda>section_version.
     if section_version \<noteq> DICTIONARY_SECTION_VERSION
     then perr (UnsupportedFeature (SectionVersion DictionariesSection section_version)) else
     pbind read_u8 (\<lambda>dict_count.
     pbind (ploop parse_dictionary 0 (unat dict_count) []) (\<lambda>dicts.
     pret \<lparr>ds_version = section_version, ds_dicts = dicts\<rparr>)))"

definition encode_dictionary :: "dictionary \<Rightarrow> bytes" where
  "encode_dictionary d =
     (let len = (case u32_try_from (length (dict_data d)) of Some l \<Rightarrow> l | None \<Rightarrow> MAX_DICT_SIZE)
      in [codec_id d, class_id d] @ u32_to_le_bytes len @ dict_data d)"

definition encode_dictionary_section :: "dictionary_section \<Rightarrow> bytes" where
  "encode_dictionary_section s =
     (let count = (if length (ds_dicts s) < 256 then word_of_nat (length (ds_dicts s)) else MAX_DICT_COUNT)
      in [DICTIONARY_SECTION_VERSION, count] @ concat (map encode_dictionary (ds_dicts s)))"

abbreviation dicts_ok :: "dictionary list \<Rightarrow> bool" where
  "dicts_ok ds \<equiv> \<forall>d \<in> set ds. length (dict_data d) \<le> unat MAX_DICT_SIZE"

definition valid_dictionary_section :: "dictionary_section \<Rightarrow> bool" where
  "valid_dictionary_section s \<longleftrightarrow>
     ds_version s = DICTIONARY_SECTION_VERSION \<and> length (ds_dicts s) \<le> 255 \<and> dicts_ok (ds_dicts s)"

interpretation dictionaries: entry_list parse_dictionary "\<lambda>d. Some (encode_dictionary d)" dicts_ok
proof
  show "parses (parse_dictionary i acc) bs d"
    if "dicts_ok (acc @ [d])" "Some (encode_dictionary d) = Some bs" for acc d bs i
  proof -
    have len: "length (dict_data d) \<le> 1048576" using that(1) by (simp add: MAX_DICT_SIZE_def)
    then have bs: "bs = codec_id d # class_id d # u32_to_le_bytes (word_of_nat (length (dict_data d))) @ dict_data d"
      using that(2) by (simp add: encode_dictionary_def)
    show ?thesis
      unfolding bs parse_dictionary_def using len
      by (intro wire_enc) (auto simp: MAX_DICT_SIZE_def word_less_nat_alt)
  qed
  show "preads (parse_dictionary i acc) (\<lambda>d b. Some (encode_dictionary d) = Some b \<and> dicts_ok (acc @ [d]))"
    if "dicts_ok acc" for acc i
    unfolding parse_dictionary_def
  proof (intro wire_dec, goal_cases)
    case (1 codec cls n data)
    then show ?case
      using that unat_u32_lt [of n] by (auto simp: encode_dictionary_def word_less_nat_alt)
  qed
qed auto

lemma parses_dictionary_section:
  assumes "valid_dictionary_section s"
  shows "parses parse_dictionary_section (encode_dictionary_section s) s"
proof -
  have len: "length (ds_dicts s) < 256" and ok: "dicts_ok (ds_dicts s)" and v: "ds_version s = DICTIONARY_SECTION_VERSION"
    using assms by (auto simp: valid_dictionary_section_def)
  have n: "unat (word_of_nat (length (ds_dicts s)) :: u8) = length (ds_dicts s)"
    using len by (simp add: unat_u8_of_nat)
  have "parses (ploop parse_dictionary 0 (unat (word_of_nat (length (ds_dicts s)) :: u8)) [])
      (concat (map encode_dictionary (ds_dicts s))) (ds_dicts s)"
    unfolding n by (rule dictionaries.parses_list [OF ok concat_opt_map_Some])
  moreover have "encode_dictionary_section s = DICTIONARY_SECTION_VERSION # word_of_nat (length (ds_dicts s))
      # concat (map encode_dictionary (ds_dicts s))"
    using len by (simp add: encode_dictionary_section_def)
  ultimately show ?thesis
    unfolding parse_dictionary_section_def using v
    by (simp only:) (intro wire_enc parses_bind_last [where v = "ds_dicts s"], auto)
qed

lemma preads_dictionary_section:
  "preads parse_dictionary_section (\<lambda>s b. valid_dictionary_section s \<and> b = encode_dictionary_section s)"
  unfolding parse_dictionary_section_def
proof (intro wire_dec preads_bind [OF dictionaries.preads_list], goal_cases)
  case (1 version count ds b)
  then show ?case
    using unat_u8_lt [of count]
    by (auto simp: valid_dictionary_section_def encode_dictionary_section_def concat_opt_map_Some)
qed

interpretation dictionary_section: wire_format parse_dictionary_section
  "\<lambda>s. Some (encode_dictionary_section s)" valid_dictionary_section
  by unfold_locales (auto intro: parses_dictionary_section preads_mono [OF preads_dictionary_section])

section \<open>The section's contract\<close>

text \<open>The dictionary section parser accepts exactly the encodings of sections of at most 255 dictionaries
  of at most 1 MiB each; on those the encoder's clamping is never taken.\<close>

theorem dictionary_section_accepts_iff:
  assumes "wf_cursor c" "length (cur_bytes c) < usize_bound"
  shows "parse_dictionary_section c = Inr (s, c') \<longleftrightarrow>
    (\<exists>rest. valid_dictionary_section s \<and> remaining c = encode_dictionary_section s @ rest
       \<and> c' = c\<lparr>cur_pos := cur_pos c + length (encode_dictionary_section s)\<rparr>)"
  using dictionary_section.accepts_iff [OF assms] by simp

definition dictionary_example :: dictionary_section where
  "dictionary_example = \<lparr>ds_version = 1, ds_dicts = [\<lparr>codec_id = 2, class_id = 0, dict_data = [8, 9]\<rparr>]\<rparr>"

theorem dictionary_section_accepts_iff_witness:
  "parse_dictionary_section (cursor_new [1, 1, 2, 0, 2, 0, 0, 0, 8, 9, 255])
    = Inr (dictionary_example, \<lparr>cur_bytes = [1, 1, 2, 0, 2, 0, 0, 0, 8, 9, 255], cur_pos = 10\<rparr>)"
  by (subst dictionary_section_accepts_iff)
    (simp_all add: dictionary_example_def wire_eval valid_dictionary_section_def encode_dictionary_section_def
      encode_dictionary_def DICTIONARY_SECTION_VERSION_def MAX_DICT_SIZE_def)

end
