(* ===== verification/Profile_Descriptor.thy ===== *)
theory Profile_Descriptor
  imports Cursor
begin

unbundle bit_operations_syntax

text \<open>
  The profile descriptor section (\<open>limnifs-core/src/profile_descriptor.rs\<close>). The parser takes names of 1 to 64 bytes; a
  longer name is written by the encoder but its bytes are not skipped by the parser, so the flags are read from inside
  the name.
\<close>

record profile_descriptor =
  pr_version :: u8
  pr_profile_name :: "bytes option"
  pr_blake3_hashing :: bool
  pr_cross_file_dedup :: bool
  pr_content_classification :: bool
  pr_integrity_verify :: bool
  pr_read_write :: bool
  pr_auto_turnover :: bool

definition PROFILE_DESCRIPTOR_SECTION_VERSION :: u8 where "PROFILE_DESCRIPTOR_SECTION_VERSION = 1"
definition PROFILE_FLAG_BLAKE3 :: u8 where "PROFILE_FLAG_BLAKE3 = 0x01"
definition PROFILE_FLAG_DEDUP :: u8 where "PROFILE_FLAG_DEDUP = 0x02"
definition PROFILE_FLAG_CLASSIFY :: u8 where "PROFILE_FLAG_CLASSIFY = 0x04"
definition PROFILE_FLAG_VERIFY :: u8 where "PROFILE_FLAG_VERIFY = 0x08"
definition PROFILE_FLAG_RW :: u8 where "PROFILE_FLAG_RW = 0x10"
definition PROFILE_FLAG_AUTO_TURNOVER :: u8 where "PROFILE_FLAG_AUTO_TURNOVER = 0x20"
definition MAX_NAME_LEN :: nat where "MAX_NAME_LEN = 64"

lemmas profile_flag_defs = PROFILE_FLAG_BLAKE3_def PROFILE_FLAG_DEDUP_def PROFILE_FLAG_CLASSIFY_def PROFILE_FLAG_VERIFY_def
  PROFILE_FLAG_RW_def PROFILE_FLAG_AUTO_TURNOVER_def

definition profile_descriptor_default :: profile_descriptor where
  "profile_descriptor_default = \<lparr>pr_version = PROFILE_DESCRIPTOR_SECTION_VERSION, pr_profile_name = None,
     pr_blake3_hashing = True, pr_cross_file_dedup = True, pr_content_classification = True, pr_integrity_verify = True,
     pr_read_write = False, pr_auto_turnover = False\<rparr>"

definition parse_profile_name :: "nat \<Rightarrow> bytes option parser" where
  "parse_profile_name name_len =
     (if name_len = 0 \<or> name_len > MAX_NAME_LEN then pret None
      else pbind (read_n name_len) (\<lambda>name.
           if \<not> utf8_valid name then perr (Corrupt ProfileNameNotUtf8) else pret (Some name)))"

definition parse_profile_descriptor :: "profile_descriptor parser" where
  "parse_profile_descriptor =
     pbind read_u8 (\<lambda>section_version.
     if section_version \<noteq> PROFILE_DESCRIPTOR_SECTION_VERSION
     then perr (UnsupportedFeature (SectionVersion ProfileDescriptorSection section_version)) else
     pbind read_u8 (\<lambda>name_len.
     pbind (parse_profile_name (unat name_len)) (\<lambda>profile_name.
     pbind read_u8 (\<lambda>fl.
     pret \<lparr>pr_version = section_version, pr_profile_name = profile_name,
           pr_blake3_hashing = (fl AND PROFILE_FLAG_BLAKE3 \<noteq> 0),
           pr_cross_file_dedup = (fl AND PROFILE_FLAG_DEDUP \<noteq> 0),
           pr_content_classification = (fl AND PROFILE_FLAG_CLASSIFY \<noteq> 0),
           pr_integrity_verify = (fl AND PROFILE_FLAG_VERIFY \<noteq> 0),
           pr_read_write = (fl AND PROFILE_FLAG_RW \<noteq> 0),
           pr_auto_turnover = (fl AND PROFILE_FLAG_AUTO_TURNOVER \<noteq> 0)\<rparr>))))"

definition profile_flags :: "profile_descriptor \<Rightarrow> u8" where
  "profile_flags d =
     (if pr_blake3_hashing d then PROFILE_FLAG_BLAKE3 else 0) OR (if pr_cross_file_dedup d then PROFILE_FLAG_DEDUP else 0)
     OR (if pr_content_classification d then PROFILE_FLAG_CLASSIFY else 0)
     OR (if pr_integrity_verify d then PROFILE_FLAG_VERIFY else 0)
     OR (if pr_read_write d then PROFILE_FLAG_RW else 0) OR (if pr_auto_turnover d then PROFILE_FLAG_AUTO_TURNOVER else 0)"

definition encode_profile_descriptor :: "profile_descriptor \<Rightarrow> bytes" where
  "encode_profile_descriptor d =
     (let name_bytes = (case pr_profile_name d of None \<Rightarrow> [] | Some name \<Rightarrow> name);
          name_len = (if length name_bytes < 256 then word_of_nat (length name_bytes) else 0 :: u8)
      in [PROFILE_DESCRIPTOR_SECTION_VERSION, name_len] @ take (unat name_len) name_bytes @ [profile_flags d])"

definition valid_profile_descriptor :: "profile_descriptor \<Rightarrow> bool" where
  "valid_profile_descriptor d \<longleftrightarrow> pr_version d = PROFILE_DESCRIPTOR_SECTION_VERSION
     \<and> (case pr_profile_name d of None \<Rightarrow> True | Some name \<Rightarrow> name \<noteq> [] \<and> length name \<le> MAX_NAME_LEN \<and> utf8_valid name)"

lemma profile_flags_bits:
  "(profile_flags d AND PROFILE_FLAG_BLAKE3 \<noteq> 0) = pr_blake3_hashing d"
  "(profile_flags d AND PROFILE_FLAG_DEDUP \<noteq> 0) = pr_cross_file_dedup d"
  "(profile_flags d AND PROFILE_FLAG_CLASSIFY \<noteq> 0) = pr_content_classification d"
  "(profile_flags d AND PROFILE_FLAG_VERIFY \<noteq> 0) = pr_integrity_verify d"
  "(profile_flags d AND PROFILE_FLAG_RW \<noteq> 0) = pr_read_write d"
  "(profile_flags d AND PROFILE_FLAG_AUTO_TURNOVER \<noteq> 0) = pr_auto_turnover d"
  by (auto simp: profile_flags_def profile_flag_defs bit.conj_disj_distrib2)

text \<open>Every descriptor with a name the parser can represent reads back.\<close>

lemma profile_descriptor_round_trip:
  assumes "valid_profile_descriptor d"
  shows "parses parse_profile_descriptor (encode_profile_descriptor d) d"
proof -
  let ?name = "case pr_profile_name d of None \<Rightarrow> [] | Some name \<Rightarrow> name"
  have len: "length ?name \<le> 64" "length ?name < 256"
    using assms by (auto simp: valid_profile_descriptor_def MAX_NAME_LEN_def split: option.splits)
  then have u: "unat (word_of_nat (length ?name) :: u8) = length ?name" by (simp add: unat_u8_of_nat)
  have "parses (parse_profile_name (length ?name)) ?name (pr_profile_name d)"
    using assms by (auto simp: parse_profile_name_def valid_profile_descriptor_def MAX_NAME_LEN_def
        intro!: parses_pret parses_read_n_last split: option.splits)
  then have "parses parse_profile_descriptor
      (PROFILE_DESCRIPTOR_SECTION_VERSION # word_of_nat (length ?name) # ?name @ [profile_flags d]) d"
    unfolding parse_profile_descriptor_def using assms
    by (intro parses_u8_bind parses_if_err parses_bind [of _ _ "pr_profile_name d"] parses_pret)
      (auto simp: u profile_flags_bits valid_profile_descriptor_def)
  then show ?thesis using len(2) by (simp add: encode_profile_descriptor_def u Let_def)
qed

text \<open>A longer name does not: the flags are read from its first byte, and the rest is left in the buffer.\<close>

lemma long_profile_name_lost:
  assumes "pr_profile_name d = Some name" "64 < length name" "length name < 256" "length name + 3 < usize_bound"
  shows "\<exists>d'. parse_profile_descriptor (cursor_new (encode_profile_descriptor d))
    = Inr (d', \<lparr>cur_bytes = encode_profile_descriptor d, cur_pos = 3\<rparr>) \<and> pr_profile_name d' = None"
proof -
  obtain b bs where name: "name = b # bs" using assms(2) by (cases name) auto
  have u: "unat (word_of_nat (length name) :: u8) = length name" using assms(3) by (simp add: unat_u8_of_nat)
  then have e: "encode_profile_descriptor d = [PROFILE_DESCRIPTOR_SECTION_VERSION, word_of_nat (length name), b] @ (bs @ [profile_flags d])"
    using assms(1,3) by (simp add: encode_profile_descriptor_def Let_def name)
  let ?d = "\<lparr>pr_version = PROFILE_DESCRIPTOR_SECTION_VERSION, pr_profile_name = None,
     pr_blake3_hashing = (b AND PROFILE_FLAG_BLAKE3 \<noteq> 0), pr_cross_file_dedup = (b AND PROFILE_FLAG_DEDUP \<noteq> 0),
     pr_content_classification = (b AND PROFILE_FLAG_CLASSIFY \<noteq> 0),
     pr_integrity_verify = (b AND PROFILE_FLAG_VERIFY \<noteq> 0), pr_read_write = (b AND PROFILE_FLAG_RW \<noteq> 0),
     pr_auto_turnover = (b AND PROFILE_FLAG_AUTO_TURNOVER \<noteq> 0)\<rparr>"
  have none: "parses (parse_profile_name (length name)) [] None"
    using assms(2) by (auto simp: parse_profile_name_def MAX_NAME_LEN_def intro!: parses_pret)
  then have after: "parses (pbind (parse_profile_name (length name)) f) [b] x" if "parses (f None) [b] x" for f x
    using parses_bind [where ?p = "parse_profile_name (length name)" and ?bs = "[]" and ?v = None and ?f = f, OF _ that] by simp
  have d': "parses parse_profile_descriptor [PROFILE_DESCRIPTOR_SECTION_VERSION, word_of_nat (length name), b] ?d"
    unfolding parse_profile_descriptor_def
    by (intro parses_u8_bind parses_if_err) (auto simp: u intro!: after parses_u8_bind parses_pret)
  from parsesD [OF d', of "[]" "bs @ [profile_flags d]"] assms(4) show ?thesis
    unfolding e cursor_new_def name by auto
qed

end
