(* ===== verification/Sieve_Cache.thy ===== *)
theory Sieve_Cache
  imports Prelude "HOL-Library.AList"
begin

text \<open>
  The SIEVE cache of \<open>limnifs-core/src/slab_cache.rs\<close>: a hash map of shared byte strings and a queue of its keys with a
  visited bit. The map is an association list whose keys are distinct, so that \<open>entries.len()\<close> is its length. The
  eviction loop is total: every turn shortens the queue or clears a bit. The interface of a cache is the locale
  \<open>memo_cache\<close>; the clients that memoise a function through it use its lemmas only.
\<close>

record sieve_cache =
  sc_entries :: "(bytes \<times> bytes) list"
  sc_order :: "(bytes \<times> bool) list"
  sc_entry_capacity :: nat
  sc_byte_budget :: nat
  sc_bytes :: nat
  sc_hits :: u64
  sc_misses :: u64
  sc_evictions :: u64
  sc_bypassed :: u64

record cache_stats =
  cs_hits :: u64
  cs_misses :: u64
  cs_evictions :: u64
  cs_bypassed :: u64
  cs_entries :: nat
  cs_bytes :: nat
  cs_byte_budget :: nat
  cs_entry_capacity :: nat

definition sieve_new :: "nat \<Rightarrow> nat \<Rightarrow> sieve_cache" where
  "sieve_new entry_capacity byte_budget =
     \<lparr>sc_entries = [], sc_order = [], sc_entry_capacity = max entry_capacity 1, sc_byte_budget = byte_budget,
      sc_bytes = 0, sc_hits = 0, sc_misses = 0, sc_evictions = 0, sc_bypassed = 0\<rparr>"

text \<open>The scan for the slot of a key, newest first.\<close>

fun mark_first :: "bytes \<Rightarrow> (bytes \<times> bool) list \<Rightarrow> (bytes \<times> bool) list" where
  "mark_first key [] = []"
| "mark_first key (slot # slots) = (if fst slot = key then (key, True) # slots else slot # mark_first key slots)"

definition mark_visited :: "bytes \<Rightarrow> (bytes \<times> bool) list \<Rightarrow> (bytes \<times> bool) list" where
  "mark_visited key order = rev (mark_first key (rev order))"

definition sieve_get :: "bytes \<Rightarrow> sieve_cache \<Rightarrow> bytes option \<times> sieve_cache" where
  "sieve_get key c =
     (case map_of (sc_entries c) key of
        Some v \<Rightarrow> (Some v, c\<lparr>sc_hits := sc_hits c + 1, sc_order := mark_visited key (sc_order c)\<rparr>)
      | None \<Rightarrow> (None, c\<lparr>sc_misses := sc_misses c + 1\<rparr>))"

definition sieve_insert_entry :: "bytes \<Rightarrow> bytes \<Rightarrow> sieve_cache \<Rightarrow> bytes option \<times> sieve_cache" where
  "sieve_insert_entry key val c =
     (let prev = map_of (sc_entries c) key;
          c' = c\<lparr>sc_entries := AList.update key val (sc_entries c)\<rparr>
      in (prev, if prev \<noteq> None then c'\<lparr>sc_order := mark_visited key (sc_order c)\<rparr> else c'))"

definition over_budget :: "sieve_cache \<Rightarrow> bool" where
  "over_budget c \<longleftrightarrow> sc_bytes c > sc_byte_budget c \<or> length (sc_entries c) > sc_entry_capacity c"

function evict_until_fits :: "sieve_cache \<Rightarrow> sieve_cache" where
  "evict_until_fits c =
     (if \<not> over_budget c then c
      else case sc_order c of
        [] \<Rightarrow> c
      | (key, visited) # rest \<Rightarrow>
          if visited then evict_until_fits (c\<lparr>sc_order := rest @ [(key, False)]\<rparr>)
          else (case map_of (sc_entries c) key of
                  None \<Rightarrow> evict_until_fits (c\<lparr>sc_order := rest\<rparr>)
                | Some v \<Rightarrow> evict_until_fits
                    (c\<lparr>sc_order := rest, sc_entries := AList.delete key (sc_entries c),
                       sc_bytes := sc_bytes c - length v, sc_evictions := sc_evictions c + 1\<rparr>)))"
  by pat_completeness auto

termination
  by (relation "measure (\<lambda>c. length (sc_order c) + length (filter snd (sc_order c)))") auto

declare evict_until_fits.simps [simp del]

definition sieve_insert :: "bytes \<Rightarrow> bytes \<Rightarrow> sieve_cache \<Rightarrow> bool \<times> sieve_cache" where
  "sieve_insert key val c =
     (let vbytes = length val in
      if vbytes > sc_byte_budget c then (False, c\<lparr>sc_bypassed := sc_bypassed c + 1\<rparr>)
      else let (prev, c1) = sieve_insert_entry key val c;
               c2 = (case prev of
                       Some old \<Rightarrow> c1\<lparr>sc_bytes := sc_bytes c1 - length old\<rparr>
                     | None \<Rightarrow> c1\<lparr>sc_order := sc_order c1 @ [(key, False)]\<rparr>)
           in (True, evict_until_fits (c2\<lparr>sc_bytes := sc_bytes c2 + vbytes\<rparr>)))"

definition sieve_len :: "sieve_cache \<Rightarrow> nat" where
  "sieve_len c = length (sc_entries c)"

definition sieve_stats :: "sieve_cache \<Rightarrow> cache_stats" where
  "sieve_stats c = \<lparr>cs_hits = sc_hits c, cs_misses = sc_misses c, cs_evictions = sc_evictions c,
     cs_bypassed = sc_bypassed c, cs_entries = length (sc_entries c), cs_bytes = sc_bytes c,
     cs_byte_budget = sc_byte_budget c, cs_entry_capacity = sc_entry_capacity c\<rparr>"

section \<open>The invariant\<close>

definition sieve_inv :: "sieve_cache \<Rightarrow> bool" where
  "sieve_inv c \<longleftrightarrow>
     distinct (map fst (sc_entries c)) \<and> distinct (map fst (sc_order c))
     \<and> fst ` set (sc_order c) = fst ` set (sc_entries c)
     \<and> sc_bytes c = sum_list (map (length \<circ> snd) (sc_entries c)) \<and> 0 < sc_entry_capacity c"

lemma keys_mark_first [simp]: "map fst (mark_first key slots) = map fst slots"
  by (induction slots) auto

lemma keys_mark_visited [simp]: "map fst (mark_visited key order) = map fst order"
  by (simp add: mark_visited_def rev_map [symmetric])

lemma set_keys_mark_visited [simp]: "fst ` set (mark_visited key order) = fst ` set order"
  by (metis keys_mark_visited set_map)

lemma sum_delete:
  "distinct (map fst al) \<Longrightarrow> map_of al k = Some v \<Longrightarrow>
     sum_list (map (length \<circ> snd) al) = length v + sum_list (map (length \<circ> snd) (AList.delete k al))"
proof (induction al)
  case (Cons e al)
  then show ?case
    by (cases e) (auto simp: image_iff split: if_splits simp del: map_of_eq_None_iff)
qed simp

lemma sum_update:
  "distinct (map fst al) \<Longrightarrow> sum_list (map (length \<circ> snd) (AList.update k v al)) + (case map_of al k of None \<Rightarrow> 0 | Some old \<Rightarrow> length old)
     = length v + sum_list (map (length \<circ> snd) al)"
  by (induction al) (auto split: option.splits)

lemma update_keys_known:
  "map_of al k \<noteq> None \<Longrightarrow> map fst (AList.update k v al) = map fst al"
  by (induction al) auto

lemma length_delete:
  "distinct (map fst al) \<Longrightarrow> map_of al k = Some v \<Longrightarrow> length al = Suc (length (AList.delete k al))"
  by (induction al) (auto simp: image_iff)

lemma keys_delete: "fst ` set (AList.delete k al) = fst ` set al - {k}"
  by (metis delete_keys set_map set_removeAll)

lemma sieve_inv_new [simp]: "sieve_inv (sieve_new n b)"
  by (simp add: sieve_inv_def sieve_new_def)

lemma sieve_inv_get: "sieve_inv c \<Longrightarrow> sieve_inv (snd (sieve_get k c))"
  by (simp add: sieve_get_def sieve_inv_def split: option.split)

text \<open>What an eviction run does: it keeps the invariant, ends within both bounds, removes entries only, and counts each
  removed entry once.\<close>

definition evicted_from :: "sieve_cache \<Rightarrow> sieve_cache \<Rightarrow> bool" where
  "evicted_from c c' \<longleftrightarrow>
     sieve_inv c' \<and> \<not> over_budget c' \<and> map_of (sc_entries c') \<subseteq>\<^sub>m map_of (sc_entries c)
     \<and> length (sc_entries c') \<le> length (sc_entries c)
     \<and> sc_evictions c' = sc_evictions c + of_nat (length (sc_entries c) - length (sc_entries c'))
     \<and> sc_byte_budget c' = sc_byte_budget c \<and> sc_entry_capacity c' = sc_entry_capacity c
     \<and> sc_hits c' = sc_hits c \<and> sc_misses c' = sc_misses c \<and> sc_bypassed c' = sc_bypassed c"

lemma sieve_inv_rotate:
  "sieve_inv c \<Longrightarrow> sc_order c = (k, b) # rest \<Longrightarrow> sieve_inv (c\<lparr>sc_order := rest @ [(k, False)]\<rparr>)"
  by (auto simp: sieve_inv_def)

lemma sieve_inv_remove:
  assumes "sieve_inv c" "sc_order c = (k, b) # rest" "map_of (sc_entries c) k = Some v"
  shows "sieve_inv (c\<lparr>sc_order := rest, sc_entries := AList.delete k (sc_entries c), sc_bytes := sc_bytes c - length v,
    sc_evictions := e\<rparr>)"
proof -
  have "k \<notin> fst ` set rest" "fst ` set (sc_entries c) = insert k (fst ` set rest)"
    using assms(1, 2) by (auto simp: sieve_inv_def)
  then have "fst ` set rest = fst ` set (AList.delete k (sc_entries c))" by (simp add: keys_delete)
  then show ?thesis
    using assms sum_delete [of "sc_entries c" k v] by (simp add: sieve_inv_def distinct_delete)
qed

lemma evict_until_fits_correct: "sieve_inv c \<Longrightarrow> evicted_from c (evict_until_fits c)"
proof (induction c rule: evict_until_fits.induct)
  case (1 c)
  show ?case
  proof (cases "over_budget c")
    case False
    with 1 show ?thesis by (subst evict_until_fits.simps) (simp add: evicted_from_def)
  next
    case over: True
    show ?thesis
    proof (cases "sc_order c")
      case Nil
      with 1(4) over show ?thesis by (simp add: sieve_inv_def over_budget_def)
    next
      case (Cons slot rest)
      obtain k b where slot: "slot = (k, b)" by fastforce
      note Cons = Cons [unfolded slot]
      show ?thesis
      proof (cases b)
        case True
        have "evicted_from (c\<lparr>sc_order := rest @ [(k, False)]\<rparr>) (evict_until_fits (c\<lparr>sc_order := rest @ [(k, False)]\<rparr>))"
          using 1(1) [of "(k, b)" rest k b] over Cons True sieve_inv_rotate [OF 1(4) Cons] by simp
        then show ?thesis using over Cons True by (subst evict_until_fits.simps) (simp add: evicted_from_def)
      next
        case False
        have "k \<in> fst ` set (sc_entries c)" using 1(4) Cons by (auto simp: sieve_inv_def)
        then obtain v where v: "map_of (sc_entries c) k = Some v"
          by (metis map_of_eq_None_iff not_Some_eq)
        have l: "length (sc_entries c) = Suc (length (AList.delete k (sc_entries c)))"
          using 1(4) v by (intro length_delete) (auto simp: sieve_inv_def)
        define d where "d = c\<lparr>sc_order := rest, sc_entries := AList.delete k (sc_entries c),
          sc_bytes := sc_bytes c - length v, sc_evictions := sc_evictions c + 1\<rparr>"
        have "evicted_from d (evict_until_fits d)"
          using 1(3) [of "(k, b)" rest k b v] over Cons False v sieve_inv_remove [OF 1(4) Cons v] by (simp add: d_def)
        moreover have "map_of (sc_entries d) \<subseteq>\<^sub>m map_of (sc_entries c)"
          by (auto simp: d_def map_le_def delete_conv' split: if_splits)
        ultimately have "evicted_from c (evict_until_fits d)"
          using l by (auto simp: evicted_from_def d_def Suc_diff_le intro: map_le_trans)
        then show ?thesis using over Cons False v by (subst evict_until_fits.simps) (simp add: d_def)
      qed
    qed
  qed
qed

lemma evict_until_fits_id: "\<not> over_budget c \<Longrightarrow> evict_until_fits c = c"
  by (subst evict_until_fits.simps) simp

section \<open>Insertion\<close>

text \<open>The state in which \<open>insert\<close> starts to evict.\<close>

definition put_entry :: "bytes \<Rightarrow> bytes \<Rightarrow> sieve_cache \<Rightarrow> sieve_cache" where
  "put_entry key val c = c\<lparr>sc_entries := AList.update key val (sc_entries c),
     sc_order := (if map_of (sc_entries c) key = None then sc_order c @ [(key, False)]
                  else mark_visited key (sc_order c)),
     sc_bytes := sum_list (map (length \<circ> snd) (AList.update key val (sc_entries c)))\<rparr>"

lemma sieve_insert_put:
  assumes "sieve_inv c"
  shows "sieve_insert key val c = (if length val > sc_byte_budget c then (False, c\<lparr>sc_bypassed := sc_bypassed c + 1\<rparr>)
    else (True, evict_until_fits (put_entry key val c)))"
proof -
  have "sc_bytes c = sum_list (map (length \<circ> snd) (sc_entries c))" "distinct (map fst (sc_entries c))"
    using assms by (simp_all add: sieve_inv_def)
  then have "sc_bytes c - (case map_of (sc_entries c) key of None \<Rightarrow> 0 | Some old \<Rightarrow> length old) + length val
      = sum_list (map (length \<circ> snd) (AList.update key val (sc_entries c)))"
    using sum_update [of "sc_entries c" key val] sum_delete [of "sc_entries c" key] by (auto split: option.splits)
  then show ?thesis
    by (auto simp: sieve_insert_def sieve_insert_entry_def Let_def put_entry_def split: option.splits)
qed

lemma sieve_inv_put: "sieve_inv c \<Longrightarrow> sieve_inv (put_entry key val c)"
  by (auto simp: sieve_inv_def put_entry_def distinct_update dom_update update_keys_known map_of_eq_None_iff
      split: if_splits)

lemma sieve_insert_facts:
  assumes "sieve_inv c" "sieve_insert k v c = (fits, c')"
  shows "sieve_inv c'" and "over_budget c' \<Longrightarrow> over_budget c"
    and "map_of (sc_entries c') \<subseteq>\<^sub>m (if fits then (map_of (sc_entries c))(k \<mapsto> v) else map_of (sc_entries c))"
    and "fits \<longleftrightarrow> length v \<le> sc_byte_budget c"
    and "sc_bypassed c' = sc_bypassed c + (if fits then 0 else 1)"
    and "sc_hits c' = sc_hits c" "sc_misses c' = sc_misses c"
    and "sc_byte_budget c' = sc_byte_budget c" "sc_entry_capacity c' = sc_entry_capacity c"
proof -
  define p where "p = put_entry k v c"
  have e: "evicted_from p (evict_until_fits p)"
    unfolding p_def by (rule evict_until_fits_correct) (rule sieve_inv_put [OF assms(1)])
  have p: "map_of (sc_entries p) = (map_of (sc_entries c))(k \<mapsto> v)" "sc_bypassed p = sc_bypassed c"
    "sc_hits p = sc_hits c" "sc_misses p = sc_misses c" "sc_byte_budget p = sc_byte_budget c"
    "sc_entry_capacity p = sc_entry_capacity c"
    by (simp_all add: p_def put_entry_def update_conv')
  have r: "fits = (length v \<le> sc_byte_budget c)
      \<and> c' = (if fits then evict_until_fits p else c\<lparr>sc_bypassed := sc_bypassed c + 1\<rparr>)"
    using assms(2) by (auto simp: sieve_insert_put [OF assms(1)] p_def split: if_splits)
  have n: "sieve_inv (c\<lparr>sc_bypassed := sc_bypassed c + 1\<rparr>)" using assms(1) by (simp add: sieve_inv_def)
  have o: "over_budget (c\<lparr>sc_bypassed := sc_bypassed c + 1\<rparr>) = over_budget c" by (simp add: over_budget_def)
  show "sieve_inv c'" "over_budget c' \<Longrightarrow> over_budget c"
    "map_of (sc_entries c') \<subseteq>\<^sub>m (if fits then (map_of (sc_entries c))(k \<mapsto> v) else map_of (sc_entries c))"
    "fits \<longleftrightarrow> length v \<le> sc_byte_budget c"
    "sc_bypassed c' = sc_bypassed c + (if fits then 0 else 1)"
    "sc_hits c' = sc_hits c" "sc_misses c' = sc_misses c"
    "sc_byte_budget c' = sc_byte_budget c" "sc_entry_capacity c' = sc_entry_capacity c"
    using r e p n o by (cases fits, simp_all add: evicted_from_def)+
qed

lemma sieve_get_facts:
  assumes "sieve_get k c = (r, c')"
  shows "r = map_of (sc_entries c) k" and "sc_entries c' = sc_entries c" and "over_budget c' = over_budget c"
    and "sc_hits c' + sc_misses c' = sc_hits c + sc_misses c + 1" "sc_bypassed c' = sc_bypassed c"
    and "sc_byte_budget c' = sc_byte_budget c" "sc_entry_capacity c' = sc_entry_capacity c"
  using assms by (auto simp: sieve_get_def over_budget_def split: option.splits)

section \<open>The interface of a cache\<close>

text \<open>What a client that memoises a partial function needs: a lookup returns what is stored, and an insertion adds the
  given pair at most.\<close>

locale memo_cache =
  fixes get :: "'k \<Rightarrow> 'c \<Rightarrow> 'v option \<times> 'c"
    and insert :: "'k \<Rightarrow> 'v \<Rightarrow> 'c \<Rightarrow> bool \<times> 'c"
    and contents :: "'c \<Rightarrow> 'k \<rightharpoonup> 'v"
    and inv :: "'c \<Rightarrow> bool"
  assumes get_result: "inv c \<Longrightarrow> fst (get k c) = contents c k"
    and get_contents: "inv c \<Longrightarrow> contents (snd (get k c)) = contents c"
    and get_inv: "inv c \<Longrightarrow> inv (snd (get k c))"
    and insert_contents: "inv c \<Longrightarrow> contents (snd (insert k v c)) k' = Some w \<Longrightarrow>
      contents c k' = Some w \<or> k' = k \<and> w = v"
    and insert_inv: "inv c \<Longrightarrow> inv (snd (insert k v c))"
begin

text \<open>A cache that holds only values of \<open>f\<close>.\<close>

definition memoises :: "('k \<rightharpoonup> 'v) \<Rightarrow> 'c \<Rightarrow> bool" where
  "memoises f c \<longleftrightarrow> inv c \<and> contents c \<subseteq>\<^sub>m f"

lemma memoises_get:
  assumes "memoises f c" "get k c = (r, c')"
  shows "memoises f c'" and "r = None \<or> r = f k"
  using assms get_result [of c k] get_contents [of c k] get_inv [of c k]
  by (auto simp: memoises_def map_le_def dom_def)

lemma memoises_insert:
  assumes "memoises f c" "f k = Some v"
  shows "memoises f (snd (insert k v c))"
  using assms insert_inv [of c k v] insert_contents [of c k v]
  by (fastforce simp: memoises_def map_le_def dom_def)

end

definition sieve_contents :: "sieve_cache \<Rightarrow> bytes \<rightharpoonup> bytes" where
  "sieve_contents c = map_of (sc_entries c)"

interpretation sieve: memo_cache sieve_get sieve_insert sieve_contents sieve_inv
proof
  fix c k v assume inv: "sieve_inv c"
  show "fst (sieve_get k c) = sieve_contents c k"
    "sieve_contents (snd (sieve_get k c)) = sieve_contents c"
    by (simp_all add: sieve_get_def sieve_contents_def split: option.split)
  show "sieve_inv (snd (sieve_get k c))" using inv by (rule sieve_inv_get)
  show "sieve_inv (snd (sieve_insert k v c))"
    using sieve_insert_facts(1) [OF inv] by (metis prod.collapse)
next
  fix c k v k' w assume inv: "sieve_inv c" and s: "sieve_contents (snd (sieve_insert k v c)) k' = Some w"
  obtain fits c' where i: "sieve_insert k v c = (fits, c')" by fastforce
  with s have "map_of (sc_entries c') k' = Some w" by (simp add: sieve_contents_def)
  with sieve_insert_facts(3) [OF inv i]
  have "(if fits then (map_of (sc_entries c))(k \<mapsto> v) else map_of (sc_entries c)) k' = Some w"
    by (simp only: map_le_def) (metis domI)
  then show "sieve_contents c k' = Some w \<or> k' = k \<and> w = v" by (simp add: sieve_contents_def split: if_splits)
qed

section \<open>Histories\<close>

datatype cache_op = CacheGet bytes | CacheInsert bytes bytes

fun cache_step :: "cache_op \<Rightarrow> sieve_cache \<Rightarrow> sieve_cache" where
  "cache_step (CacheGet k) c = snd (sieve_get k c)"
| "cache_step (CacheInsert k v) c = snd (sieve_insert k v c)"

text \<open>The abstract cache: an unbounded map that refuses the values over the byte budget.\<close>

fun stored_step :: "nat \<Rightarrow> cache_op \<Rightarrow> (bytes \<rightharpoonup> bytes) \<Rightarrow> (bytes \<rightharpoonup> bytes)" where
  "stored_step b (CacheGet k) m = m"
| "stored_step b (CacheInsert k v) m = (if length v \<le> b then m(k \<mapsto> v) else m)"

fun is_get :: "cache_op \<Rightarrow> bool" where
  "is_get (CacheGet k) = True"
| "is_get (CacheInsert k v) = False"

fun is_bypass :: "nat \<Rightarrow> cache_op \<Rightarrow> bool" where
  "is_bypass b (CacheGet k) = False"
| "is_bypass b (CacheInsert k v) = (length v > b)"

definition history_ok :: "nat \<Rightarrow> nat \<Rightarrow> cache_op list \<Rightarrow> sieve_cache \<Rightarrow> bool" where
  "history_ok n b ops c \<longleftrightarrow>
     sieve_inv c \<and> sc_byte_budget c = b \<and> sc_entry_capacity c = max n 1
     \<and> sc_bytes c \<le> b \<and> length (sc_entries c) \<le> max n 1
     \<and> map_of (sc_entries c) \<subseteq>\<^sub>m fold (stored_step b) ops Map.empty
     \<and> sc_hits c + sc_misses c = of_nat (length (filter is_get ops))
     \<and> sc_bypassed c = of_nat (length (filter (is_bypass b) ops))"

lemma history_ok_snoc:
  assumes "history_ok n b ops c"
  shows "history_ok n b (ops @ [op]) (cache_step op c)"
proof (cases op)
  case (CacheGet k)
  obtain r c' where g: "sieve_get k c = (r, c')" by fastforce
  from assms sieve_inv_get [of c k] sieve_get_facts [OF g] show ?thesis
    by (simp add: history_ok_def CacheGet g over_budget_def not_less del: max_less_iff_conj) 
next
  case (CacheInsert k v)
  obtain fits c' where i: "sieve_insert k v c = (fits, c')" by fastforce
  have "sieve_inv c" using assms by (simp add: history_ok_def)
  note f = sieve_insert_facts [OF this i]
  have "\<not> over_budget c'" using assms f(2) by (auto simp: history_ok_def over_budget_def)
  then have "sc_bytes c' \<le> b \<and> length (sc_entries c') \<le> max n 1"
    using assms f(8, 9) by (auto simp: history_ok_def over_budget_def not_less)
  moreover have "map_of (sc_entries c') \<subseteq>\<^sub>m stored_step b op (fold (stored_step b) ops Map.empty)"
    using assms f(3, 4) by (fastforce simp: history_ok_def CacheInsert map_le_def dom_def split: if_splits)
  ultimately show ?thesis
    using assms f by (simp add: history_ok_def CacheInsert i)
qed


section \<open>Second chance\<close>

definition remove_oldest_cold :: "bytes list \<Rightarrow> bytes \<Rightarrow> (bytes \<times> bool) list \<Rightarrow> bytes \<Rightarrow> sieve_cache \<Rightarrow> sieve_cache" where
  "remove_oldest_cold hot k rest v c =
     c\<lparr>sc_order := rest @ map (\<lambda>h. (h, False)) hot, sc_entries := AList.delete k (sc_entries c),
       sc_bytes := sc_bytes c - length v, sc_evictions := sc_evictions c + 1\<rparr>"

lemma update_new: "k \<notin> fst ` set al \<Longrightarrow> AList.update k v al = al @ [(k, v)]"
  by (induction al) auto

lemma delete_new: "k \<notin> fst ` set al \<Longrightarrow> AList.delete k (al @ [(k, v)]) = al"
  by (induction al) auto

lemma evict_oldest_cold:
  "over_budget c \<Longrightarrow> sc_order c = map (\<lambda>h. (h, True)) hot @ (k, False) # rest \<Longrightarrow> map_of (sc_entries c) k = Some v \<Longrightarrow>
     evict_until_fits c = evict_until_fits (remove_oldest_cold hot k rest v c)"
proof (induction hot arbitrary: c rest)
  case Nil
  then show ?case by (subst evict_until_fits.simps) (simp add: remove_oldest_cold_def)
next
  case (Cons h hot)
  define d where "d = c\<lparr>sc_order := map (\<lambda>h. (h, True)) hot @ (k, False) # (rest @ [(h, False)])\<rparr>"
  have "evict_until_fits c = evict_until_fits d"
    using Cons.prems by (subst evict_until_fits.simps) (simp add: d_def)
  also have "\<dots> = evict_until_fits (remove_oldest_cold hot k (rest @ [(h, False)]) v d)"
    using Cons.prems by (intro Cons.IH) (simp_all add: d_def over_budget_def)
  also have "remove_oldest_cold hot k (rest @ [(h, False)]) v d = remove_oldest_cold (h # hot) k rest v c"
    by (simp add: remove_oldest_cold_def d_def)
  finally show ?case .
qed

text \<open>A cache all of whose entries have been hit since their last rotation, at its entry capacity: an insertion clears
  every bit, and the new entry, the only one without the bit, is the one evicted, although the insertion reports
  success.\<close>

lemma hot_cache_evicts_the_new_entry:
  assumes inv: "sieve_inv c" and hot: "sc_order c = map (\<lambda>h. (h, True)) hot" and new: "map_of (sc_entries c) k = None"
    and full: "length (sc_entries c) = sc_entry_capacity c" and small: "length v \<le> sc_byte_budget c"
    and fits: "sc_bytes c \<le> sc_byte_budget c"
  shows "sieve_insert k v c =
    (True, c\<lparr>sc_order := map (\<lambda>h. (h, False)) hot, sc_evictions := sc_evictions c + 1\<rparr>)"
proof -
  define p where "p = put_entry k v c"
  have k: "k \<notin> fst ` set (sc_entries c)" using new by (simp add: map_of_eq_None_iff)
  then have u: "AList.update k v (sc_entries c) = sc_entries c @ [(k, v)]"
    by (rule update_new)
  have d: "AList.delete k (sc_entries c @ [(k, v)]) = sc_entries c"
    using k by (rule delete_new)
  have p: "sc_order p = map (\<lambda>h. (h, True)) hot @ (k, False) # []" "map_of (sc_entries p) k = Some v" "over_budget p"
    using hot new full by (simp_all add: p_def put_entry_def update_conv' over_budget_def u map_add_def)
  have r: "remove_oldest_cold hot k [] v p =
      c\<lparr>sc_order := map (\<lambda>h. (h, False)) hot, sc_evictions := sc_evictions c + 1\<rparr>"
    using inv by (simp add: remove_oldest_cold_def p_def put_entry_def u d sieve_inv_def)
  have "\<not> over_budget (remove_oldest_cold hot k [] v p)"
    using full fits by (simp add: r over_budget_def)
  then show ?thesis
    using small evict_oldest_cold [OF p(3, 1, 2)] by (simp add: sieve_insert_put [OF inv] p_def [symmetric] evict_until_fits_id r)
qed

end
