(* ===== verification/Slab.thy ===== *)
theory Slab
  imports Format Dictionary_Section
begin

text \<open>
  The slab header (\<open>limnifs-core/src/slab.rs\<close>) and the drop record (\<open>limnifs-core/src/drop_record.rs\<close>) with the
  encodings the writer emits (\<open>limnifs-write/src/lib.rs\<close>, \<open>encode_slab\<close>). Both are wire formats: the parsers accept
  exactly the encodings of well-formed values.
\<close>

section \<open>Slab header\<close>

definition SLAB_MAGIC :: bytes where
  "SLAB_MAGIC = [0x4C, 0x49, 0x4D, 0x31]"

definition DEFAULT_SLAB_MAX_BYTES :: u64 where
  "DEFAULT_SLAB_MAX_BYTES = 67108864"

definition SLAB_FORMAT_VERSION :: u16 where
  "SLAB_FORMAT_VERSION = 1"

definition SLAB_HEADER_LEN :: nat where
  "SLAB_HEADER_LEN = 56"

definition EC_DESCRIPTOR_EXTENDED :: u8 where
  "EC_DESCRIPTOR_EXTENDED = 0xFF"

definition CRYPTO_HINT_EXTENDED :: u8 where
  "CRYPTO_HINT_EXTENDED = 0xFF"

record slab_header =
  sh_format_version :: u16
  sh_slab_id :: slab_id
  sh_total_length :: u64
  sh_ec_descriptor :: u8
  sh_crypto_hint :: u8

definition has_erasure_coding :: "slab_header \<Rightarrow> bool" where
  "has_erasure_coding h \<longleftrightarrow> sh_ec_descriptor h \<noteq> 0 \<and> sh_ec_descriptor h \<noteq> EC_DESCRIPTOR_EXTENDED"

definition is_sealed :: "slab_header \<Rightarrow> bool" where
  "is_sealed h \<longleftrightarrow> sh_crypto_hint h \<noteq> 0 \<and> sh_crypto_hint h \<noteq> CRYPTO_HINT_EXTENDED"

definition parse_slab_header_with_ceiling :: "u64 \<Rightarrow> slab_header parser" where
  "parse_slab_header_with_ceiling max_total_length =
     pbind (read_n 4) (\<lambda>magic.
     if magic \<noteq> SLAB_MAGIC then perr (Corrupt (SlabReason (BadSlabMagic magic))) else
     pbind read_u16_le (\<lambda>format_version.
     if format_version \<noteq> SLAB_FORMAT_VERSION
     then perr (UnsupportedFeature (SlabFormatVersion format_version)) else
     pbind read_u64_le (\<lambda>ord.
     pbind (read_n 32) (\<lambda>hash.
     pbind read_u64_le (\<lambda>total_length.
     if unat total_length < SLAB_HEADER_LEN
     then perr (Corrupt (SlabReason (SlabLengthBelowHeader total_length))) else
     if unat total_length > unat max_total_length
     then perr (Corrupt (SlabReason (SlabLengthAboveCeiling total_length max_total_length))) else
     pbind read_u8 (\<lambda>ec_descriptor.
     if ec_descriptor = EC_DESCRIPTOR_EXTENDED then perr (UnsupportedFeature EcDescriptorExtended) else
     pbind read_u8 (\<lambda>crypto_hint.
     if crypto_hint = CRYPTO_HINT_EXTENDED then perr (UnsupportedFeature CryptoHintExtended) else
     pret \<lparr>sh_format_version = format_version, sh_slab_id = \<lparr>ordinal = ord, slab_hash = hash\<rparr>,
           sh_total_length = total_length, sh_ec_descriptor = ec_descriptor, sh_crypto_hint = crypto_hint\<rparr>)))))))"

definition parse_slab_header :: "slab_header parser" where
  "parse_slab_header = parse_slab_header_with_ceiling DEFAULT_SLAB_MAX_BYTES"

definition encode_slab_header :: "slab_header \<Rightarrow> bytes" where
  "encode_slab_header h = SLAB_MAGIC @ u16_to_le_bytes (sh_format_version h) @ slab_id_to_bytes (sh_slab_id h)
     @ u64_to_le_bytes (sh_total_length h) @ [sh_ec_descriptor h, sh_crypto_hint h]"

definition valid_slab_header :: "u64 \<Rightarrow> slab_header \<Rightarrow> bool" where
  "valid_slab_header max_total h \<longleftrightarrow>
     sh_format_version h = SLAB_FORMAT_VERSION \<and> length (slab_hash (sh_slab_id h)) = 32
     \<and> SLAB_HEADER_LEN \<le> unat (sh_total_length h) \<and> unat (sh_total_length h) \<le> unat max_total
     \<and> sh_ec_descriptor h \<noteq> EC_DESCRIPTOR_EXTENDED \<and> sh_crypto_hint h \<noteq> CRYPTO_HINT_EXTENDED"

lemma length_SLAB_MAGIC [simp]: "length SLAB_MAGIC = 4"
  by (simp add: SLAB_MAGIC_def)

lemma slab_header_eta:
  "\<lparr>sh_format_version = sh_format_version h,
    sh_slab_id = \<lparr>ordinal = ordinal (sh_slab_id h), slab_hash = slab_hash (sh_slab_id h)\<rparr>,
    sh_total_length = sh_total_length h, sh_ec_descriptor = sh_ec_descriptor h,
    sh_crypto_hint = sh_crypto_hint h\<rparr> = h"
  by simp

lemma parses_slab_header:
  assumes "valid_slab_header m h"
  shows "parses (parse_slab_header_with_ceiling m) (encode_slab_header h) h"
proof -
  have e: "encode_slab_header h = SLAB_MAGIC @ u16_to_le_bytes (sh_format_version h)
      @ u64_to_le_bytes (ordinal (sh_slab_id h)) @ slab_hash (sh_slab_id h) @ u64_to_le_bytes (sh_total_length h)
      @ [sh_ec_descriptor h, sh_crypto_hint h]"
    by (simp add: encode_slab_header_def slab_id_to_bytes_def)
  show ?thesis
    using assms unfolding e parse_slab_header_with_ceiling_def valid_slab_header_def
    by (simp only:) (intro wire_enc, auto simp: slab_header_eta)
qed

lemma preads_slab_header:
  "preads (parse_slab_header_with_ceiling m) (\<lambda>h b. valid_slab_header m h \<and> Some (encode_slab_header h) = Some b)"
  unfolding parse_slab_header_with_ceiling_def
  by (intro wire_dec) (auto simp: valid_slab_header_def encode_slab_header_def slab_id_to_bytes_def)

interpretation slab_header:
  wire_format "parse_slab_header_with_ceiling m" "\<lambda>h. Some (encode_slab_header h)" "valid_slab_header m" for m
proof
  show "preads (parse_slab_header_with_ceiling m) (\<lambda>h b. valid_slab_header m h \<and> Some (encode_slab_header h) = Some b)"
    by (rule preads_slab_header)
qed (auto intro: parses_slab_header)

section \<open>Drop record\<close>

definition DROP_RECORD_LEN :: nat where
  "DROP_RECORD_LEN = 50"

definition DEFAULT_DROP_MAX_PLAINTEXT_BYTES :: u64 where
  "DEFAULT_DROP_MAX_PLAINTEXT_BYTES = 67108864"

record drop_record =
  dr_drop_id :: bytes
  dr_plaintext_len :: u32
  dr_representation :: representation
  dr_solid_window_index :: u8
  dr_offset_in_window :: u32
  dr_len_in_window :: u32
  dr_dict_id :: u8
  dr_flags :: u8

definition parse_drop_record_with_ceiling :: "slab_header \<Rightarrow> u64 \<Rightarrow> drop_record parser" where
  "parse_drop_record_with_ceiling slab max_plaintext =
     pbind (read_n 32) (\<lambda>drop_id.
     pbind read_u32_le (\<lambda>plaintext_len.
     if unat plaintext_len > unat max_plaintext
     then perr (Corrupt (DropReason (DropTooLong plaintext_len max_plaintext))) else
     pbind (read_n 3) (\<lambda>repr_bytes.
     let repr = representation_from_bytes repr_bytes in
     if \<not> is_sealed slab \<and> aead repr \<noteq> 0
     then perr (Corrupt (DropReason (DropAeadInPlainSlab (aead repr)))) else
     if \<not> has_erasure_coding slab \<and> ec repr \<noteq> 0
     then perr (Corrupt (DropReason (DropEcInPlainSlab (ec repr)))) else
     pbind read_u8 (\<lambda>solid_window_index.
     pbind read_u32_le (\<lambda>offset_in_window.
     pbind read_u32_le (\<lambda>len_in_window.
     if unat offset_in_window + unat len_in_window \<ge> 2 ^ 32
     then perr (Corrupt (DropReason (DropWindowOverflow offset_in_window len_in_window))) else
     pbind read_u8 (\<lambda>dict_id.
     pbind read_u8 (\<lambda>flags.
     pret \<lparr>dr_drop_id = drop_id, dr_plaintext_len = plaintext_len, dr_representation = repr,
           dr_solid_window_index = solid_window_index, dr_offset_in_window = offset_in_window,
           dr_len_in_window = len_in_window, dr_dict_id = dict_id, dr_flags = flags\<rparr>))))))))"

definition parse_drop_record :: "slab_header \<Rightarrow> drop_record parser" where
  "parse_drop_record slab = parse_drop_record_with_ceiling slab DEFAULT_DROP_MAX_PLAINTEXT_BYTES"

definition encode_drop_record :: "drop_record \<Rightarrow> bytes" where
  "encode_drop_record r = dr_drop_id r @ u32_to_le_bytes (dr_plaintext_len r)
     @ representation_to_bytes (dr_representation r) @ [dr_solid_window_index r]
     @ u32_to_le_bytes (dr_offset_in_window r) @ u32_to_le_bytes (dr_len_in_window r) @ [dr_dict_id r, dr_flags r]"

definition valid_drop_record :: "slab_header \<Rightarrow> u64 \<Rightarrow> drop_record \<Rightarrow> bool" where
  "valid_drop_record slab max_plaintext r \<longleftrightarrow>
     length (dr_drop_id r) = 32 \<and> unat (dr_plaintext_len r) \<le> unat max_plaintext
     \<and> (is_sealed slab \<or> aead (dr_representation r) = 0)
     \<and> (has_erasure_coding slab \<or> ec (dr_representation r) = 0)
     \<and> unat (dr_offset_in_window r) + unat (dr_len_in_window r) < 2 ^ 32"

lemma length_representation_to_bytes [simp]: "length (representation_to_bytes r) = 3"
  by (simp add: representation_to_bytes_def)

lemma parses_drop_record:
  assumes "valid_drop_record s m r"
  shows "parses (parse_drop_record_with_ceiling s m) (encode_drop_record r) r"
proof -
  have "\<lparr>dr_drop_id = dr_drop_id r, dr_plaintext_len = dr_plaintext_len r, dr_representation = dr_representation r,
      dr_solid_window_index = dr_solid_window_index r, dr_offset_in_window = dr_offset_in_window r,
      dr_len_in_window = dr_len_in_window r, dr_dict_id = dr_dict_id r, dr_flags = dr_flags r\<rparr> = r" by simp
  with assms show ?thesis
    unfolding encode_drop_record_def parse_drop_record_with_ceiling_def valid_drop_record_def Let_def append_Cons append_Nil
    by - (intro wire_enc, auto)
qed

lemma preads_drop_record:
  "preads (parse_drop_record_with_ceiling s m)
     (\<lambda>r b. valid_drop_record s m r \<and> Some (encode_drop_record r) = Some b)"
  unfolding parse_drop_record_with_ceiling_def Let_def
  by (intro wire_dec) (auto simp: valid_drop_record_def encode_drop_record_def representation_to_from_bytes)

interpretation drop_record:
  wire_format "parse_drop_record_with_ceiling s m" "\<lambda>r. Some (encode_drop_record r)" "valid_drop_record s m" for s m
proof
  show "preads (parse_drop_record_with_ceiling s m)
      (\<lambda>r b. valid_drop_record s m r \<and> Some (encode_drop_record r) = Some b)"
    by (rule preads_drop_record)
qed (auto intro: parses_drop_record)

lemma length_encode_drop_record:
  "valid_drop_record s m r \<Longrightarrow> length (encode_drop_record r) = DROP_RECORD_LEN"
  by (simp add: valid_drop_record_def encode_drop_record_def DROP_RECORD_LEN_def)

text \<open>A record parser moves the cursor by the record's width, whatever the cursor.\<close>

definition advances :: "'a parser \<Rightarrow> nat \<Rightarrow> bool" where
  "advances p n \<longleftrightarrow> (\<forall>c v c'. p c = Inr (v, c') \<longrightarrow> cur_pos c' = cur_pos c + n)"

lemma advances_bind: "advances p k \<Longrightarrow> (\<And>v. advances (f v) m) \<Longrightarrow> n = k + m \<Longrightarrow> advances (pbind p f) n"
  by (fastforce simp: advances_def pbind_def split: sum.splits)

lemma advances_read_n: "advances (read_n k) k"
  by (auto simp: advances_def read_n_def usize_checked_add_def split: option.splits if_splits)

lemma advances_pret: "advances (pret v) 0"
  by (simp add: advances_def pret_def)

lemma advances_perr: "advances (perr e) n"
  by (simp add: advances_def perr_def)

lemma advances_u8: "advances read_u8 1"
  unfolding read_u8_def by (rule advances_bind [OF advances_read_n advances_pret]) simp

lemma advances_u32: "advances read_u32_le 4"
  unfolding read_u32_le_def by (rule advances_bind [OF advances_read_n advances_pret]) simp

lemma advances_if: "advances p n \<Longrightarrow> advances q n \<Longrightarrow> advances (if b then p else q) n"
  by simp

lemma advances_drop_record: "advances (parse_drop_record s) DROP_RECORD_LEN"
proof -
  have e: "DROP_RECORD_LEN = 32 + (4 + (3 + (1 + (4 + (4 + (1 + (1 + 0)))))))" by (simp add: DROP_RECORD_LEN_def)
  show ?thesis unfolding parse_drop_record_def parse_drop_record_with_ceiling_def Let_def e
    by (intro advances_bind [OF _ _ refl] advances_if advances_read_n
      advances_u8 advances_u32 advances_pret advances_perr)
qed

end
