(* ===== verification/Codec.thy ===== *)
theory Codec
  imports Metadata_Reference
begin

text \<open>
  The codec registry (\<open>limnifs-core/src/codec/mod.rs\<close>), the store codec (\<open>store.rs\<close>) and the filter composites
  (\<open>composite.rs\<close>). The compression algorithms are third-party crates: a codec is a record of functions, and a
  call may panic, which the registry turns into an error.

  The locales are what the trait documents and the seekable container, the slab reader and the slab store rely on:
  \<open>sized_decompressor\<close>, a successful decompression has the expected length; \<open>codec_contract\<close>, in addition
  decompression inverts compression. A registry has them when its codecs do.
\<close>

section \<open>Tunables\<close>

record codec_tunables =
  quality :: u8
  zstd_quality :: u8
  xz_level :: u8
  ppmd_order :: u8
  ppmd7_budget :: nat
  ppmd8_budget :: nat
  bzip2_block_kb :: u32
  lzma_dict_mb :: u32

definition tunables_from_quality :: "u8 \<Rightarrow> codec_tunables" where
  "tunables_from_quality q = \<lparr>quality = q, zstd_quality = q, xz_level = 0, ppmd_order = 0, ppmd7_budget = 0,
     ppmd8_budget = 0, bzip2_block_kb = 0, lzma_dict_mb = 0\<rparr>"

definition tunables_default :: codec_tunables where
  "tunables_default = \<lparr>quality = 0, zstd_quality = 0, xz_level = 0, ppmd_order = 0, ppmd7_budget = 0,
     ppmd8_budget = 0, bzip2_block_kb = 0, lzma_dict_mb = 0\<rparr>"

section \<open>Codecs\<close>

datatype codec_run = Returned "bytes outcome" | Panicked string

record codec =
  co_id :: u8
  co_name :: string
  co_min_compress_size :: nat
  co_compress :: "bytes \<Rightarrow> codec_run"
  co_decompress :: "bytes \<Rightarrow> u32 \<Rightarrow> codec_run"
  co_compress_with_tunables :: "bytes \<Rightarrow> codec_tunables \<Rightarrow> codec_run"

type_synonym codec_registry = "codec list"

text \<open>The trait's default body of \<open>compress_with_tunables\<close>.\<close>

definition ignore_tunables :: "(bytes \<Rightarrow> codec_run) \<Rightarrow> bytes \<Rightarrow> codec_tunables \<Rightarrow> codec_run" where
  "ignore_tunables compress plaintext tunables = compress plaintext"

fun codec_call :: "codec_run \<Rightarrow> bytes outcome" where
  "codec_call (Returned r) = r"
| "codec_call (Panicked reason) = Inl (Corrupt (CodecReason (CodecPanicked reason)))"

section \<open>Registry\<close>

definition registry_find :: "codec_registry \<Rightarrow> u8 \<Rightarrow> codec option" where
  "registry_find r i = find (\<lambda>c. co_id c = i) r"

text \<open>\<open>register\<close> asserts that the id is new; \<^const>\<open>None\<close> is the failed assertion.\<close>

definition registry_register :: "codec_registry \<Rightarrow> codec \<Rightarrow> codec_registry option" where
  "registry_register r c = (if list_ex (\<lambda>d. co_id d = co_id c) r then None else Some (r @ [c]))"

definition registered_names :: "codec_registry \<Rightarrow> (u8 \<times> string) list" where
  "registered_names r = map (\<lambda>c. (co_id c, co_name c)) r"

definition registry_codec_name :: "codec_registry \<Rightarrow> u8 \<Rightarrow> string option" where
  "registry_codec_name r i = map_option co_name (registry_find r i)"

definition registry_compress :: "codec_registry \<Rightarrow> u8 \<Rightarrow> bytes \<Rightarrow> bytes outcome" where
  "registry_compress r i plaintext =
     (case registry_find r i of
        Some c \<Rightarrow> codec_call (co_compress c plaintext)
      | None \<Rightarrow> Inl (UnsupportedFeature (CodecUnregistered ''compress'' i (registered_names r))))"

definition registry_compress_with_tunables ::
    "codec_registry \<Rightarrow> codec_tunables \<Rightarrow> u8 \<Rightarrow> bytes \<Rightarrow> bytes outcome" where
  "registry_compress_with_tunables r tunables i plaintext =
     (case registry_find r i of
        Some c \<Rightarrow> codec_call (co_compress_with_tunables c plaintext tunables)
      | None \<Rightarrow> Inl (UnsupportedFeature (CodecUnregistered ''compress_with_tunables'' i (registered_names r))))"

definition registry_decompress :: "codec_registry \<Rightarrow> decompressor" where
  "registry_decompress r i compressed expected_len =
     (case registry_find r i of
        Some c \<Rightarrow> codec_call (co_decompress c compressed expected_len)
      | None \<Rightarrow> Inl (UnsupportedFeature (CodecUnregistered ''decompress'' i (registered_names r))))"

text \<open>Building a registry by registering a list of codecs in turn, as the default registry is.\<close>

fun register_all :: "codec_registry \<Rightarrow> codec list \<Rightarrow> codec_registry option" where
  "register_all r [] = Some r"
| "register_all r (c # cs) = do { r' \<leftarrow> registry_register r c; register_all r' cs }"

section \<open>The store codec and the composites\<close>

definition store_codec :: codec where
  "store_codec = \<lparr>co_id = CODEC_STORE, co_name = ''store'', co_min_compress_size = 0,
     co_compress = (\<lambda>plaintext. Returned (Inr plaintext)),
     co_decompress = (\<lambda>compressed expected_len.
       Returned (if length compressed \<noteq> unat expected_len
                 then Inl (Corrupt (CodecReason (StoreLengthMismatch (length compressed) (unat expected_len))))
                 else Inr compressed)),
     co_compress_with_tunables = ignore_tunables (\<lambda>plaintext. Returned (Inr plaintext))\<rparr>"

record byte_filter =
  bf_encode :: "bytes \<Rightarrow> bytes"
  bf_decode :: "bytes \<Rightarrow> bytes"

definition filter_then_compress ::
    "(u8 \<Rightarrow> bytes \<Rightarrow> bytes outcome) \<Rightarrow> bytes \<Rightarrow> byte_filter \<Rightarrow> u8 \<Rightarrow> bytes outcome" where
  "filter_then_compress compress plaintext f inner_codec =
     (let filtered = bf_encode f plaintext
      in case compress inner_codec filtered of
           Inl e \<Rightarrow> Inl e
         | Inr inner \<Rightarrow> Inr (u32_to_le_bytes (saturating_u32 (length filtered)) @ inner))"

definition decompress_then_filter :: "decompressor \<Rightarrow> bytes \<Rightarrow> byte_filter \<Rightarrow> u8 \<Rightarrow> string \<Rightarrow> bytes outcome" where
  "decompress_then_filter decompress compressed f inner_codec error_label =
     (if length compressed < 4 then Inl (Corrupt (CodecReason (FilterPrefixTooShort error_label)))
      else let filtered_len = u32_from_le_bytes (take 4 compressed); inner_bytes = drop 4 compressed
           in case decompress inner_codec inner_bytes filtered_len of
                Inl e \<Rightarrow> Inl e
              | Inr filtered \<Rightarrow> Inr (bf_decode f filtered))"

text \<open>A composite ignores the expected length, and its inner codec is looked up in the process-wide registry.\<close>

definition filter_codec_composite ::
    "(u8 \<Rightarrow> bytes \<Rightarrow> bytes outcome) \<Rightarrow> decompressor \<Rightarrow> byte_filter \<Rightarrow> u8 \<Rightarrow> u8 \<Rightarrow> string \<Rightarrow> nat \<Rightarrow> codec" where
  "filter_codec_composite compress decompress f inner i name min_size =
     \<lparr>co_id = i, co_name = name, co_min_compress_size = min_size,
      co_compress = (\<lambda>plaintext. Returned (filter_then_compress compress plaintext f inner)),
      co_decompress = (\<lambda>compressed _. Returned (decompress_then_filter decompress compressed f inner name)),
      co_compress_with_tunables = ignore_tunables (\<lambda>plaintext. Returned (filter_then_compress compress plaintext f inner))\<rparr>"

section \<open>The contract\<close>

locale sized_decompressor =
  fixes decompress :: decompressor
  assumes decompress_length: "decompress i x n = Inr d \<Longrightarrow> length d = unat n"

locale codec_contract = sized_decompressor decompress
  for decompress :: decompressor +
  fixes compress :: "u8 \<Rightarrow> bytes \<Rightarrow> bytes outcome"
  assumes decompress_compress:
      "compress i p = Inr x \<Longrightarrow> length p < 2 ^ 32 \<Longrightarrow> decompress i x (word_of_nat (length p)) = Inr p"
begin

text \<open>Compression loses nothing, so it is injective on inputs of one length.\<close>

lemma compress_inj:
  assumes "compress i p = Inr x" "compress i q = Inr x" "length p = length q" "length p < 2 ^ 32"
  shows "p = q"
  using decompress_compress [OF assms(1,4)] decompress_compress [OF assms(2)] assms(3,4) by simp

lemma decompress_expected:
  "compress i p = Inr x \<Longrightarrow> length p < 2 ^ 32 \<Longrightarrow> decompress i x n = Inr d \<Longrightarrow> n = word_of_nat (length p) \<Longrightarrow> d = p"
  using decompress_compress by auto

end

definition codec_ok :: "codec \<Rightarrow> bool" where
  "codec_ok c \<longleftrightarrow>
     (\<forall>x n d. codec_call (co_decompress c x n) = Inr d \<longrightarrow> length d = unat n)
     \<and> (\<forall>p x. codec_call (co_compress c p) = Inr x \<and> length p < 2 ^ 32
          \<longrightarrow> codec_call (co_decompress c x (word_of_nat (length p))) = Inr p)
     \<and> (\<forall>p t x. codec_call (co_compress_with_tunables c p t) = Inr x \<and> length p < 2 ^ 32
          \<longrightarrow> codec_call (co_decompress c x (word_of_nat (length p))) = Inr p)"

lemma registry_find_ok: "\<forall>c \<in> set r. codec_ok c \<Longrightarrow> registry_find r i = Some c \<Longrightarrow> codec_ok c"
  by (auto simp: registry_find_def find_Some_iff)

lemma registry_sized:
  assumes "\<forall>c \<in> set r. codec_ok c"
  shows "sized_decompressor (registry_decompress r)"
  using registry_find_ok [OF assms]
  by unfold_locales (fastforce simp: registry_decompress_def codec_ok_def split: option.splits)

lemma registry_contract:
  assumes "\<forall>c \<in> set r. codec_ok c"
  shows "codec_contract (registry_decompress r) (registry_compress r)"
  unfolding codec_contract_def codec_contract_axioms_def
  using registry_sized [OF assms] registry_find_ok [OF assms]
  by (auto simp: registry_decompress_def registry_compress_def codec_ok_def split: option.splits)

lemma registry_tunables_contract:
  assumes "\<forall>c \<in> set r. codec_ok c"
  shows "codec_contract (registry_decompress r) (registry_compress_with_tunables r t)"
  unfolding codec_contract_def codec_contract_axioms_def
  using registry_sized [OF assms] registry_find_ok [OF assms]
  by (auto simp: registry_decompress_def registry_compress_with_tunables_def codec_ok_def split: option.splits)

lemma store_codec_ok: "codec_ok store_codec"
  by (auto simp: codec_ok_def store_codec_def ignore_tunables_def)

interpretation store: codec_contract "registry_decompress [store_codec]" "registry_compress [store_codec]"
  by (rule registry_contract) (simp add: store_codec_ok)

text \<open>A composite over a reversible filter and a lawful inner codec reads its own output back, whatever length is
  expected; only the length law can fail.\<close>

lemma composite_round_trip:
  assumes "codec_contract decompress compress" "\<And>p. bf_decode f (bf_encode f p) = p"
    and "length (bf_encode f p) < 2 ^ 32"
    and "codec_call (co_compress (filter_codec_composite compress decompress f inner i name msize) p) = Inr x"
  shows "codec_call (co_decompress (filter_codec_composite compress decompress f inner i name msize) x n) = Inr p"
proof -
  from assms(4) obtain y where y: "compress inner (bf_encode f p) = Inr y"
    and x: "x = u32_to_le_bytes (word_of_nat (length (bf_encode f p))) @ y"
    using assms(3) by (auto simp: filter_codec_composite_def filter_then_compress_def saturating_u32_def Let_def
        split: sum.splits)
  from codec_contract.decompress_compress [OF assms(1) y assms(3)] assms(2) show ?thesis
    by (simp add: filter_codec_composite_def decompress_then_filter_def x Let_def)
qed

text \<open>Registering keeps the ids distinct, and a registered codec is the one the lookup returns.\<close>

lemma register_all_distinct:
  "register_all r cs = Some r' \<Longrightarrow> distinct (map co_id r) \<Longrightarrow> r' = r @ cs \<and> distinct (map co_id r')"
proof (induction cs arbitrary: r)
  case (Cons c cs)
  then obtain r1 where "registry_register r c = Some r1" "register_all r1 cs = Some r'"
    by (auto split: bind_splits)
  with Cons show ?case by (fastforce simp: registry_register_def list_ex_iff split: if_splits)
qed simp

lemma registry_find_distinct:
  "distinct (map co_id r) \<Longrightarrow> c \<in> set r \<Longrightarrow> registry_find r (co_id c) = Some c"
proof (induction r)
  case (Cons d r)
  then show ?case by (cases "c = d") (auto simp: registry_find_def)
qed simp



end
