(* ===== verification/Seekable.thy ===== *)
theory Seekable
  imports Codec
begin

text \<open>
  Seekable containers (\<open>limnifs-core/src/seekable.rs\<close>): independently compressed frames and a trailing index. A
  windowed read decompresses the covering frames only; it is shown to return the corresponding slice of the
  full decode. \<open>u64\<close> quantities are naturals with wrapping addition and subtraction; a slice index out of range
  and a capacity above \<open>isize::MAX\<close> are panics, the outer \<^const>\<open>None\<close> of the results.
\<close>

section \<open>Container\<close>

definition SEEKABLE_MAGIC :: bytes where
  "SEEKABLE_MAGIC = [0x4C, 0x4D, 0x53, 0x4B]"

definition SEEKABLE_VERSION :: u16 where
  "SEEKABLE_VERSION = 1"

definition FOOTER_TAIL_LEN :: nat where
  "FOOTER_TAIL_LEN = 10"

definition SEEKABLE_FRAME_SIZE :: nat where
  "SEEKABLE_FRAME_SIZE = 262144"

definition DROP_FLAG_SEEKABLE :: u8 where
  "DROP_FLAG_SEEKABLE = 0x01"

definition is_seekable_codec :: "u8 \<Rightarrow> bool" where
  "is_seekable_codec i \<longleftrightarrow> i \<in> {0x01, 0x13, 0x02, 0x03, 0x04, 0x05, 0x06, 0x10, 0x0C, 0x12, 0x14, 0x11}"

definition frame_key :: "(bytes \<Rightarrow> bytes) \<Rightarrow> bytes \<Rightarrow> u32 \<Rightarrow> bytes" where
  "frame_key H drop_id frame_index = H (drop_id @ u32_to_le_bytes frame_index)"

section \<open>Encoding\<close>

fun encode_frames :: "(u8 \<Rightarrow> bytes \<Rightarrow> bytes outcome) \<Rightarrow> u8 \<Rightarrow> bytes list \<Rightarrow> bytes \<Rightarrow> u32 list
    \<Rightarrow> (bytes \<times> u32 list) outcome" where
  "encode_frames compress i [] body comp_lens = Inr (body, comp_lens)"
| "encode_frames compress i (frame # frames) body comp_lens =
     (case compress i frame of
        Inl e \<Rightarrow> Inl e
      | Inr compressed \<Rightarrow>
          (case u32_try_from (length compressed) of
             None \<Rightarrow> Inl (Corrupt (SeekReason SeekFrameTooLong))
           | Some n \<Rightarrow> encode_frames compress i frames (body @ compressed) (comp_lens @ [n])))"

definition footer_entry :: "u32 \<times> u32 \<Rightarrow> bytes" where
  "footer_entry e = u32_to_le_bytes (fst e) @ u32_to_le_bytes (snd e)"

definition encode_footer :: "(u32 \<times> u32) list \<Rightarrow> u32 \<Rightarrow> bytes" where
  "encode_footer es frame_count =
     concat (map footer_entry es) @ SEEKABLE_MAGIC @ u16_to_le_bytes SEEKABLE_VERSION @ u32_to_le_bytes frame_count"

definition frame_chunks :: "bytes \<Rightarrow> bytes list" where
  "frame_chunks plaintext = (if plaintext = [] then [[]] else chunks SEEKABLE_FRAME_SIZE plaintext)"

definition encode_seekable :: "(u8 \<Rightarrow> bytes \<Rightarrow> bytes outcome) \<Rightarrow> u8 \<Rightarrow> bytes \<Rightarrow> bytes outcome option" where
  "encode_seekable compress i plaintext =
     (let frames = frame_chunks plaintext
      in case encode_frames compress i frames [] [] of
           Inl e \<Rightarrow> Some (Inl e)
         | Inr (body, comp_lens) \<Rightarrow>
             (case u32_try_from (length frames) of
                None \<Rightarrow> None
              | Some frame_count \<Rightarrow>
                  Some (Inr (body @ encode_footer
                    (zip (map (\<lambda>f. word_of_nat (length f)) frames) comp_lens) frame_count))))"

section \<open>Footer\<close>

record seek_footer =
  uncomp_lens :: "u32 list"
  comp_lens :: "u32 list"
  starts :: "nat list"
  total_uncomp :: nat

fun footer_starts :: "nat \<Rightarrow> u32 list \<Rightarrow> nat list" where
  "footer_starts acc [] = [acc]"
| "footer_starts acc (l # ls) = acc # footer_starts (u64_add acc (unat l)) ls"

definition uncomp_offset :: "seek_footer \<Rightarrow> nat \<Rightarrow> nat" where
  "uncomp_offset f i = starts f ! min i (length (starts f) - 1)"

definition total_comp :: "seek_footer \<Rightarrow> nat" where
  "total_comp f = fold (\<lambda>l acc. u64_add acc (unat l)) (comp_lens f) 0"

text \<open>\<open>partition_point\<close> of the sorted starts.\<close>

definition frame_containing :: "seek_footer \<Rightarrow> nat \<Rightarrow> nat" where
  "frame_containing f off = length (takeWhile (\<lambda>s. s \<le> off) (starts f)) - 1"

definition compressed_offset_of :: "seek_footer \<Rightarrow> nat \<Rightarrow> nat" where
  "compressed_offset_of f i = sum_list (map unat (take i (comp_lens f)))"

definition parse_footer :: "bytes \<Rightarrow> seek_footer outcome" where
  "parse_footer container =
     (if length container < 8 + FOOTER_TAIL_LEN
      then Inl (Corrupt (SeekReason (SeekTooSmall (length container)))) else
      let tail = drop (length container - FOOTER_TAIL_LEN) container in
      if take 4 tail \<noteq> SEEKABLE_MAGIC then Inl (Corrupt (SeekReason SeekBadMagic)) else
      let version = u16_from_le_bytes (take 2 (drop 4 tail)) in
      if version \<noteq> SEEKABLE_VERSION then Inl (Corrupt (SeekReason (SeekBadVersion version))) else
      let frame_count = unat (u32_from_le_bytes (take 4 (drop 6 tail))) in
      if length container - FOOTER_TAIL_LEN < frame_count * 8
      then Inl (Corrupt (SeekReason (SeekFrameCountOverruns frame_count (length container)))) else
      let table_start = length container - FOOTER_TAIL_LEN - frame_count * 8;
          us = map (\<lambda>i. u32_from_le_bytes (take 4 (drop (table_start + i * 8) container))) [0..<frame_count];
          cs = map (\<lambda>i. u32_from_le_bytes (take 4 (drop (table_start + i * 8 + 4) container))) [0..<frame_count];
          footer = \<lparr>uncomp_lens = us, comp_lens = cs, starts = footer_starts 0 us,
                    total_uncomp = last (footer_starts 0 us)\<rparr> in
      if total_comp footer \<noteq> table_start
      then Inl (Corrupt (SeekReason (SeekBodyMismatch (total_comp footer) table_start))) else
      if list_ex (\<lambda>l. l = 0) us \<and> length us > 1 then Inl (Corrupt (SeekReason SeekZeroFrame)) else
      Inr footer)"

section \<open>Decoding\<close>

fun decode_frames :: "decompressor \<Rightarrow> u8 \<Rightarrow> bytes \<Rightarrow> nat \<Rightarrow> (u32 \<times> u32) list \<Rightarrow> bytes \<Rightarrow> bytes outcome" where
  "decode_frames dec i container pos [] out = Inr out"
| "decode_frames dec i container pos ((uncomp_len, comp_len) # fs) out =
     (case dec i (take (unat comp_len) (drop pos container)) uncomp_len of
        Inl e \<Rightarrow> Inl e
      | Inr d \<Rightarrow> decode_frames dec i container (pos + unat comp_len) fs (out @ d))"

definition decode_seekable :: "decompressor \<Rightarrow> u8 \<Rightarrow> bytes \<Rightarrow> u32 \<Rightarrow> bytes outcome" where
  "decode_seekable dec i container expected_len =
     (case parse_footer container of
        Inl e \<Rightarrow> Inl e
      | Inr footer \<Rightarrow>
          if total_uncomp footer \<noteq> unat expected_len
          then Inl (Corrupt (SeekReason (SeekTotalMismatch (total_uncomp footer) expected_len)))
          else decode_frames dec i container 0 (zip (uncomp_lens footer) (comp_lens footer)) [])"

fun range_frames :: "decompressor \<Rightarrow> u8 \<Rightarrow> bytes \<Rightarrow> nat \<Rightarrow> nat \<Rightarrow> nat \<Rightarrow> nat \<Rightarrow> (u32 \<times> u32) list \<Rightarrow> bytes
    \<Rightarrow> bytes outcome option" where
  "range_frames dec i container off len comp_pos cum [] out = Some (Inr out)"
| "range_frames dec i container off len comp_pos cum ((uncomp_len, comp_len) # fs) out =
     (case dec i (take (unat comp_len) (drop comp_pos container)) uncomp_len of
        Inl e \<Rightarrow> Some (Inl e)
      | Inr decoded \<Rightarrow>
          let slice_from = off - cum;
              slice_to = min (u64_sub (u64_add off len) cum) (unat uncomp_len)
          in if slice_to < slice_from \<or> length decoded < slice_to then None else
             let out' = out @ take (slice_to - slice_from) (drop slice_from decoded)
             in if u64_add cum (unat uncomp_len) \<ge> u64_add off len then Some (Inr out')
                else range_frames dec i container off len (comp_pos + unat comp_len)
                       (u64_add cum (unat uncomp_len)) fs out')"

definition decode_seekable_range :: "decompressor \<Rightarrow> u8 \<Rightarrow> bytes \<Rightarrow> u64 \<Rightarrow> nat \<Rightarrow> bytes outcome option" where
  "decode_seekable_range dec i container off len =
     (case parse_footer container of
        Inl e \<Rightarrow> Some (Inl e)
      | Inr footer \<Rightarrow>
          let total = total_uncomp footer in
          if unat off > total \<or> u64_add (unat off) len > total
          then Some (Inl (Corrupt (SeekReason (SeekRangeOutside off len total)))) else
          if len \<ge> 2 ^ 63 then None else
          let first = frame_containing footer (unat off)
          in range_frames dec i container (unat off) len (compressed_offset_of footer first)
               (uncomp_offset footer first)
               (drop first (zip (uncomp_lens footer) (comp_lens footer))) [])"

section \<open>The footer read back\<close>

abbreviation usum :: "u32 list \<Rightarrow> nat" where
  "usum ls \<equiv> sum_list (map unat ls)"

definition footer_of :: "(u32 \<times> u32) list \<Rightarrow> seek_footer" where
  "footer_of es = \<lparr>uncomp_lens = map fst es, comp_lens = map snd es,
     starts = footer_starts 0 (map fst es), total_uncomp = last (footer_starts 0 (map fst es))\<rparr>"

definition valid_entries :: "(u32 \<times> u32) list \<Rightarrow> bool" where
  "valid_entries es \<longleftrightarrow> es \<noteq> [] \<and> length es < 2 ^ 32 \<and> (length es > 1 \<longrightarrow> (\<forall>e \<in> set es. fst e \<noteq> 0))"

lemma usum_bound: "usum ls \<le> length ls * 4294967295"
proof (induction ls)
  case (Cons l ls)
  then show ?case using unat_u32_lt [of l] by simp
qed simp

lemma usum_u64: "length ls < 4294967296 \<Longrightarrow> usum ls < 2 ^ 64"
proof -
  assume "length ls < 4294967296"
  then have "length ls * 4294967295 \<le> 4294967295 * 4294967295" by (intro mult_le_mono1) simp
  with usum_bound [of ls] show ?thesis by simp
qed

lemma total_comp_fold:
  "acc + usum ls < 2 ^ 64 \<Longrightarrow> fold (\<lambda>l acc. u64_add acc (unat l)) ls acc = acc + usum ls"
proof (induction ls arbitrary: acc)
  case (Cons l ls)
  then have "u64_add acc (unat l) = acc + unat l" by (intro u64_add_exact) simp
  with Cons show ?case by simp
qed simp

lemma footer_starts_nth:
  "acc + usum ls < 2 ^ 64 \<Longrightarrow> footer_starts acc ls = map (\<lambda>k. acc + usum (take k ls)) [0..<Suc (length ls)]"
proof (induction ls arbitrary: acc)
  case Nil
  show ?case by simp
next
  case (Cons l ls)
  then have "u64_add acc (unat l) = acc + unat l" by (intro u64_add_exact) simp
  moreover have "map (\<lambda>k. acc + usum (take k (l # ls))) [0..<Suc (length (l # ls))]
      = acc # map (\<lambda>k. acc + unat l + usum (take k ls)) [0..<Suc (length ls)]"
    by (subst upt_conv_Cons) (simp_all del: upt_Suc add: map_Suc_upt [symmetric] ac_simps)
  ultimately show ?case using Cons by simp
qed

lemma footer_of_total:
  assumes "valid_entries es"
  shows "total_uncomp (footer_of es) = usum (map fst es)"
    and "starts (footer_of es) = map (\<lambda>k. usum (take k (map fst es))) [0..<Suc (length es)]"
    and "total_comp (footer_of es) = usum (map snd es)"
proof -
  have b: "usum (map fst es) < 2 ^ 64" "usum (map snd es) < 2 ^ 64"
    using assms usum_u64 [of "map fst es"] usum_u64 [of "map snd es"] by (simp_all add: valid_entries_def)
  show s: "starts (footer_of es) = map (\<lambda>k. usum (take k (map fst es))) [0..<Suc (length es)]"
    using footer_starts_nth [of 0 "map fst es"] b(1) by (simp add: footer_of_def del: upt_Suc)
  then have "footer_starts 0 (map fst es) = map (\<lambda>k. usum (take k (map fst es))) [0..<Suc (length es)]"
    by (simp add: footer_of_def)
  then show "total_uncomp (footer_of es) = usum (map fst es)" by (simp add: footer_of_def)
  show "total_comp (footer_of es) = usum (map snd es)"
    using total_comp_fold [of 0 "map snd es"] b(2) by (simp add: total_comp_def footer_of_def)
qed

lemma length_footer_entry [simp]: "length (footer_entry e) = 8"
  by (simp add: footer_entry_def)

lemma length_entries [simp]: "length (concat (map footer_entry es)) = 8 * length es"
  by (rule length_concat_map_const) simp

lemma drop_entries: "i \<le> length es \<Longrightarrow> drop (8 * i) (concat (map footer_entry es)) = concat (map footer_entry (drop i es))"
proof (induction es arbitrary: i)
  case (Cons e es)
  show ?case
  proof (cases i)
    case (Suc j)
    then have "drop (8 * i) (footer_entry e @ concat (map footer_entry es)) = drop (8 * j) (concat (map footer_entry es))"
      by simp
    with Cons Suc show ?thesis by simp
  qed simp
qed simp

lemma table_entry:
  assumes "i < length es" "c = body @ concat (map footer_entry es) @ t"
  shows "take 4 (drop (length body + i * 8) c) = u32_to_le_bytes (fst (es ! i))"
    and "take 4 (drop (length body + i * 8 + 4) c) = u32_to_le_bytes (snd (es ! i))"
proof -
  have "drop (length body + i * 8) c = drop (8 * i) (concat (map footer_entry es) @ t)"
    unfolding assms(2) by (simp add: mult.commute)
  also have "\<dots> = concat (map footer_entry (drop i es)) @ t"
    using assms(1) drop_entries [of i es] by simp
  also have "\<dots> = footer_entry (es ! i) @ concat (map footer_entry (drop (Suc i) es)) @ t"
    using assms(1) by (simp add: Cons_nth_drop_Suc [symmetric])
  finally have d: "drop (length body + i * 8) c = footer_entry (es ! i) @ concat (map footer_entry (drop (Suc i) es)) @ t" .
  then show "take 4 (drop (length body + i * 8) c) = u32_to_le_bytes (fst (es ! i))"
    by (simp add: footer_entry_def)
  have "drop (length body + i * 8 + 4) c = drop 4 (drop (length body + i * 8) c)" by (simp add: add.commute)
  then show "take 4 (drop (length body + i * 8 + 4) c) = u32_to_le_bytes (snd (es ! i))"
    unfolding d by (simp add: footer_entry_def)
qed

lemma table_rebuild:
  "length x = 8 * n \<Longrightarrow>
   concat (map (\<lambda>i. footer_entry (u32_from_le_bytes (take 4 (drop (i * 8) x)),
                                  u32_from_le_bytes (take 4 (drop (i * 8 + 4) x)))) [0..<n]) = x"
proof (induction n arbitrary: x)
  case 0
  then show ?case by simp
next
  case (Suc n)
  define y where "y = take (8 * n) x"
  define z where "z = drop (8 * n) x"
  have x: "x = y @ z" and ly: "length y = 8 * n" and lz: "length z = 8"
    using Suc.prems by (simp_all add: y_def z_def)
  have e: "footer_entry (u32_from_le_bytes (take 4 z), u32_from_le_bytes (take 4 (drop 4 z))) = z"
  proof -
    have "take 4 z @ take 4 (drop 4 z) = z"
      by (metis append_take_drop_id diff_add_inverse length_drop lz numeral_Bit0 order_refl take_all)
    then show ?thesis using lz by (simp add: footer_entry_def to_from_le_bytes)
  qed
  have f: "footer_entry (u32_from_le_bytes (take 4 (drop (i * 8) x)), u32_from_le_bytes (take 4 (drop (i * 8 + 4) x)))
      = footer_entry (u32_from_le_bytes (take 4 (drop (i * 8) y)), u32_from_le_bytes (take 4 (drop (i * 8 + 4) y)))"
    if "i \<in> set [0..<n]" for i
    using that ly by (simp add: x)
  have g: "drop (n * 8) x = z" "drop (n * 8 + 4) x = drop 4 z"
    using ly by (simp_all add: x mult.commute)
  have "concat (map (\<lambda>i. footer_entry (u32_from_le_bytes (take 4 (drop (i * 8) x)),
      u32_from_le_bytes (take 4 (drop (i * 8 + 4) x)))) [0..<Suc n]) = y @ z"
    by (simp only: upt_Suc_append [OF le0] map_append concat_append map_cong [OF refl f] Suc.IH [OF ly] g e
        list.map concat.simps append_Nil2)
  then show ?case by (simp only: x)
qed

lemma length_SEEKABLE_MAGIC [simp]: "length SEEKABLE_MAGIC = 4"
  by (simp add: SEEKABLE_MAGIC_def)

lemma footer_tail:
  "length body = usum (map snd es) \<Longrightarrow> c = body @ encode_footer es n \<Longrightarrow>
     length c = length body + 8 * length es + 10
     \<and> drop (length c - 10) c = SEEKABLE_MAGIC @ u16_to_le_bytes SEEKABLE_VERSION @ u32_to_le_bytes n"
  by (simp add: encode_footer_def SEEKABLE_MAGIC_def)

lemma parse_footer_complete:
  assumes v: "valid_entries es" and b: "length body = usum (map snd es)"
  shows "parse_footer (body @ encode_footer es (word_of_nat (length es))) = Inr (footer_of es)"
proof -
  define c where "c = body @ encode_footer es (word_of_nat (length es))"
  have lc: "length c = length body + 8 * length es + 10"
    and tl: "drop (length c - 10) c
      = SEEKABLE_MAGIC @ u16_to_le_bytes SEEKABLE_VERSION @ u32_to_le_bytes (word_of_nat (length es))"
    using footer_tail [OF b c_def] by auto
  have n: "0 < length es" "length es < 2 ^ 32" using v by (auto simp: valid_entries_def)
  have big: "\<not> length body + 8 * length es < 8" using n(1) by linarith
  have ts: "length c - 10 - length es * 8 = length body" using lc by simp
  have us: "map (\<lambda>i. u32_from_le_bytes (take 4 (drop (length body + i * 8) c))) [0..<length es] = map fst es"
    using table_entry(1) [where c = c and body = body and es = es]
    by (intro nth_equalityI) (simp_all add: c_def encode_footer_def)
  have cs: "map (\<lambda>i. u32_from_le_bytes (take 4 (drop (length body + i * 8 + 4) c))) [0..<length es] = map snd es"
    using table_entry(2) [where c = c and body = body and es = es]
    by (intro nth_equalityI) (simp_all add: c_def encode_footer_def)
  have tc: "total_comp (footer_of es) = length body" using footer_of_total(3) [OF v] b by simp
  have z: "\<not> (list_ex (\<lambda>l. l = 0) (map fst es) \<and> length (map fst es) > 1)"
    using v by (auto simp: valid_entries_def list_ex_iff)
  have "parse_footer c = Inr (footer_of es)"
    unfolding parse_footer_def FOOTER_TAIL_LEN_def tl Let_def
    using n lc z tc big by (simp add: ts us cs footer_of_def [symmetric])
  then show ?thesis by (simp only: c_def)
qed

lemma parse_footer_sound:
  assumes "parse_footer c = Inr f"
  obtains body es where "c = body @ encode_footer es (word_of_nat (length es))" "valid_entries es"
    "length body = usum (map snd es)" "f = footer_of es"
proof -
  define tail where "tail = drop (length c - 10) c"
  define n where "n = unat (u32_from_le_bytes (take 4 (drop 6 tail)))"
  define ts where "ts = length c - 10 - n * 8"
  define es where "es = map (\<lambda>i. (u32_from_le_bytes (take 4 (drop (ts + i * 8) c)),
    u32_from_le_bytes (take 4 (drop (ts + i * 8 + 4) c)))) [0..<n]"
  define body where "body = take ts c"
  have fs: "map fst es = map (\<lambda>i. u32_from_le_bytes (take 4 (drop (ts + i * 8) c))) [0..<n]"
    and sn: "map snd es = map (\<lambda>i. u32_from_le_bytes (take 4 (drop (ts + i * 8 + 4) c))) [0..<n]"
    by (simp_all add: es_def)
  note d = assms [unfolded parse_footer_def FOOTER_TAIL_LEN_def Let_def, folded tail_def, folded n_def, folded ts_def,
      folded fs sn, folded footer_of_def]
  have l: "18 \<le> length c" and m: "take 4 tail = SEEKABLE_MAGIC"
    and ver: "u16_from_le_bytes (take 2 (drop 4 tail)) = SEEKABLE_VERSION"
    and ov: "n * 8 \<le> length c - 10" and tc: "total_comp (footer_of es) = ts"
    and z: "length (map fst es) > 1 \<longrightarrow> \<not> list_ex (\<lambda>l. l = 0) (map fst es)" and f: "f = footer_of es"
    using d by (auto split: if_splits)
  have lt: "length tail = 10" using l by (simp add: tail_def)
  have n32: "n < 2 ^ 32" using unat_u32_lt by (simp add: n_def)
  have le: "length es = n" by (simp add: es_def)
  have lb: "length body = ts" using l ov by (simp add: body_def ts_def)
  have "n \<noteq> 0"
  proof
    assume "n = 0"
    then have "es = []" "ts = length c - 10" using le by (simp_all add: ts_def)
    with tc l show False by (simp add: total_comp_def footer_of_def)
  qed
  then have v: "valid_entries es" using n32 le z by (auto simp: valid_entries_def list_ex_iff)
  have "tail = take 4 tail @ take 2 (drop 4 tail) @ take 4 (drop 6 tail)"
    using lt by (simp add: list_eq_iff_nth_eq nth_append min_def)
  moreover have "u16_to_le_bytes SEEKABLE_VERSION = take 2 (drop 4 tail)"
    using ver lt to_from_le_bytes(1) [of "take 2 (drop 4 tail)"] by simp
  moreover have "u32_to_le_bytes (word_of_nat n) = take 4 (drop 6 tail)"
    using lt to_from_le_bytes(2) [of "take 4 (drop 6 tail)"] by (simp add: n_def)
  ultimately have t: "tail = SEEKABLE_MAGIC @ u16_to_le_bytes SEEKABLE_VERSION @ u32_to_le_bytes (word_of_nat n)"
    using m by metis
  define x where "x = take (8 * n) (drop ts c)"
  have lx: "length x = 8 * n" using ov l by (simp add: x_def ts_def)
  have "take 4 (drop (i * 8) x) = take 4 (drop (ts + i * 8) c)"
      "take 4 (drop (i * 8 + 4) x) = take 4 (drop (ts + i * 8 + 4) c)" if "i < n" for i
  proof -
    have "4 \<le> 8 * n - i * 8" "4 \<le> 8 * n - (i * 8 + 4)" using that by linarith+
    then show "take 4 (drop (i * 8) x) = take 4 (drop (ts + i * 8) c)"
      "take 4 (drop (i * 8 + 4) x) = take 4 (drop (ts + i * 8 + 4) c)"
      by (simp_all add: x_def drop_take min_def add.commute add.left_commute)
  qed
  then have "map footer_entry es = map (\<lambda>i. footer_entry (u32_from_le_bytes (take 4 (drop (i * 8) x)),
      u32_from_le_bytes (take 4 (drop (i * 8 + 4) x)))) [0..<n]"
    by (simp add: es_def)
  then have "concat (map footer_entry es) = x" by (simp only: table_rebuild [OF lx])
  moreover have "c = body @ x @ tail"
  proof -
    have "ts + 8 * n = length c - 10" using ov by (simp add: ts_def)
    then show ?thesis by (simp add: body_def x_def tail_def) (metis append_take_drop_id drop_drop add.commute)
  qed
  ultimately have "c = body @ encode_footer es (word_of_nat (length es))"
    by (simp add: encode_footer_def t le)
  moreover have "length body = usum (map snd es)" using footer_of_total(3) [OF v] tc lb by simp
  ultimately show thesis using that v f by blast
qed

section \<open>Frames\<close>

text \<open>\<open>frames_decode\<close>: the consecutive frames from \<open>pos\<close> on decompress to the given pieces.\<close>

fun frames_decode :: "decompressor \<Rightarrow> u8 \<Rightarrow> bytes \<Rightarrow> nat \<Rightarrow> (u32 \<times> u32) list \<Rightarrow> bytes list \<Rightarrow> bool" where
  "frames_decode dec i container pos [] ds \<longleftrightarrow> ds = []"
| "frames_decode dec i container pos (f # fs) [] \<longleftrightarrow> False"
| "frames_decode dec i container pos (f # fs) (d # ds) \<longleftrightarrow>
     dec i (take (unat (snd f)) (drop pos container)) (fst f) = Inr d
     \<and> frames_decode dec i container (pos + unat (snd f)) fs ds"

lemma decode_frames_iff:
  "decode_frames dec i c pos fs out = Inr r \<longleftrightarrow> (\<exists>ds. frames_decode dec i c pos fs ds \<and> r = out @ concat ds)"
proof (induction dec i c pos fs out rule: decode_frames.induct)
  case (2 dec i c pos u l fs out)
  show ?case
  proof (cases "dec i (take (unat l) (drop pos c)) u")
    case (Inl e)
    have "\<not> frames_decode dec i c pos ((u, l) # fs) ds" for ds using Inl by (cases ds) auto
    with Inl show ?thesis by simp
  next
    case (Inr d)
    have "frames_decode dec i c pos ((u, l) # fs) ds
        \<longleftrightarrow> (\<exists>es. ds = d # es \<and> frames_decode dec i c (pos + unat l) fs es)" for ds
      using Inr by (cases ds) auto
    with 2 [OF Inr] Inr show ?thesis by auto
  qed
qed auto

lemma frames_decode_drop:
  "frames_decode dec i c pos fs ds \<Longrightarrow> frames_decode dec i c (pos + usum (map snd (take k fs))) (drop k fs) (drop k ds)"
proof (induction k arbitrary: pos fs ds)
  case (Suc k)
  show ?case
  proof (cases fs)
    case Nil
    with Suc.prems show ?thesis by simp
  next
    case (Cons f fs')
    with Suc.prems obtain d ds' where "ds = d # ds'" by (cases ds) auto
    with Cons Suc.prems Suc.IH [of "pos + unat (snd f)" fs' ds'] show ?thesis by (simp add: add.assoc)
  qed
qed simp

context sized_decompressor
begin

lemma frames_decode_lengths:
  "frames_decode decompress i c pos fs ds \<Longrightarrow> map length ds = map unat (map fst fs)"
proof (induction fs arbitrary: pos ds)
  case (Cons f fs)
  then show ?case by (cases ds) (auto dest: decompress_length)
qed simp

lemma frames_decode_total:
  "frames_decode decompress i c pos fs ds \<Longrightarrow> length (concat ds) = usum (map fst fs)"
  by (simp only: length_concat frames_decode_lengths)

text \<open>The loop of the windowed read, started at a frame that begins at \<open>cum\<close>: it never slices out of range and
  yields the part of the remaining plaintext that lies in the window.\<close>

lemma range_frames_slice:
  assumes "frames_decode decompress i c pos fs ds"
    and "cum \<le> off + len" "off + len \<le> cum + usum (map fst fs)" "cum + usum (map fst fs) < 2 ^ 64"
    and "fs \<noteq> [] \<Longrightarrow> off \<le> cum + unat (fst (hd fs))"
  shows "range_frames decompress i c off len pos cum fs out
    = Some (Inr (out @ take (off + len - max off cum) (drop (off - cum) (concat ds))))"
  using assms
proof (induction fs arbitrary: pos cum ds out)
  case Nil
  then show ?case by simp
next
  case (Cons f fs)
  obtain u l where f: "f = (u, l)" by (cases f)
  from Cons.prems(1) f obtain d ds' where ds: "ds = d # ds'"
    and d: "decompress i (take (unat l) (drop pos c)) u = Inr d"
    and rest: "frames_decode decompress i c (pos + unat l) fs ds'"
    by (cases ds) auto
  have ld: "length d = unat u" using decompress_length [OF d] .
  have b: "off \<le> cum + unat u" "off + len \<le> cum + (unat u + usum (map fst fs))"
      "cum + (unat u + usum (map fst fs)) < 2 ^ 64" "cum \<le> off + len"
    using Cons.prems f by simp_all
  have ar: "u64_add off len = off + len" "u64_sub (off + len) cum = off + len - cum"
      "u64_add cum (unat u) = cum + unat u"
    using b by (auto intro!: u64_add_exact u64_sub_exact)
  show ?case
  proof (cases "off + len \<le> cum + unat u")
    case True
    have "off + len - max off cum = off + len - cum - (off - cum)" using b by (simp add: max_def)
    moreover have "off + len - cum - (off - cum) \<le> unat u - (off - cum)" using True by simp
    moreover have "\<not> off + len - cum < off - cum" "\<not> unat u < off + len - cum"
      "min (off + len - cum) (unat u) = off + len - cum"
      using True by auto
    ultimately show ?thesis
      using True b d ld by (simp add: f ds ar Let_def)
  next
    case False
    have ih: "range_frames decompress i c off len (pos + unat l) (cum + unat u) fs o'
        = Some (Inr (o' @ take (off + len - (cum + unat u)) (concat ds')))" for o'
      using Cons.IH [OF rest, of "cum + unat u" o'] b False by (simp add: max_def)
    have "take (off + len - max off cum) (drop (off - cum) (d @ concat ds'))
        = drop (off - cum) d @ take (off + len - (cum + unat u)) (concat ds')"
      using b False ld by (auto simp: max_def add.commute)
    with False b d ld show ?thesis by (simp add: f ds ar ih Let_def)
  qed
qed

end

section \<open>Windowed reads\<close>

lemma usum_take_mono: "k \<le> m \<Longrightarrow> usum (take k ls) \<le> usum (take m ls)"
proof -
  assume "k \<le> m"
  then have "take m ls = take k ls @ take (m - k) (drop k ls)" by (metis le_add_diff_inverse take_add)
  then show ?thesis by simp
qed

lemma usum_split: "usum ls = usum (take k ls) + usum (drop k ls)"
  by (metis append_take_drop_id map_append sum_list_append)

text \<open>The frame found by the binary search starts at or before the offset, and the next one after it.\<close>

lemma frame_containing_bounds:
  assumes v: "valid_entries es" and off: "off \<le> usum (map fst es)"
  defines "k \<equiv> frame_containing (footer_of es) off"
  shows "k \<le> length es" and "usum (take k (map fst es)) \<le> off"
    and "k < length es \<Longrightarrow> off < usum (take (Suc k) (map fst es))"
proof -
  define g where "g = (\<lambda>k. usum (take k (map fst es)))"
  define ss where "ss = map g [0..<Suc (length es)]"
  have st: "starts (footer_of es) = ss" using footer_of_total(2) [OF v] by (simp add: ss_def g_def)
  define m where "m = length (takeWhile (\<lambda>s. s \<le> off) ss)"
  have kdef: "k = m - 1" by (simp add: k_def frame_containing_def st m_def)
  have ls: "length ss = Suc (length es)" by (simp add: ss_def)
  have nth: "ss ! j = g j" if "j \<le> length es" for j
    unfolding ss_def using that by (metis add_0 diff_zero le_imp_less_Suc length_upt nth_map nth_upt)
  have "m \<noteq> 0"
    using nth [of 0] ls by (cases ss) (auto simp: m_def g_def)
  then have mk: "m = Suc k" by (simp add: kdef)
  have "m \<le> length ss" by (simp add: m_def length_takeWhile_le)
  then show kl: "k \<le> length es" using ls mk by simp
  have "ss ! k \<le> off"
    using nth_mem [of k "takeWhile (\<lambda>s. s \<le> off) ss"] set_takeWhileD takeWhile_nth [of k "\<lambda>s. s \<le> off" ss] mk
    by (fastforce simp: m_def)
  then show "usum (take k (map fst es)) \<le> off" using nth [OF kl] by (simp add: g_def)
  show "off < usum (take (Suc k) (map fst es))" if "k < length es"
  proof -
    have "m < length ss" using that ls mk by simp
    then have "\<not> ss ! m \<le> off" unfolding m_def by (rule nth_length_takeWhile)
    with nth [of m] that mk show ?thesis by (simp add: g_def)
  qed
qed

context sized_decompressor
begin

text \<open>Where a windowed read starts: the frame that contains the offset, with the positions before it in the container
  and in the plaintext, and the frames from there on.\<close>

definition seeks_to :: "u8 \<Rightarrow> bytes \<Rightarrow> bytes \<Rightarrow> nat \<Rightarrow> seek_footer \<Rightarrow> nat \<Rightarrow> bytes list \<Rightarrow> bool" where
  "seeks_to i c full off f k ds \<longleftrightarrow>
     parse_footer c = Inr f \<and> total_uncomp f = length full \<and> length full < 2 ^ 32
     \<and> k = frame_containing f off \<and> uncomp_offset f k \<le> off
     \<and> frames_decode decompress i c (compressed_offset_of f k) (drop k (zip (uncomp_lens f) (comp_lens f))) ds
     \<and> uncomp_offset f k + usum (map fst (drop k (zip (uncomp_lens f) (comp_lens f)))) = length full
     \<and> compressed_offset_of f k + usum (map snd (drop k (zip (uncomp_lens f) (comp_lens f)))) \<le> length c
     \<and> concat ds = drop (uncomp_offset f k) full
     \<and> (drop k (zip (uncomp_lens f) (comp_lens f)) \<noteq> [] \<longrightarrow>
          off < uncomp_offset f k + unat (fst (hd (drop k (zip (uncomp_lens f) (comp_lens f))))))
     \<and> valid_entries (zip (uncomp_lens f) (comp_lens f)) \<and> length (uncomp_lens f) = length (comp_lens f)"

lemma seeks_toD:
  assumes "seeks_to i c full off f k ds"
  defines "es \<equiv> drop k (zip (uncomp_lens f) (comp_lens f))"
  shows "parse_footer c = Inr f" and "total_uncomp f = length full" and "length full < 2 ^ 32"
    and "k = frame_containing f off" and "uncomp_offset f k \<le> off"
    and "frames_decode decompress i c (compressed_offset_of f k) es ds"
    and "uncomp_offset f k + usum (map fst es) = length full"
    and "compressed_offset_of f k + usum (map snd es) \<le> length c"
    and "concat ds = drop (uncomp_offset f k) full"
    and "es \<noteq> [] \<Longrightarrow> off < uncomp_offset f k + unat (fst (hd es))"
    and "valid_entries (zip (uncomp_lens f) (comp_lens f))" and "length (uncomp_lens f) = length (comp_lens f)"
  using assms(1) unfolding seeks_to_def es_def by (blast+)

lemma decode_seekable_entries:
  assumes "decode_seekable decompress i c n = Inr full"
  obtains f es ds where "parse_footer c = Inr f" "valid_entries es" "f = footer_of es"
    "usum (map snd es) \<le> length c" "frames_decode decompress i c 0 es ds" "full = concat ds"
    "total_uncomp f = length full" "length full < 2 ^ 32"
proof -
  from assms obtain f where pf: "parse_footer c = Inr f" by (auto simp: decode_seekable_def split: sum.splits)
  then obtain body es where c: "c = body @ encode_footer es (word_of_nat (length es))" and v: "valid_entries es"
    and lb: "length body = usum (map snd es)" and f: "f = footer_of es" by (rule parse_footer_sound)
  have zp: "zip (uncomp_lens f) (comp_lens f) = es" by (simp add: f footer_of_def zip_map_fst_snd)
  from assms pf zp obtain ds where ds: "frames_decode decompress i c 0 es ds" and fl: "full = concat ds"
    by (auto simp: decode_seekable_def decode_frames_iff split: if_splits)
  have tot: "total_uncomp f = length full"
    using footer_of_total(1) [OF v] frames_decode_total [OF ds] by (simp add: f fl)
  have "total_uncomp f = unat n" using assms pf by (simp add: decode_seekable_def split: if_splits)
  then have cap: "length full < 2 ^ 32" using tot unat_u32_lt [of n] by simp
  show ?thesis
    by (rule that [OF pf v f _ ds fl tot cap]) (simp add: c lb)
qed

lemma decode_seekable_seeks:
  assumes "decode_seekable decompress i c n = Inr full" "off \<le> length full"
  obtains f k ds where "seeks_to i c full off f k ds"
proof -
  obtain f es ds where pf: "parse_footer c = Inr f" and v: "valid_entries es" and f: "f = footer_of es"
    and lc: "usum (map snd es) \<le> length c" and ds: "frames_decode decompress i c 0 es ds" and fl: "full = concat ds"
    and tot: "total_uncomp f = length full" and cap: "length full < 2 ^ 32"
    using decode_seekable_entries [OF assms(1)] by metis
  have zp: "zip (uncomp_lens f) (comp_lens f) = es" by (simp add: f footer_of_def zip_map_fst_snd)
  have us: "length full = usum (map fst es)" by (simp only: fl frames_decode_total [OF ds])
  define k where "k = frame_containing f off"
  have "off \<le> usum (map fst es)" using assms(2) us by linarith
  note kb = frame_containing_bounds [OF v this, folded f, folded k_def]
  define cum where "cum = usum (take k (map fst es))"
  have split: "cum + usum (map fst (drop k es)) = length full"
    using usum_split [of "map fst es" k] us by (simp only: cum_def drop_map)
  have cu: "uncomp_offset f k = cum"
    using footer_of_total(2) [OF v] kb(1) by (simp add: uncomp_offset_def f cum_def del: upt_Suc)
  have cp: "compressed_offset_of f k = usum (map snd (take k es))"
    by (simp add: compressed_offset_of_def f footer_of_def take_map)
  have cc: "usum (map snd (take k es)) + usum (map snd (drop k es)) \<le> length c"
    using lc usum_split [of "map snd es" k] by (simp only: drop_map take_map)
  have "map length (take k ds) = map unat (map fst (take k es))"
    using frames_decode_lengths [OF ds] by (metis take_map)
  then have "length (concat (take k ds)) = cum" by (simp only: length_concat cum_def take_map)
  moreover have "full = concat (take k ds) @ concat (drop k ds)" by (metis append_take_drop_id concat_append fl)
  ultimately have cd: "concat (drop k ds) = drop cum full" by simp
  have hd: "off < cum + unat (fst (hd (drop k es)))" if "drop k es \<noteq> []"
    using kb(3) that by (simp add: cum_def hd_drop_conv_nth take_Suc_conv_app_nth)
  have "seeks_to i c full off f k (drop k ds)"
    using pf tot cap kb(2) frames_decode_drop [OF ds, of k] split cc cd hd v
    by (simp add: seeks_to_def zp cu cp cum_def [symmetric] k_def [symmetric]) (simp add: f footer_of_def)
  then show ?thesis by (rule that)
qed

lemma decode_seekable_range_slice:
  assumes full: "decode_seekable decompress i c n = Inr full" and small: "unat off + len < 2 ^ 64"
  shows "decode_seekable_range decompress i c off len =
    (if unat off + len \<le> length full then Some (Inr (take len (drop (unat off) full)))
     else Some (Inl (Corrupt (SeekReason (SeekRangeOutside off len (length full))))))"
proof -
  note ar = u64_add_exact [OF small]
  show ?thesis
  proof (cases "unat off + len \<le> length full")
    case False
    obtain f where "parse_footer c = Inr f" "total_uncomp f = length full"
      using decode_seekable_entries [OF full] by metis
    with False show ?thesis by (simp add: decode_seekable_range_def ar Let_def)
  next
    case True
    then obtain f k ds where s: "seeks_to i c full (unat off) f k ds"
      using decode_seekable_seeks [OF full, of "unat off"] by auto
    define es where "es = drop k (zip (uncomp_lens f) (comp_lens f))"
    note s = seeks_toD [OF s, folded es_def]
    have "range_frames decompress i c (unat off) len (compressed_offset_of f k) (uncomp_offset f k) es []
        = Some (Inr ([] @ take (unat off + len - max (unat off) (uncomp_offset f k))
            (drop (unat off - uncomp_offset f k) (concat ds))))"
    proof (rule range_frames_slice [OF s(6)])
      show "uncomp_offset f k + usum (map fst es) < 2 ^ 64" unfolding s(7) using s(3) by simp
      show "unat off \<le> uncomp_offset f k + unat (fst (hd es))" if "es \<noteq> []" using s(10) [OF that] by simp
    qed (use s(5,7) True in linarith)+
    then have "range_frames decompress i c (unat off) len (compressed_offset_of f k) (uncomp_offset f k) es []
        = Some (Inr (take len (drop (unat off) full)))"
      using s(5) by (simp add: s(9))
    then show ?thesis
      using s(3) True by (simp add: decode_seekable_range_def s(1,2) ar Let_def s(4) [symmetric] es_def [symmetric])
  qed
qed

end

section \<open>Reading back what was encoded\<close>

definition frames_encode :: "(u8 \<Rightarrow> bytes \<Rightarrow> bytes outcome) \<Rightarrow> u8 \<Rightarrow> bytes list \<Rightarrow> bytes list \<Rightarrow> bool" where
  "frames_encode compress i = list_all2 (\<lambda>p x. compress i p = Inr x \<and> length x < 2 ^ 32)"

lemma encode_frames_sound:
  "encode_frames compress i ps body cls = Inr (b, cs) \<Longrightarrow>
     \<exists>xs. frames_encode compress i ps xs \<and> b = body @ concat xs \<and> cs = cls @ map (\<lambda>x. word_of_nat (length x)) xs"
proof (induction compress i ps body cls rule: encode_frames.induct)
  case (2 compress i p ps body cls)
  from "2.prems" obtain x n where x: "compress i p = Inr x" and n: "u32_try_from (length x) = Some n"
    and r: "encode_frames compress i ps (body @ x) (cls @ [n]) = Inr (b, cs)"
    by (auto split: sum.splits option.splits)
  from "2.IH" [OF x n r] obtain xs where "frames_encode compress i ps xs" "b = (body @ x) @ concat xs"
    "cs = (cls @ [n]) @ map (\<lambda>x. word_of_nat (length x)) xs" by blast
  with x n have "frames_encode compress i (p # ps) (x # xs) \<and> b = body @ concat (x # xs)
      \<and> cs = cls @ map (\<lambda>x. word_of_nat (length x)) (x # xs)"
    by (simp add: frames_encode_def u32_try_from_eq_Some)
  then show ?case by blast
qed (auto simp: frames_encode_def)

lemma frame_chunks_ok:
  "concat (frame_chunks p) = p" "frame_chunks p \<noteq> []"
  "f \<in> set (frame_chunks p) \<Longrightarrow> length f < 2 ^ 32"
  "f \<in> set (frame_chunks p) \<Longrightarrow> length (frame_chunks p) > 1 \<Longrightarrow> f \<noteq> []"
proof -
  show "concat (frame_chunks p) = p" by (simp add: frame_chunks_def)
  show "frame_chunks p \<noteq> []" by (cases p) (simp_all add: frame_chunks_def SEEKABLE_FRAME_SIZE_def)
  show "length f < 2 ^ 32" if "f \<in> set (frame_chunks p)"
    using that chunks_length_le [of SEEKABLE_FRAME_SIZE f p]
    by (fastforce simp: frame_chunks_def SEEKABLE_FRAME_SIZE_def split: if_splits)
  show "f \<noteq> []" if "f \<in> set (frame_chunks p)" "length (frame_chunks p) > 1"
    using that chunks_length_le [of SEEKABLE_FRAME_SIZE f p]
    by (fastforce simp: frame_chunks_def SEEKABLE_FRAME_SIZE_def split: if_splits)
qed

context codec_contract
begin

lemma frames_decode_encode:
  assumes "frames_encode compress i ps xs" "\<forall>p \<in> set ps. length p < 2 ^ 32"
  shows "frames_decode decompress i (pre @ concat xs @ t) (length pre)
    (zip (map (\<lambda>p. word_of_nat (length p)) ps) (map (\<lambda>x. word_of_nat (length x)) xs)) ps"
  using assms unfolding frames_encode_def
proof (induction ps xs arbitrary: pre rule: list_all2_induct)
  case (Cons p ps x xs)
  have "decompress i x (word_of_nat (length p)) = Inr p" using Cons.hyps(1) Cons.prems decompress_compress by simp
  moreover have "length pre + length x = length (pre @ x)" by simp
  ultimately show ?case using Cons.IH [of "pre @ x"] Cons.hyps(1) Cons.prems
    by (simp del: length_append)
qed simp

lemma decode_encode_seekable:
  assumes enc: "encode_seekable compress i p = Some (Inr c)" and len: "length p < 2 ^ 32"
  shows "decode_seekable decompress i c (word_of_nat (length p)) = Inr p"
proof -
  define ps where "ps = frame_chunks p"
  note pk = frame_chunks_ok [where p = p, folded ps_def]
  from enc obtain b cs where ef: "encode_frames compress i ps [] [] = Inr (b, cs)" and n: "length ps < 2 ^ 32"
    and c: "c = b @ encode_footer (zip (map (\<lambda>f. word_of_nat (length f)) ps) cs) (word_of_nat (length ps))"
    by (auto simp: encode_seekable_def ps_def Let_def u32_try_from_eq_Some split: sum.splits option.splits)
  from encode_frames_sound [OF ef] obtain xs where fe: "frames_encode compress i ps xs" and b: "b = concat xs"
    and cs: "cs = map (\<lambda>x. word_of_nat (length x)) xs" by auto
  define es where "es = zip (map (\<lambda>f. word_of_nat (length f) :: u32) ps) cs"
  have lx: "length xs = length ps" and sx: "\<forall>x \<in> set xs. length x < 2 ^ 32"
    using fe by (auto simp: frames_encode_def list_all2_conv_all_nth in_set_conv_nth)
  have le: "length es = length ps" by (simp add: es_def cs lx)
  have fs: "map fst es = map (\<lambda>f. word_of_nat (length f)) ps" "map snd es = cs"
    using lx by (simp_all add: es_def cs)
  have us: "usum (map fst es) = length p"
  proof -
    have "usum (map fst es) = sum_list (map length ps)" unfolding fs(1) map_map comp_def
      using pk(3) by (intro arg_cong [where f = sum_list] map_cong) auto
    then show ?thesis by (metis length_concat pk(1))
  qed
  have uc: "usum (map snd es) = length b" unfolding fs(2) cs map_map comp_def b length_concat
    using sx by (intro arg_cong [where f = sum_list] map_cong) auto
  have "fst e \<noteq> 0" if "e \<in> set es" "length ps > 1" for e
  proof -
    from that(1) have "fst e \<in> set (map fst es)" by simp
    then obtain f where f: "f \<in> set ps" "fst e = word_of_nat (length f)" unfolding fs(1) by auto
    with pk(3,4) that(2) have "unat (fst e) = length f" "f \<noteq> []" by auto
    then show ?thesis by (metis length_0_conv unsigned_0)
  qed
  then have v: "valid_entries es" using n le pk(2) by (auto simp: valid_entries_def)
  have pf: "parse_footer c = Inr (footer_of es)"
    using parse_footer_complete [OF v uc [symmetric]] by (simp add: c es_def [symmetric] le)
  have "frames_decode decompress i ([] @ concat xs @ encode_footer es (word_of_nat (length ps))) (length ([] :: bytes)) es ps"
    unfolding es_def cs by (rule frames_decode_encode [OF fe]) (use pk(3) in auto)
  then have "frames_decode decompress i c 0 es ps" by (simp add: c b es_def [symmetric])
  then have "decode_frames decompress i c 0 es [] = Inr p" using pk(1) by (auto simp: decode_frames_iff)
  moreover have "zip (uncomp_lens (footer_of es)) (comp_lens (footer_of es)) = es"
    by (simp add: footer_of_def zip_map_fst_snd)
  ultimately show ?thesis
    using len us footer_of_total(1) [OF v] by (simp add: decode_seekable_def pf)
qed

end

section \<open>Properties\<close>


text \<open>Two store frames of three and two bytes.\<close>

definition two_frames :: bytes where
  "two_frames = [1, 2, 3, 4, 5] @ encode_footer [(3, 3), (2, 2)] 2"

lemma two_frames_decode:
  "decode_seekable (registry_decompress [store_codec]) CODEC_STORE two_frames 5 = Inr [1, 2, 3, 4, 5]"
proof -
  have "valid_entries [(3, 3), (2, 2)]" by (simp add: valid_entries_def)
  from parse_footer_complete [OF this, of "[1, 2, 3, 4, 5]"]
  have "parse_footer two_frames = Inr (footer_of [(3, 3), (2, 2)])" by (simp add: two_frames_def)
  then show ?thesis
    by (simp add: decode_seekable_def footer_of_def u64_add_def registry_decompress_def registry_find_def
        store_codec_def two_frames_def)
qed


text \<open>C31. What the encoder writes, the decoder reads: with lawful codecs a container encoded from a plaintext
  decodes, under the plaintext's length, to that plaintext.\<close>

theorem seekable_round_trip:
  assumes "\<forall>c \<in> set r. codec_ok c" "encode_seekable (registry_compress_with_tunables r t) i p = Some (Inr container)"
    and "length p < 2 ^ 32"
  shows "decode_seekable (registry_decompress r) i container (word_of_nat (length p)) = Inr p"
  by (rule codec_contract.decode_encode_seekable [OF registry_tunables_contract [OF assms(1)] assms(2,3)])

lemma small_container:
  "encode_seekable (registry_compress_with_tunables [store_codec] tunables_default) CODEC_STORE [7, 8, 9]
    = Some (Inr ([7, 8, 9] @ encode_footer [(3, 3)] 1))"
  by (simp add: encode_seekable_def frame_chunks_def SEEKABLE_FRAME_SIZE_def registry_compress_with_tunables_def
      registry_find_def store_codec_def ignore_tunables_def)

theorem seekable_round_trip_witness:
  "decode_seekable (registry_decompress [store_codec]) CODEC_STORE ([7, 8, 9] @ encode_footer [(3, 3)] 1) 3
    = Inr [7, 8, 9]"
  using seekable_round_trip [OF _ small_container] by (simp add: store_codec_ok)

text \<open>The footer parser accepts a container exactly when it ends in a table of frame lengths whose
  compressed sizes add up to the bytes before the table, with no empty frame among several.\<close>

theorem seekable_footer_accepts_iff:
  "parse_footer container = Inr f \<longleftrightarrow>
     (\<exists>body es. container = body @ encode_footer es (word_of_nat (length es)) \<and> valid_entries es
        \<and> length body = usum (map snd es) \<and> f = footer_of es)"
  using parse_footer_complete by (metis parse_footer_sound sum.inject(2))

section \<open>A container the windowed read panics on\<close>

text \<open>A filter composite does not look at the expected length. A single composite frame of one stored byte
  whose table entry claims five plaintext bytes passes the footer check; a window of the last bytes then slices
  past the decoded frame.\<close>

definition composite_registry :: codec_registry where
  "composite_registry = [store_codec,
     filter_codec_composite (registry_compress [store_codec]) (registry_decompress [store_codec])
       \<lparr>bf_encode = id, bf_decode = id\<rparr> CODEC_STORE 0x30 ''composite'' 0]"

lemma seekable_composite_panics:
  "decode_seekable_range (registry_decompress composite_registry) 0x30 ([1, 0, 0, 0, 9] @ encode_footer [(5, 5)] 1) 3 2
    = None"
proof -
  have "valid_entries [(5, 5)]" by (simp add: valid_entries_def)
  from parse_footer_complete [OF this, of "[1, 0, 0, 0, 9]"]
  have "parse_footer ([1, 0, 0, 0, 9] @ encode_footer [(5, 5)] 1) = Inr (footer_of [(5, 5)])" by simp
  then show ?thesis
    by (simp add: decode_seekable_range_def footer_of_def u64_add_def u64_sub_def frame_containing_def uncomp_offset_def
        compressed_offset_of_def composite_registry_def registry_decompress_def registry_find_def store_codec_def
        CODEC_STORE_def filter_codec_composite_def decompress_then_filter_def u32_from_le_bytes_def)
qed

end
