(* ===== verification/Slab_Reader.thy ===== *)
theory Slab_Reader
  imports Slab Seekable
begin

text \<open>
  The slab reader (\<open>limnifs-core/src/slab_reader.rs\<close>): the walk over the drop records that finds the solid window,
  the lookup of a drop, and the decoding of a whole drop or of a window of it. \<open>dec\<close> is \<open>codec::decompress\<close> and
  \<open>ddec\<close> the dictionary decompression of the zstd crate.
\<close>

type_synonym dict_decompressor = "bytes \<Rightarrow> u32 \<Rightarrow> bytes \<Rightarrow> bytes outcome"

record slab_view =
  sv_bytes :: bytes
  sv_header :: slab_header
  sv_drop_records :: "drop_record list"
  sv_solid_window_start :: nat

section \<open>Walking the records\<close>

function slab_records :: "slab_header \<Rightarrow> cursor \<Rightarrow> nat \<Rightarrow> drop_record list \<Rightarrow> (drop_record list \<times> cursor) outcome" where
  "slab_records header c window_len_sum recs =
     (let total = unat (sh_total_length header) in
      if total < cur_pos c
      then Inl (Corrupt (SlabReason (SlabCursorPastEnd (cur_pos c) (sh_total_length header)))) else
      let remaining_after_cursor = total - cur_pos c in
      if remaining_after_cursor = window_len_sum then Inr (recs, c) else
      if remaining_after_cursor < window_len_sum
      then Inl (Corrupt (SlabReason (SlabRecordsOverran (cur_pos c) window_len_sum (sh_total_length header)))) else
      let trailing = remaining_after_cursor - window_len_sum in
      if trailing < DROP_RECORD_LEN then Inl (Corrupt (SlabReason (SlabTrailingBytes trailing))) else
      case parse_drop_record header c of
        Inl e \<Rightarrow> Inl e
      | Inr (r, c') \<Rightarrow>
          if window_len_sum + unat (dr_len_in_window r) \<ge> 2 ^ 64
          then Inl (Corrupt (SlabReason (SlabWindowSumOverflow (length recs))))
          else slab_records header c' (window_len_sum + unat (dr_len_in_window r)) (recs @ [r]))"
  by pat_completeness auto

termination
proof (relation "measure (\<lambda>(header, c, _, _). unat (sh_total_length header) - cur_pos c)", goal_cases)
  case (2 header c window_len_sum recs x xa xb xc r c')
  then have "cur_pos c' = cur_pos c + DROP_RECORD_LEN"
    using advances_drop_record by (fastforce simp: advances_def)
  with 2 show ?case by (simp add: DROP_RECORD_LEN_def)
qed simp

declare slab_records.simps [simp del]

definition parse_slab :: "bytes \<Rightarrow> slab_view outcome" where
  "parse_slab bs =
     (case parse_slab_header (cursor_new bs) of
        Inl e \<Rightarrow> Inl e
      | Inr (header, c) \<Rightarrow>
          if unat (sh_total_length header) \<noteq> length bs
          then Inl (Corrupt (SlabReason (SlabLengthMismatch (unat (sh_total_length header)) (length bs))))
          else (case slab_records header c 0 [] of
                  Inl e \<Rightarrow> Inl e
                | Inr (recs, c') \<Rightarrow>
                    Inr \<lparr>sv_bytes = bs, sv_header = header, sv_drop_records = recs,
                         sv_solid_window_start = cur_pos c'\<rparr>))"

section \<open>Reading a drop\<close>

definition find_record :: "slab_view \<Rightarrow> bytes \<Rightarrow> drop_record option" where
  "find_record v drop_id = find (\<lambda>r. dr_drop_id r = drop_id) (sv_drop_records v)"

definition check_drop_readable :: "drop_record \<Rightarrow> unit outcome" where
  "check_drop_readable r =
     (if aead (dr_representation r) \<noteq> 0 then Inl (UnsupportedFeature (DropAead (aead (dr_representation r))))
      else if dr_solid_window_index r \<noteq> 0
      then Inl (UnsupportedFeature (SolidWindowIndex (dr_solid_window_index r)))
      else Inr ())"

definition is_seekable_record :: "drop_record \<Rightarrow> bool" where
  "is_seekable_record r \<longleftrightarrow> and (dr_flags r) DROP_FLAG_SEEKABLE \<noteq> 0"

definition decode_drop_bytes ::
    "decompressor \<Rightarrow> dict_decompressor \<Rightarrow> drop_record \<Rightarrow> bytes \<Rightarrow> (u8 \<Rightarrow> bytes option) \<Rightarrow> bytes outcome" where
  "decode_drop_bytes dec ddec r raw dict_lookup =
     (if is_seekable_record r then
        if dr_dict_id r \<noteq> NO_DICT then Inl (UnsupportedFeature SeekableWithDictionary)
        else decode_seekable dec (codec (dr_representation r)) raw (dr_plaintext_len r)
      else if dr_dict_id r = NO_DICT then dec (codec (dr_representation r)) raw (dr_plaintext_len r)
      else (case dict_lookup (dr_dict_id r) of
              None \<Rightarrow> Inl (Corrupt (DropReason (DropDictMissing (dr_dict_id r))))
            | Some dict \<Rightarrow> ddec raw (dr_plaintext_len r) dict))"

definition drop_window_bounds :: "slab_view \<Rightarrow> drop_record \<Rightarrow> (nat \<times> nat) outcome" where
  "drop_window_bounds v r =
     (case usize_checked_add (sv_solid_window_start v) (unat (dr_offset_in_window r)) of
        None \<Rightarrow> Inl (Corrupt (ReasonText ''drop window start overflows usize''))
      | Some start \<Rightarrow>
          (case usize_checked_add start (unat (dr_len_in_window r)) of
             None \<Rightarrow> Inl (Corrupt (ReasonText ''drop window end overflows usize''))
           | Some stop \<Rightarrow>
               if stop > length (sv_bytes v)
               then Inl (Corrupt (DropReason (DropRangePastSlab start stop (length (sv_bytes v)))))
               else Inr (start, stop)))"

definition plaintext_for_with_dict_lookup ::
    "decompressor \<Rightarrow> dict_decompressor \<Rightarrow> slab_view \<Rightarrow> bytes \<Rightarrow> (u8 \<Rightarrow> bytes option) \<Rightarrow> bytes outcome option" where
  "plaintext_for_with_dict_lookup dec ddec v drop_id dict_lookup = do {
     record \<leftarrow> find_record v drop_id;
     (case check_drop_readable record of
        Inl e \<Rightarrow> Some (Inl e)
      | Inr _ \<Rightarrow> do {
          start \<leftarrow> usize_checked_add (sv_solid_window_start v) (unat (dr_offset_in_window record));
          stop \<leftarrow> usize_checked_add start (unat (dr_len_in_window record));
          (if stop > length (sv_bytes v)
           then Some (Inl (Corrupt (DropReason (DropRangePastSlab start stop (length (sv_bytes v))))))
           else Some (decode_drop_bytes dec ddec record (take (stop - start) (drop start (sv_bytes v))) dict_lookup))
        })
   }"

definition plaintext_for :: "decompressor \<Rightarrow> dict_decompressor \<Rightarrow> slab_view \<Rightarrow> bytes \<Rightarrow> bytes outcome option" where
  "plaintext_for dec ddec v drop_id = plaintext_for_with_dict_lookup dec ddec v drop_id (\<lambda>_. None)"

text \<open>The outer \<^const>\<open>None\<close> is a panic, the inner one an absent drop.\<close>

definition slice_plaintext :: "u64 \<Rightarrow> nat \<Rightarrow> bytes \<Rightarrow> bytes outcome option" where
  "slice_plaintext off len bs =
     (if unat off > length bs \<or> u64_add (unat off) len > length bs
      then Some (Inl (Corrupt (DropReason (DropRangeOutside off len (length bs)))))
      else if u64_add (unat off) len < unat off then None
      else Some (Inr (take len (drop (unat off) bs))))"

definition plaintext_range ::
    "decompressor \<Rightarrow> dict_decompressor \<Rightarrow> slab_view \<Rightarrow> bytes \<Rightarrow> u64 \<Rightarrow> nat \<Rightarrow> bytes outcome option option" where
  "plaintext_range dec ddec v drop_id off len =
     (case find_record v drop_id of
        None \<Rightarrow> Some None
      | Some record \<Rightarrow>
          if is_seekable_record record then
            (case drop_window_bounds v record of
               Inl e \<Rightarrow> Some (Some (Inl e))
             | Inr (offset, stop) \<Rightarrow>
                 map_option Some (decode_seekable_range dec (codec (dr_representation record))
                   (take (stop - offset) (drop offset (sv_bytes v))) off len))
          else
            (case plaintext_for dec ddec v drop_id of
               None \<Rightarrow> Some None
             | Some (Inl e) \<Rightarrow> Some (Some (Inl e))
             | Some (Inr bs) \<Rightarrow> map_option Some (slice_plaintext off len bs)))"

section \<open>What a parsed slab satisfies\<close>

text \<open>The layout the walk establishes: the records stand right after the header, and the window lengths add up to
  the bytes behind them.\<close>

definition slab_layout :: "slab_view \<Rightarrow> bool" where
  "slab_layout v \<longleftrightarrow>
     valid_slab_header DEFAULT_SLAB_MAX_BYTES (sv_header v)
     \<and> (\<forall>r \<in> set (sv_drop_records v). valid_drop_record (sv_header v) DEFAULT_DROP_MAX_PLAINTEXT_BYTES r)
     \<and> sv_solid_window_start v = SLAB_HEADER_LEN + DROP_RECORD_LEN * length (sv_drop_records v)
     \<and> (\<exists>window. sv_bytes v = encode_slab_header (sv_header v)
            @ concat (map encode_drop_record (sv_drop_records v)) @ window
          \<and> length window = sum_list (map (\<lambda>r. unat (dr_len_in_window r)) (sv_drop_records v)))
     \<and> length (sv_bytes v) = unat (sh_total_length (sv_header v))"

abbreviation window_sum :: "drop_record list \<Rightarrow> nat" where
  "window_sum rs \<equiv> sum_list (map (\<lambda>r. unat (dr_len_in_window r)) rs)"

lemma length_encode_slab_header: "valid_slab_header m h \<Longrightarrow> length (encode_slab_header h) = SLAB_HEADER_LEN"
  by (simp add: valid_slab_header_def encode_slab_header_def SLAB_HEADER_LEN_def)

lemma length_encode_records:
  "\<forall>r \<in> set rs. valid_drop_record h m r \<Longrightarrow> length (concat (map encode_drop_record rs)) = DROP_RECORD_LEN * length rs"
  by (rule length_concat_map_const) (auto intro: length_encode_drop_record)

text \<open>The walk, run on a cursor that stands behind the records read so far.\<close>

lemma slab_records_sound:
  assumes "slab_records h c s acc = Inr (rs, c')" "wf_cursor c"
  shows "\<exists>new rest. rs = acc @ new \<and> (\<forall>r \<in> set new. valid_drop_record h DEFAULT_DROP_MAX_PLAINTEXT_BYTES r)
    \<and> remaining c = concat (map encode_drop_record new) @ rest
    \<and> c' = c\<lparr>cur_pos := cur_pos c + DROP_RECORD_LEN * length new\<rparr>
    \<and> cur_pos c' \<le> unat (sh_total_length h)
    \<and> unat (sh_total_length h) - cur_pos c' = s + window_sum new"
  using assms
proof (induction h c s acc rule: slab_records.induct)
  case (1 h c s acc)
  show ?case
  proof (cases "unat (sh_total_length h) - cur_pos c = s \<and> cur_pos c \<le> unat (sh_total_length h)")
    case True
    with "1.prems"(1) have "rs = acc" "c' = c" by (auto simp: slab_records.simps [of h c s acc] Let_def)
    with True show ?thesis by (intro exI [of _ "[]"] exI [of _ "remaining c"]) auto
  next
    case False
    with "1.prems"(1) obtain r c1 where p: "parse_drop_record h c = Inr (r, c1)"
      and run: "slab_records h c1 (s + unat (dr_len_in_window r)) (acc @ [r]) = Inr (rs, c')"
      and g: "cur_pos c \<le> unat (sh_total_length h)" "\<not> unat (sh_total_length h) - cur_pos c < s"
        "\<not> unat (sh_total_length h) - cur_pos c - s < DROP_RECORD_LEN"
        "\<not> s + unat (dr_len_in_window r) \<ge> 2 ^ 64"
      by (subst (asm) slab_records.simps) (auto simp: Let_def split: if_splits sum.splits)
    from preadsE [OF preads_drop_record "1.prems"(2) p [unfolded parse_drop_record_def]] obtain b rest
      where "remaining c = b @ rest"
        "valid_drop_record h DEFAULT_DROP_MAX_PLAINTEXT_BYTES r \<and> Some (encode_drop_record r) = Some b"
        "c1 = c\<lparr>cur_pos := cur_pos c + length b\<rparr>" .
    then have b: "remaining c = b @ rest" "valid_drop_record h DEFAULT_DROP_MAX_PLAINTEXT_BYTES r"
        "b = encode_drop_record r" "c1 = c\<lparr>cur_pos := cur_pos c + length b\<rparr>" by auto
    have wf1: "wf_cursor c1" and rem1: "remaining c1 = rest"
      using wf_cursor_advance [OF "1.prems"(2) b(1)] b(4) by auto
    have lb: "length b = DROP_RECORD_LEN" using b(2,3) length_encode_drop_record by blast
    have ih: "\<exists>new rest. rs = (acc @ [r]) @ new \<and> (\<forall>r \<in> set new. valid_drop_record h DEFAULT_DROP_MAX_PLAINTEXT_BYTES r)
        \<and> remaining c1 = concat (map encode_drop_record new) @ rest
        \<and> c' = c1\<lparr>cur_pos := cur_pos c1 + DROP_RECORD_LEN * length new\<rparr>
        \<and> cur_pos c' \<le> unat (sh_total_length h)
        \<and> unat (sh_total_length h) - cur_pos c' = s + unat (dr_len_in_window r) + window_sum new"
      by (rule "1.IH" [OF refl _ refl _ _ refl _ p refl _ run wf1]) (use False g in auto)
    then obtain new rest1 where n: "rs = (acc @ [r]) @ new"
      "\<forall>r \<in> set new. valid_drop_record h DEFAULT_DROP_MAX_PLAINTEXT_BYTES r"
      "remaining c1 = concat (map encode_drop_record new) @ rest1"
      "c' = c1\<lparr>cur_pos := cur_pos c1 + DROP_RECORD_LEN * length new\<rparr>" "cur_pos c' \<le> unat (sh_total_length h)"
      "unat (sh_total_length h) - cur_pos c' = s + unat (dr_len_in_window r) + window_sum new" by blast
    have "remaining c = concat (map encode_drop_record (r # new)) @ rest1" using b n rem1 by simp
    moreover have "c' = c\<lparr>cur_pos := cur_pos c + DROP_RECORD_LEN * length (r # new)\<rparr>"
      using n(4) b(4) lb by (simp add: algebra_simps)
    ultimately show ?thesis using n b(2) by (intro exI [of _ "r # new"] exI [of _ rest1]) auto
  qed
qed

lemma slab_records_complete:
  assumes "\<forall>r \<in> set new. valid_drop_record h DEFAULT_DROP_MAX_PLAINTEXT_BYTES r"
    and "unat (sh_total_length h) = length pre + DROP_RECORD_LEN * length new + s + window_sum new"
    and "length (pre @ concat (map encode_drop_record new) @ rest) < usize_bound"
  shows "slab_records h \<lparr>cur_bytes = pre @ concat (map encode_drop_record new) @ rest, cur_pos = length pre\<rparr> s acc
    = Inr (acc @ new, \<lparr>cur_bytes = pre @ concat (map encode_drop_record new) @ rest,
        cur_pos = length pre + DROP_RECORD_LEN * length new\<rparr>)"
  using assms
proof (induction new arbitrary: pre s acc)
  case Nil
  then show ?case by (simp add: slab_records.simps)
next
  case (Cons r new)
  let ?b = "encode_drop_record r" and ?bs = "concat (map encode_drop_record new)"
  have v: "valid_drop_record h DEFAULT_DROP_MAX_PLAINTEXT_BYTES r" using Cons.prems(1) by simp
  have lb: "length ?b = DROP_RECORD_LEN" by (rule length_encode_drop_record [OF v])
  have p: "parse_drop_record h \<lparr>cur_bytes = pre @ ?b @ ?bs @ rest, cur_pos = length pre\<rparr>
      = Inr (r, \<lparr>cur_bytes = pre @ ?b @ ?bs @ rest, cur_pos = length pre + length ?b\<rparr>)"
    unfolding parse_drop_record_def
    using Cons.prems(3) by (intro parsesD [OF parses_drop_record [OF v]]) simp
  have t: "unat (sh_total_length h) = length (pre @ ?b) + DROP_RECORD_LEN * length new
      + (s + unat (dr_len_in_window r)) + window_sum new"
    using Cons.prems(2) lb by simp
  have small: "s + unat (dr_len_in_window r) < 2 ^ 64" using t unat_u64_lt [of "sh_total_length h"] by simp
  have "slab_records h \<lparr>cur_bytes = pre @ ?b @ ?bs @ rest, cur_pos = length pre\<rparr> s acc
      = slab_records h \<lparr>cur_bytes = (pre @ ?b) @ ?bs @ rest, cur_pos = length (pre @ ?b)\<rparr>
          (s + unat (dr_len_in_window r)) (acc @ [r])"
    using t small p lb by (subst slab_records.simps) (simp add: Let_def DROP_RECORD_LEN_def)
  also have "\<dots> = Inr ((acc @ [r]) @ new, \<lparr>cur_bytes = (pre @ ?b) @ ?bs @ rest,
      cur_pos = length (pre @ ?b) + DROP_RECORD_LEN * length new\<rparr>)"
    using Cons.prems by (intro Cons.IH t) auto
  finally show ?case using lb by (simp add: algebra_simps)
qed

lemma parse_slab_layout: "parse_slab bs = Inr v \<longleftrightarrow> sv_bytes v = bs \<and> slab_layout v"
proof
  assume run: "parse_slab bs = Inr v"
  then obtain h c rs c' where h: "parse_slab_header (cursor_new bs) = Inr (h, c)"
    and len: "unat (sh_total_length h) = length bs" and r: "slab_records h c 0 [] = Inr (rs, c')"
    and v: "v = \<lparr>sv_bytes = bs, sv_header = h, sv_drop_records = rs, sv_solid_window_start = cur_pos c'\<rparr>"
    by (auto simp: parse_slab_def split: sum.splits if_splits)
  have wf: "wf_cursor (cursor_new bs)" by (simp add: wf_cursor_def cursor_new_def)
  from preadsE [OF preads_slab_header wf h [unfolded parse_slab_header_def]] obtain b rest
    where "remaining (cursor_new bs) = b @ rest"
      "valid_slab_header DEFAULT_SLAB_MAX_BYTES h \<and> Some (encode_slab_header h) = Some b"
      "c = (cursor_new bs)\<lparr>cur_pos := cur_pos (cursor_new bs) + length b\<rparr>" .
  then have b: "remaining (cursor_new bs) = b @ rest" "valid_slab_header DEFAULT_SLAB_MAX_BYTES h"
      "b = encode_slab_header h" "c = (cursor_new bs)\<lparr>cur_pos := cur_pos (cursor_new bs) + length b\<rparr>" by auto
  have wfc: "wf_cursor c" and rem: "remaining c = rest" using wf_cursor_advance [OF wf b(1)] b(4) by auto
  from slab_records_sound [OF r wfc] obtain w where
    s: "\<forall>r \<in> set rs. valid_drop_record h DEFAULT_DROP_MAX_PLAINTEXT_BYTES r"
      "remaining c = concat (map encode_drop_record rs) @ w"
      "c' = c\<lparr>cur_pos := cur_pos c + DROP_RECORD_LEN * length rs\<rparr>"
      "cur_pos c' \<le> unat (sh_total_length h)" "unat (sh_total_length h) - cur_pos c' = window_sum rs"
    by auto
  have bs: "bs = encode_slab_header h @ concat (map encode_drop_record rs) @ w"
    using b(1,3) rem s(2) by (simp add: remaining_def cursor_new_def)
  have cp: "cur_pos c' = SLAB_HEADER_LEN + DROP_RECORD_LEN * length rs"
    using s(3) b(4,3) length_encode_slab_header [OF b(2)] by (simp add: cursor_new_def)
  have "length w = window_sum rs"
    using arg_cong [OF bs, of length] s(4,5) len cp length_encode_slab_header [OF b(2)] length_encode_records [OF s(1)]
    by simp
  with bs b(2) s(1) cp len show "sv_bytes v = bs \<and> slab_layout v" by (auto simp: v slab_layout_def)
next
  assume "sv_bytes v = bs \<and> slab_layout v"
  then obtain w where bs: "sv_bytes v = bs" and vh: "valid_slab_header DEFAULT_SLAB_MAX_BYTES (sv_header v)"
    and rv: "\<forall>r \<in> set (sv_drop_records v). valid_drop_record (sv_header v) DEFAULT_DROP_MAX_PLAINTEXT_BYTES r"
    and st: "sv_solid_window_start v = SLAB_HEADER_LEN + DROP_RECORD_LEN * length (sv_drop_records v)"
    and e: "bs = encode_slab_header (sv_header v) @ concat (map encode_drop_record (sv_drop_records v)) @ w"
    and lw: "length w = window_sum (sv_drop_records v)" and len: "length bs = unat (sh_total_length (sv_header v))"
    by (auto simp: slab_layout_def)
  let ?h = "sv_header v" and ?rs = "concat (map encode_drop_record (sv_drop_records v))"
  have small: "length bs < usize_bound" using len unat_u64_lt [of "sh_total_length ?h"] by simp
  note lh = length_encode_slab_header [OF vh] and lr = length_encode_records [OF rv]
  have "parse_slab_header (cursor_new bs) = Inr (?h, \<lparr>cur_bytes = bs, cur_pos = SLAB_HEADER_LEN\<rparr>)"
    unfolding parse_slab_header_def
    using slab_header.parse_new [OF vh refl, of "?rs @ w"] small e lh by simp
  moreover have "slab_records ?h \<lparr>cur_bytes = bs, cur_pos = SLAB_HEADER_LEN\<rparr> 0 []
      = Inr (sv_drop_records v, \<lparr>cur_bytes = bs, cur_pos = sv_solid_window_start v\<rparr>)"
    using slab_records_complete [OF rv, of "encode_slab_header ?h" 0 w "[]"] small len lw st lh lr
    unfolding e by simp
  moreover have "\<lparr>sv_bytes = sv_bytes v, sv_header = sv_header v, sv_drop_records = sv_drop_records v,
      sv_solid_window_start = sv_solid_window_start v\<rparr> = v" by simp
  ultimately show "parse_slab bs = Inr v" using len by (simp add: parse_slab_def bs)
qed


section \<open>Whole drops and windows of drops\<close>

text \<open>The bytes of a record: what the readers cut out of the slab when its range lies inside.\<close>

definition window_bytes :: "slab_view \<Rightarrow> drop_record \<Rightarrow> bytes" where
  "window_bytes v r = take (unat (dr_len_in_window r))
     (drop (sv_solid_window_start v + unat (dr_offset_in_window r)) (sv_bytes v))"

definition in_window :: "slab_view \<Rightarrow> drop_record \<Rightarrow> bool" where
  "in_window v r \<longleftrightarrow>
     sv_solid_window_start v + unat (dr_offset_in_window r) + unat (dr_len_in_window r) \<le> length (sv_bytes v)
     \<and> length (sv_bytes v) < usize_bound"

lemma drop_window_bounds_in:
  "in_window v r \<Longrightarrow> drop_window_bounds v r = Inr (sv_solid_window_start v + unat (dr_offset_in_window r),
     sv_solid_window_start v + unat (dr_offset_in_window r) + unat (dr_len_in_window r))"
  by (simp add: in_window_def drop_window_bounds_def usize_checked_add_def)

lemma plaintext_for_in:
  "find_record v i = Some r \<Longrightarrow> in_window v r \<Longrightarrow> plaintext_for_with_dict_lookup dec ddec v i dl =
     Some (case check_drop_readable r of Inl e \<Rightarrow> Inl e | Inr _ \<Rightarrow> decode_drop_bytes dec ddec r (window_bytes v r) dl)"
  by (simp add: plaintext_for_with_dict_lookup_def in_window_def usize_checked_add_def window_bytes_def
      split: sum.splits)

lemma plaintext_for_Inr:
  assumes "length (sv_bytes v) < usize_bound"
  shows "plaintext_for_with_dict_lookup dec ddec v i dl = Some (Inr p) \<longleftrightarrow>
    (\<exists>r. find_record v i = Some r \<and> check_drop_readable r = Inr () \<and> in_window v r
       \<and> decode_drop_bytes dec ddec r (window_bytes v r) dl = Inr p)"
proof
  assume "plaintext_for_with_dict_lookup dec ddec v i dl = Some (Inr p)"
  then obtain r where "find_record v i = Some r" "check_drop_readable r = Inr ()" and w: "in_window v r"
    using assms by (auto simp: plaintext_for_with_dict_lookup_def in_window_def usize_checked_add_def
        split: sum.splits option.splits if_splits bind_splits)
  moreover have "decode_drop_bytes dec ddec r (window_bytes v r) dl = Inr p"
    using plaintext_for_in [OF \<open>find_record v i = Some r\<close> w, of dec ddec dl] \<open>check_drop_readable r = Inr ()\<close>
      \<open>plaintext_for_with_dict_lookup dec ddec v i dl = Some (Inr p)\<close> by simp
  ultimately show "\<exists>r. find_record v i = Some r \<and> check_drop_readable r = Inr () \<and> in_window v r
       \<and> decode_drop_bytes dec ddec r (window_bytes v r) dl = Inr p" by blast
next
  assume "\<exists>r. find_record v i = Some r \<and> check_drop_readable r = Inr () \<and> in_window v r
       \<and> decode_drop_bytes dec ddec r (window_bytes v r) dl = Inr p"
  then show "plaintext_for_with_dict_lookup dec ddec v i dl = Some (Inr p)"
    by (auto simp: plaintext_for_in)
qed

lemma slice_plaintext_exact:
  assumes "unat off + len < 2 ^ 64"
  shows "slice_plaintext off len p = Some (if unat off + len \<le> length p then Inr (take len (drop (unat off) p))
    else Inl (Corrupt (DropReason (DropRangeOutside off len (length p)))))"
  using assms by (simp add: slice_plaintext_def u64_add_exact)

text \<open>C32. A windowed read of a drop agrees with the full read: with lawful codecs, if the whole drop decodes to \<open>p\<close>, a
  window inside \<open>p\<close> returns that slice of \<open>p\<close>, and a window past its end is an error and not a panic.\<close>

theorem plaintext_range_is_slice:
  assumes "\<forall>c \<in> set reg. codec_ok c" and "length (sv_bytes v) < usize_bound"
    and full: "plaintext_for (registry_decompress reg) ddec v i = Some (Inr p)"
    and small: "unat off + len < 2 ^ 64"
  shows "if unat off + len \<le> length p
    then plaintext_range (registry_decompress reg) ddec v i off len = Some (Some (Inr (take len (drop (unat off) p))))
    else \<exists>e. plaintext_range (registry_decompress reg) ddec v i off len = Some (Some (Inl e))"
proof -
  from full [unfolded plaintext_for_def] obtain r where f: "find_record v i = Some r" and w: "in_window v r"
    and d: "decode_drop_bytes (registry_decompress reg) ddec r (window_bytes v r) (\<lambda>_. None) = Inr p"
    unfolding plaintext_for_Inr [OF assms(2)] by blast
  show ?thesis
  proof (cases "is_seekable_record r")
    case True
    with d have "decode_seekable (registry_decompress reg) (codec (dr_representation r)) (window_bytes v r)
        (dr_plaintext_len r) = Inr p" by (simp add: decode_drop_bytes_def split: if_splits)
    note s = sized_decompressor.decode_seekable_range_slice
      [OF registry_sized [OF assms(1)] this small]
    show ?thesis
      using True s by (simp add: plaintext_range_def f drop_window_bounds_in [OF w] window_bytes_def)
  next
    case False
    then show ?thesis
      by (simp add: plaintext_range_def f full slice_plaintext_exact [OF small])
  qed
qed

text \<open>A slab with one stored drop of five bytes.\<close>

definition example_record :: drop_record where
  "example_record = \<lparr>dr_drop_id = replicate 32 1, dr_plaintext_len = 5, dr_representation = STORE_PLAINTEXT,
     dr_solid_window_index = 0, dr_offset_in_window = 0, dr_len_in_window = 5, dr_dict_id = NO_DICT, dr_flags = 0\<rparr>"

definition example_view :: slab_view where
  "example_view =
     (let h = \<lparr>sh_format_version = 1, sh_slab_id = \<lparr>ordinal = 0, slab_hash = replicate 32 2\<rparr>, sh_total_length = 111,
               sh_ec_descriptor = 0, sh_crypto_hint = 0\<rparr>
      in \<lparr>sv_bytes = encode_slab_header h @ encode_drop_record example_record @ [1, 2, 3, 4, 5], sv_header = h,
          sv_drop_records = [example_record], sv_solid_window_start = 106\<rparr>)"

lemma example_view_parses: "parse_slab (sv_bytes example_view) = Inr example_view"
  by (simp add: parse_slab_layout slab_layout_def example_view_def example_record_def valid_slab_header_def
      valid_drop_record_def encode_slab_header_def encode_drop_record_def SLAB_FORMAT_VERSION_def SLAB_HEADER_LEN_def
      DROP_RECORD_LEN_def DEFAULT_SLAB_MAX_BYTES_def DEFAULT_DROP_MAX_PLAINTEXT_BYTES_def EC_DESCRIPTOR_EXTENDED_def
      CRYPTO_HINT_EXTENDED_def STORE_PLAINTEXT_def)

lemma example_view_plaintext:
  "plaintext_for (registry_decompress [store_codec]) (\<lambda>_ _ _. Inl (BadMagic [])) example_view (replicate 32 1)
      = Some (Inr [1, 2, 3, 4, 5])"
proof -
  have f: "find_record example_view (replicate 32 1) = Some example_record"
    by (simp add: find_record_def example_view_def example_record_def Let_def)
  have w: "in_window example_view example_record" and b: "window_bytes example_view example_record = [1, 2, 3, 4, 5]"
    by (simp_all add: in_window_def window_bytes_def example_view_def example_record_def encode_slab_header_def
        encode_drop_record_def)
  show ?thesis
    unfolding plaintext_for_def plaintext_for_in [OF f w] b
    by (simp add: check_drop_readable_def example_record_def STORE_PLAINTEXT_def decode_drop_bytes_def
        is_seekable_record_def registry_decompress_def registry_find_def store_codec_def CODEC_STORE_def)
qed

theorem plaintext_range_is_slice_witness:
  "plaintext_range (registry_decompress [store_codec]) (\<lambda>_ _ _. Inl (BadMagic [])) example_view (replicate 32 1) 1 3
    = Some (Some (Inr [2, 3, 4]))"
proof -
  have l: "length (sv_bytes example_view) < usize_bound"
    by (simp add: example_view_def example_record_def encode_slab_header_def encode_drop_record_def)
  from plaintext_range_is_slice [OF _ l example_view_plaintext, of 1 3] show ?thesis by (simp add: store_codec_ok)
qed

end
