(* ===== verification/Slab_Writer.thy ===== *)
theory Slab_Writer
  imports Slab_Reader Locator
begin

text \<open>
  The slab writer (\<open>limnifs-write/src/lib.rs\<close>: \<open>PendingDrop\<close>, \<open>pack_slabs\<close>, \<open>encode_slab\<close>). Drops are packed greedily
  into groups, each group becomes one slab. The slab reader is shown to return every packed drop, and the sizes to
  stay under the reader's ceiling. A failed \<open>expect\<close> is \<^const>\<open>None\<close>.
\<close>

section \<open>Pending drops\<close>

record pending_drop =
  pd_id :: bytes
  pd_plaintext_len :: u32
  pd_compressed :: bytes
  pd_codec :: u8
  pd_dict_id :: u8
  pd_plaintext :: "bytes option"
  pd_flags :: u8

definition MAX_SLAB_TOTAL_BYTES :: nat where
  "MAX_SLAB_TOTAL_BYTES = 62914560"

definition CODEC_REFERENCED :: u8 where
  "CODEC_REFERENCED = 0xFE"

definition pd_len_in_window :: "pending_drop \<Rightarrow> u32 option" where
  "pd_len_in_window d = u32_try_from (length (pd_compressed d))"

definition slab_footprint :: "pending_drop \<Rightarrow> nat" where
  "slab_footprint d = 48 + length (pd_compressed d)"

section \<open>Encoding a slab\<close>

record slab_artifact =
  sa_id :: slab_id
  sa_bytes :: bytes
  sa_locator :: bytes
  sa_drop_ids :: "bytes list"

fun encode_slab_loop ::
    "pending_drop list \<Rightarrow> bytes \<Rightarrow> bytes \<Rightarrow> bytes list \<Rightarrow> u32 \<Rightarrow> (bytes \<times> bytes \<times> bytes list) option" where
  "encode_slab_loop [] drop_records solid_window drop_ids offset_in_window =
     Some (drop_records, solid_window, drop_ids)"
| "encode_slab_loop (d # ds) drop_records solid_window drop_ids offset_in_window = do {
     window_len \<leftarrow> pd_len_in_window d;
     (if unat offset_in_window + unat window_len \<ge> 2 ^ 32 then None else
      encode_slab_loop ds
        (drop_records @ pd_id d @ u32_to_le_bytes (pd_plaintext_len d) @ [pd_codec d, 0, 0] @ [0]
          @ u32_to_le_bytes offset_in_window @ u32_to_le_bytes window_len @ [pd_dict_id d] @ [pd_flags d])
        (solid_window @ pd_compressed d)
        (drop_ids @ [pd_id d])
        (offset_in_window + window_len))
   }"

text \<open>Decimal and two-digit hexadecimal formatting.\<close>

definition digit :: "nat \<Rightarrow> byte" where
  "digit n = word_of_nat (if n < 10 then 48 + n else 87 + n)"

fun decimal :: "nat \<Rightarrow> bytes" where
  "decimal n = (if n < 10 then [digit n] else decimal (n div 10) @ [digit (n mod 10)])"

declare decimal.simps [simp del]

definition hex2 :: "byte \<Rightarrow> bytes" where
  "hex2 b = [digit (unat b div 16), digit (unat b mod 16)]"

definition slab_locator :: "slab_id \<Rightarrow> bytes" where
  "slab_locator s = ascii ''file:slab-'' @ decimal (unat (ordinal s)) @ ascii ''-''
     @ concat (map hex2 (take 4 (slab_hash s))) @ ascii ''.bin''"

definition encode_slab :: "(bytes \<Rightarrow> bytes) \<Rightarrow> u64 \<Rightarrow> pending_drop list \<Rightarrow> slab_artifact option" where
  "encode_slab H ord drops = do {
     (drop_records, solid_window, drop_ids) \<leftarrow> encode_slab_loop drops [] [] [] 0;
     let slab_content = drop_records @ solid_window;
         sid = \<lparr>ordinal = ord, slab_hash = H slab_content\<rparr>;
         total_length = SLAB_HEADER_LEN + length slab_content
     in Some \<lparr>sa_id = sid,
          sa_bytes = SLAB_MAGIC @ u16_to_le_bytes 1 @ slab_id_to_bytes sid
            @ u64_to_le_bytes (word_of_nat total_length) @ [0, 0] @ slab_content,
          sa_locator = slab_locator sid, sa_drop_ids = drop_ids\<rparr>
   }"

section \<open>Packing\<close>

fun slab_groups :: "nat \<Rightarrow> pending_drop list \<Rightarrow> pending_drop list list \<Rightarrow> pending_drop list \<Rightarrow> nat
    \<Rightarrow> pending_drop list list" where
  "slab_groups max_content [] groups current current_size =
     (if current \<noteq> [] then groups @ [current] else groups)"
| "slab_groups max_content (d # ds) groups current current_size =
     (if current \<noteq> [] \<and> current_size + slab_footprint d > max_content
      then slab_groups max_content ds (groups @ [current]) [d] (slab_footprint d)
      else slab_groups max_content ds groups (current @ [d]) (current_size + slab_footprint d))"

definition local_drops :: "pending_drop list \<Rightarrow> pending_drop list" where
  "local_drops drops = filter (\<lambda>d. pd_codec d \<noteq> CODEC_REFERENCED) drops"

definition pack_groups :: "pending_drop list \<Rightarrow> pending_drop list list" where
  "pack_groups drops = slab_groups (MAX_SLAB_TOTAL_BYTES - SLAB_HEADER_LEN) (local_drops drops) [] [] 0"

definition pack_slabs :: "(bytes \<Rightarrow> bytes) \<Rightarrow> pending_drop list \<Rightarrow> slab_artifact list option" where
  "pack_slabs H drops =
     (if local_drops drops = [] then Some []
      else those (map (\<lambda>(ord, group). encode_slab H (word_of_nat ord) group) (enumerate 0 (pack_groups drops))))"

section \<open>What the loop emits\<close>

definition record_of :: "nat \<Rightarrow> pending_drop \<Rightarrow> drop_record" where
  "record_of off d = \<lparr>dr_drop_id = pd_id d, dr_plaintext_len = pd_plaintext_len d,
     dr_representation = \<lparr>codec = pd_codec d, aead = 0, ec = 0\<rparr>, dr_solid_window_index = 0,
     dr_offset_in_window = word_of_nat off, dr_len_in_window = word_of_nat (length (pd_compressed d)),
     dr_dict_id = pd_dict_id d, dr_flags = pd_flags d\<rparr>"

fun records_of :: "nat \<Rightarrow> pending_drop list \<Rightarrow> drop_record list" where
  "records_of off [] = []"
| "records_of off (d # ds) = record_of off d # records_of (off + length (pd_compressed d)) ds"

abbreviation comp_sum :: "pending_drop list \<Rightarrow> nat" where
  "comp_sum ds \<equiv> sum_list (map (\<lambda>d. length (pd_compressed d)) ds)"

lemma length_records_of [simp]: "length (records_of off ds) = length ds"
  by (induction ds arbitrary: off) auto

lemma records_of_nth:
  "i < length ds \<Longrightarrow> records_of off ds ! i = record_of (off + comp_sum (take i ds)) (ds ! i)"
proof (induction ds arbitrary: off i)
  case (Cons d ds)
  then show ?case by (cases i) (simp_all add: add.assoc)
qed simp

lemma encode_slab_loop_eq:
  assumes "off + comp_sum ds < 2 ^ 32"
  shows "encode_slab_loop ds recs win ids (word_of_nat off) =
    Some (recs @ concat (map encode_drop_record (records_of off ds)), win @ concat (map pd_compressed ds),
      ids @ map pd_id ds)"
  using assms
proof (induction ds arbitrary: recs win ids off)
  case (Cons d ds)
  have "(word_of_nat off + word_of_nat (length (pd_compressed d)) :: u32) = word_of_nat (off + length (pd_compressed d))"
    by simp
  moreover have "off < 2 ^ 32" "length (pd_compressed d) < 2 ^ 32" "\<not> off + length (pd_compressed d) \<ge> 2 ^ 32"
    using Cons.prems by simp_all
  ultimately show ?case
    using Cons.IH [of "off + length (pd_compressed d)"] Cons.prems
    by (simp add: pd_len_in_window_def encode_drop_record_def record_of_def representation_to_bytes_def
        del: of_nat_add)
qed simp

lemma encode_slab_loop_overflow:
  assumes "off < 2 ^ 32" "\<not> off + comp_sum ds < 2 ^ 32"
  shows "encode_slab_loop ds recs win ids (word_of_nat off) = None"
  using assms
proof (induction ds arbitrary: recs win ids off)
  case (Cons d ds)
  show ?case
  proof (cases "off + length (pd_compressed d) < 2 ^ 32")
    case True
    then have "length (pd_compressed d) < 2 ^ 32" by simp
    moreover have "(word_of_nat off + word_of_nat (length (pd_compressed d)) :: u32)
        = word_of_nat (off + length (pd_compressed d))" by simp
    ultimately show ?thesis
      using Cons.IH [of "off + length (pd_compressed d)"] True Cons.prems
      by (simp add: pd_len_in_window_def del: of_nat_add)
  next
    case False
    with Cons.prems show ?thesis
      by (cases "length (pd_compressed d) < 2 ^ 32") (auto simp: pd_len_in_window_def u32_try_from_def)
  qed
qed simp

text \<open>\<open>encode_slab\<close> returns exactly when the compressed bytes fit a 32-bit window.\<close>

definition slab_content :: "pending_drop list \<Rightarrow> bytes" where
  "slab_content ds = concat (map encode_drop_record (records_of 0 ds)) @ concat (map pd_compressed ds)"

lemma encode_slab_eq:
  "encode_slab H ord ds =
     (if comp_sum ds < 2 ^ 32
      then Some (let sid = \<lparr>ordinal = ord, slab_hash = H (slab_content ds)\<rparr>
        in \<lparr>sa_id = sid, sa_bytes = SLAB_MAGIC @ u16_to_le_bytes 1 @ slab_id_to_bytes sid
              @ u64_to_le_bytes (word_of_nat (SLAB_HEADER_LEN + length (slab_content ds))) @ [0, 0] @ slab_content ds,
            sa_locator = slab_locator sid, sa_drop_ids = map pd_id ds\<rparr>)
      else None)"
  using encode_slab_loop_eq [of 0 ds "[]" "[]" "[]"] encode_slab_loop_overflow [of 0 ds "[]" "[]" "[]"]
  by (auto simp: encode_slab_def slab_content_def Let_def)

section \<open>Reading a slab back\<close>

definition writable_drop :: "pending_drop \<Rightarrow> bool" where
  "writable_drop d \<longleftrightarrow> length (pd_id d) = 32
     \<and> unat (pd_plaintext_len d) \<le> unat DEFAULT_DROP_MAX_PLAINTEXT_BYTES"

definition slab_size :: "pending_drop list \<Rightarrow> nat" where
  "slab_size ds = SLAB_HEADER_LEN + DROP_RECORD_LEN * length ds + comp_sum ds"

definition view_of :: "slab_artifact \<Rightarrow> pending_drop list \<Rightarrow> slab_view" where
  "view_of a ds = \<lparr>sv_bytes = sa_bytes a,
     sv_header = \<lparr>sh_format_version = SLAB_FORMAT_VERSION, sh_slab_id = sa_id a,
       sh_total_length = word_of_nat (slab_size ds), sh_ec_descriptor = 0, sh_crypto_hint = 0\<rparr>,
     sv_drop_records = records_of 0 ds, sv_solid_window_start = SLAB_HEADER_LEN + DROP_RECORD_LEN * length ds\<rparr>"

lemma records_of_set:
  assumes "r \<in> set (records_of 0 ds)"
  obtains i where "i < length ds" "r = record_of (comp_sum (take i ds)) (ds ! i)"
  using assms records_of_nth [of _ ds 0] by (metis add_0 in_set_conv_nth length_records_of)

lemma comp_sum_take: "i < length ds \<Longrightarrow> comp_sum (take i ds) + length (pd_compressed (ds ! i)) \<le> comp_sum ds"
proof -
  assume "i < length ds"
  then have "ds = take i ds @ ds ! i # drop (Suc i) ds" by (rule id_take_nth_drop)
  then have "comp_sum ds = comp_sum (take i ds @ ds ! i # drop (Suc i) ds)" by simp
  then show ?thesis by simp
qed

lemma window_sum_records: "comp_sum ds < 2 ^ 32 \<Longrightarrow> window_sum (records_of off ds) = comp_sum ds"
  by (induction ds arbitrary: off) (auto simp: record_of_def)

lemma valid_record_of:
  assumes "\<forall>d \<in> set ds. writable_drop d" "comp_sum ds < 2 ^ 32" "r \<in> set (records_of 0 ds)"
  shows "valid_drop_record h DEFAULT_DROP_MAX_PLAINTEXT_BYTES r"
proof -
  from assms(3) obtain i where i: "i < length ds" "r = record_of (comp_sum (take i ds)) (ds ! i)"
    by (rule records_of_set)
  with comp_sum_take [OF i(1)] assms(1,2) nth_mem [OF i(1)] show ?thesis
    by (simp add: valid_drop_record_def record_of_def writable_drop_def)
qed

lemma records_length:
  assumes "\<forall>d \<in> set ds. writable_drop d" "comp_sum ds < 2 ^ 32"
  shows "length (concat (map encode_drop_record (records_of 0 ds))) = DROP_RECORD_LEN * length ds"
  by (rule length_encode_records [of "records_of 0 ds" h DEFAULT_DROP_MAX_PLAINTEXT_BYTES, unfolded length_records_of])
    (use valid_record_of [OF assms] in blast)

lemma slab_content_length:
  assumes "\<forall>d \<in> set ds. writable_drop d" "comp_sum ds < 2 ^ 32"
  shows "SLAB_HEADER_LEN + length (slab_content ds) = slab_size ds"
  using records_length [OF assms] by (simp add: slab_content_def slab_size_def length_concat comp_def)

lemma parse_encode_slab:
  assumes hash: "\<forall>x. length (H x) = 32" and ds: "\<forall>d \<in> set ds. writable_drop d"
    and size: "slab_size ds \<le> unat DEFAULT_SLAB_MAX_BYTES" and enc: "encode_slab H ord ds = Some a"
  shows "parse_slab (sa_bytes a) = Inr (view_of a ds)" and "length (sa_bytes a) = slab_size ds"
proof -
  have fit: "comp_sum ds < 2 ^ 32" using size by (simp add: slab_size_def DEFAULT_SLAB_MAX_BYTES_def)
  note len = slab_content_length [OF ds fit]
  have sz: "unat (word_of_nat (slab_size ds) :: u64) = slab_size ds"
    using size by (intro unat_u64_of_nat) (simp add: DEFAULT_SLAB_MAX_BYTES_def)
  define h where "h = sv_header (view_of a ds)"
  have b: "sa_bytes a = encode_slab_header h @ slab_content ds"
    and h: "h = \<lparr>sh_format_version = 1, sh_slab_id = \<lparr>ordinal = ord, slab_hash = H (slab_content ds)\<rparr>,
        sh_total_length = word_of_nat (slab_size ds), sh_ec_descriptor = 0, sh_crypto_hint = 0\<rparr>"
    using enc fit len by (auto simp: encode_slab_eq Let_def h_def view_of_def encode_slab_header_def SLAB_FORMAT_VERSION_def)
  have vh: "valid_slab_header DEFAULT_SLAB_MAX_BYTES h"
    using sz size hash by (simp add: h valid_slab_header_def SLAB_FORMAT_VERSION_def EC_DESCRIPTOR_EXTENDED_def
        CRYPTO_HINT_EXTENDED_def slab_size_def)
  show la: "length (sa_bytes a) = slab_size ds"
    using len length_encode_slab_header [OF vh] by (simp add: b)
  have "slab_layout (view_of a ds)"
    unfolding slab_layout_def h_def [symmetric]
  proof (intro conjI exI)
    show "sv_bytes (view_of a ds) = encode_slab_header h @ concat (map encode_drop_record
        (sv_drop_records (view_of a ds))) @ concat (map pd_compressed ds)"
      by (simp add: view_of_def b slab_content_def)
    show "length (concat (map pd_compressed ds)) = window_sum (sv_drop_records (view_of a ds))"
      by (simp add: view_of_def window_sum_records [OF fit] length_concat comp_def)
    show "length (sv_bytes (view_of a ds)) = unat (sh_total_length h)"
      using la sz by (simp add: view_of_def h)
    show "\<forall>r \<in> set (sv_drop_records (view_of a ds)). valid_drop_record h DEFAULT_DROP_MAX_PLAINTEXT_BYTES r"
      using valid_record_of [OF ds fit] by (simp add: view_of_def)
  qed (simp_all add: vh view_of_def)
  then show "parse_slab (sa_bytes a) = Inr (view_of a ds)"
    by (simp add: parse_slab_layout view_of_def)
qed

text \<open>In the view, the record of a drop is found under its id and its window holds the drop's compressed bytes.\<close>

lemma find_record_nth:
  assumes "distinct (map pd_id ds)" "i < length ds"
  shows "find_record (view_of a ds) (pd_id (ds ! i)) = Some (record_of (comp_sum (take i ds)) (ds ! i))"
proof -
  have ids: "dr_drop_id (records_of 0 ds ! j) = pd_id (ds ! j)" if "j < length ds" for j
    using that by (simp add: records_of_nth record_of_def)
  have "find (\<lambda>r. dr_drop_id r = pd_id (ds ! i)) (records_of 0 ds) = Some (records_of 0 ds ! i)"
    unfolding find_Some_iff
  proof (intro exI [of _ i] conjI allI impI)
    show "dr_drop_id (records_of 0 ds ! j) \<noteq> pd_id (ds ! i)" if "j < i" for j
      using that assms ids [of j] nth_eq_iff_index_eq [OF assms(1), of j i] by simp
  qed (use assms ids in simp_all)
  then show ?thesis using assms(2) by (simp add: find_record_def view_of_def records_of_nth)
qed

lemma window_bytes_nth:
  assumes "i < length ds" "comp_sum ds < 2 ^ 32" "\<forall>d \<in> set ds. writable_drop d"
    and "sa_bytes a = hdr @ slab_content ds" "length hdr = SLAB_HEADER_LEN"
  shows "window_bytes (view_of a ds) (record_of (comp_sum (take i ds)) (ds ! i)) = pd_compressed (ds ! i)"
proof -
  have u: "unat (word_of_nat (comp_sum (take i ds)) :: u32) = comp_sum (take i ds)"
    "unat (word_of_nat (length (pd_compressed (ds ! i))) :: u32) = length (pd_compressed (ds ! i))"
    using comp_sum_take [OF assms(1)] assms(2) by simp_all
  note l = records_length [OF assms(3,2)]
  have c: "concat (map pd_compressed ds) = concat (map pd_compressed (take i ds)) @ pd_compressed (ds ! i)
      @ concat (map pd_compressed (drop (Suc i) ds))"
    by (subst id_take_nth_drop [OF assms(1)]) simp
  have lc: "length (concat (map pd_compressed (take i ds))) = comp_sum (take i ds)"
    by (simp add: length_concat comp_def)
  have "drop (SLAB_HEADER_LEN + DROP_RECORD_LEN * length ds + comp_sum (take i ds)) (sa_bytes a)
      = pd_compressed (ds ! i) @ concat (map pd_compressed (drop (Suc i) ds))"
    using assms(4,5) l lc by (simp add: slab_content_def c)
  then show ?thesis by (simp add: window_bytes_def view_of_def record_of_def u)
qed

lemma decode_record_of:
  "decode_drop_bytes dec ddec (record_of off d) raw dl = decode_drop_bytes dec ddec (record_of 0 d) raw dl"
  by (simp add: decode_drop_bytes_def is_seekable_record_def record_of_def split: option.split)

lemma check_record_of [simp]: "check_drop_readable (record_of off d) = Inr ()"
  by (simp add: check_drop_readable_def record_of_def)

lemma in_window_nth:
  assumes "i < length ds" "comp_sum ds < 2 ^ 32" "length (sa_bytes a) = slab_size ds" "slab_size ds < 2 ^ 64"
  shows "in_window (view_of a ds) (record_of (comp_sum (take i ds)) (ds ! i))"
  using comp_sum_take [OF assms(1)] assms
  by (simp add: in_window_def view_of_def record_of_def slab_size_def)

lemma slab_read_nth:
  assumes "\<forall>x. length (H x) = 32" "\<forall>d \<in> set ds. writable_drop d" "distinct (map pd_id ds)"
    and "slab_size ds \<le> unat DEFAULT_SLAB_MAX_BYTES" and "encode_slab H ord ds = Some a" and "d \<in> set ds"
  shows "plaintext_for_with_dict_lookup dec ddec (view_of a ds) (pd_id d) dl
    = Some (decode_drop_bytes dec ddec (record_of 0 d) (pd_compressed d) dl)"
proof -
  note p = parse_encode_slab [OF assms(1,2,4,5)]
  have fit: "comp_sum ds < 2 ^ 32" and small: "slab_size ds < 2 ^ 64"
    using assms(4) by (simp_all add: slab_size_def DEFAULT_SLAB_MAX_BYTES_def)
  obtain hdr where hdr: "sa_bytes a = hdr @ slab_content ds" "length hdr = SLAB_HEADER_LEN"
    using assms(1,5) by (auto simp: encode_slab_eq Let_def SLAB_HEADER_LEN_def split: if_splits
        intro!: that [of "SLAB_MAGIC @ u16_to_le_bytes 1 @ slab_id_to_bytes (sa_id a)
          @ u64_to_le_bytes (word_of_nat (SLAB_HEADER_LEN + length (slab_content ds))) @ [0, 0]"])
  from assms(6) obtain i where i: "i < length ds" "d = ds ! i" by (auto simp: in_set_conv_nth)
  let ?r = "record_of (comp_sum (take i ds)) (ds ! i)"
  have "plaintext_for_with_dict_lookup dec ddec (view_of a ds) (pd_id d) dl =
      Some (case check_drop_readable ?r of Inl e \<Rightarrow> Inl e
        | Inr _ \<Rightarrow> decode_drop_bytes dec ddec ?r (window_bytes (view_of a ds) ?r) dl)"
    unfolding i(2)
    by (rule plaintext_for_in [OF find_record_nth [OF assms(3) i(1)] in_window_nth [OF i(1) fit p(2) small]])
  then show ?thesis
    unfolding window_bytes_nth [OF i(1) fit assms(2) hdr]
    using decode_record_of [of dec ddec "comp_sum (take i ds)"] by (simp add: i(2))
qed

text \<open>Writing and reading a slab: whatever group of distinct, writable drops \<open>encode_slab\<close> is given, as long as the
  result respects the reader's ceiling, \<open>parse_slab\<close> accepts the bytes and looking a drop up decodes exactly the bytes
  the writer stored for it under the record the writer made.\<close>

theorem slab_write_read:
  assumes "\<forall>x. length (H x) = 32" "\<forall>d \<in> set ds. writable_drop d" "distinct (map pd_id ds)"
    and "slab_size ds \<le> unat DEFAULT_SLAB_MAX_BYTES" and "encode_slab H ord ds = Some a"
  shows "\<exists>v. parse_slab (sa_bytes a) = Inr v \<and> sv_drop_records v = records_of 0 ds
    \<and> (\<forall>d \<in> set ds. plaintext_for_with_dict_lookup dec ddec v (pd_id d) dl
         = Some (decode_drop_bytes dec ddec (record_of 0 d) (pd_compressed d) dl))"
  using parse_encode_slab(1) [OF assms(1,2,4,5)] slab_read_nth [OF assms]
  by (intro exI [of _ "view_of a ds"]) (simp add: view_of_def)

section \<open>Packing keeps every drop and the size bound\<close>

abbreviation footprint_sum :: "pending_drop list \<Rightarrow> nat" where
  "footprint_sum ds \<equiv> sum_list (map slab_footprint ds)"

definition group_ok :: "nat \<Rightarrow> pending_drop list \<Rightarrow> bool" where
  "group_ok m g \<longleftrightarrow> g \<noteq> [] \<and> (length g = 1 \<or> footprint_sum g \<le> m)"

lemma slab_groups_inv:
  assumes "csize = footprint_sum current" "\<forall>g \<in> set groups. group_ok m g" "current \<noteq> [] \<Longrightarrow> group_ok m current"
  shows "concat (slab_groups m ds groups current csize) = concat groups @ current @ ds
    \<and> (\<forall>g \<in> set (slab_groups m ds groups current csize). group_ok m g)"
  using assms
proof (induction m ds groups current csize rule: slab_groups.induct)
  case (2 m d ds groups current csize)
  show ?case
  proof (cases "current \<noteq> [] \<and> csize + slab_footprint d > m")
    case True
    have "concat (slab_groups m ds (groups @ [current]) [d] (slab_footprint d)) = concat (groups @ [current]) @ [d] @ ds
        \<and> (\<forall>g \<in> set (slab_groups m ds (groups @ [current]) [d] (slab_footprint d)). group_ok m g)"
      using "2.prems" True by (intro "2.IH"(1)) (auto simp: group_ok_def)
    with True show ?thesis by simp
  next
    case False
    have "concat (slab_groups m ds groups (current @ [d]) (csize + slab_footprint d)) = concat groups @ (current @ [d]) @ ds
        \<and> (\<forall>g \<in> set (slab_groups m ds groups (current @ [d]) (csize + slab_footprint d)). group_ok m g)"
      using "2.prems" False by (intro "2.IH"(2)) (auto simp: group_ok_def)
    with False show ?thesis by (simp only: slab_groups.simps if_False) simp
  qed
qed simp

lemma pack_groups_ok:
  "concat (pack_groups drops) = local_drops drops"
  "g \<in> set (pack_groups drops) \<Longrightarrow> group_ok (MAX_SLAB_TOTAL_BYTES - SLAB_HEADER_LEN) g"
  using slab_groups_inv [of 0 "[]" "[]" "MAX_SLAB_TOTAL_BYTES - SLAB_HEADER_LEN" "local_drops drops"]
  by (auto simp: pack_groups_def)

lemma pack_groups_set: "set (local_drops drops) = (\<Union>g \<in> set (pack_groups drops). set g)"
  by (simp flip: pack_groups_ok(1))

lemma pack_groups_subset: "g \<in> set (pack_groups drops) \<Longrightarrow> set g \<subseteq> set drops"
  using pack_groups_set [of drops] by (auto simp: local_drops_def)

text \<open>A group within the writer's budget stays under the reader's ceiling although the budget counts two bytes too few
  per record.\<close>

lemma group_size_bound:
  assumes "footprint_sum g \<le> MAX_SLAB_TOTAL_BYTES - SLAB_HEADER_LEN"
  shows "slab_size g \<le> unat DEFAULT_SLAB_MAX_BYTES"
proof -
  have "footprint_sum g = 48 * length g + comp_sum g"
    by (induction g) (simp_all add: slab_footprint_def)
  with assms show ?thesis
    by (simp add: slab_size_def MAX_SLAB_TOTAL_BYTES_def SLAB_HEADER_LEN_def DROP_RECORD_LEN_def DEFAULT_SLAB_MAX_BYTES_def)
qed

lemma those_map_Some: "\<forall>x \<in> set xs. f x \<noteq> None \<Longrightarrow> those (map f xs) = Some (map (\<lambda>x. the (f x)) xs)"
  by (induction xs) auto

lemma pack_slabs_defined:
  assumes "\<forall>d \<in> set drops. slab_footprint d \<le> MAX_SLAB_TOTAL_BYTES - SLAB_HEADER_LEN"
  shows "\<forall>g \<in> set (pack_groups drops). slab_size g \<le> unat DEFAULT_SLAB_MAX_BYTES"
    and "pack_slabs H drops = Some (map (\<lambda>(ord, g). the (encode_slab H (word_of_nat ord) g)) (enumerate 0 (pack_groups drops)))"
proof -
  have size: "slab_size g \<le> unat DEFAULT_SLAB_MAX_BYTES" if g: "g \<in> set (pack_groups drops)" for g
  proof (rule group_size_bound)
    consider "length g = 1" | "footprint_sum g \<le> MAX_SLAB_TOTAL_BYTES - SLAB_HEADER_LEN"
      using pack_groups_ok(2) [OF g] by (auto simp: group_ok_def)
    then show "footprint_sum g \<le> MAX_SLAB_TOTAL_BYTES - SLAB_HEADER_LEN"
    proof cases
      case 1
      then obtain d where "g = [d]" by (auto simp: length_Suc_conv)
      with pack_groups_subset [OF g] assms show ?thesis by simp
    qed
  qed
  then show "\<forall>g \<in> set (pack_groups drops). slab_size g \<le> unat DEFAULT_SLAB_MAX_BYTES" by blast
  have enc: "encode_slab H ord g \<noteq> None" if "g \<in> set (pack_groups drops)" for ord g
    using size [OF that] by (simp add: encode_slab_eq slab_size_def DEFAULT_SLAB_MAX_BYTES_def)
  have "case x of (ord, g) \<Rightarrow> encode_slab H (word_of_nat ord) g \<noteq> None" if "x \<in> set (enumerate 0 (pack_groups drops))" for x
    using that enc by (auto simp: in_set_enumerate_eq)
  moreover have "enumerate 0 (pack_groups drops) = []" if "local_drops drops = []"
    using that by (simp add: pack_groups_def)
  ultimately show "pack_slabs H drops = Some (map (\<lambda>(ord, g). the (encode_slab H (word_of_nat ord) g)) (enumerate 0 (pack_groups drops)))"
    using those_map_Some [of "enumerate 0 (pack_groups drops)" "\<lambda>(ord, g). encode_slab H (word_of_nat ord) g"]
    by (auto simp: pack_slabs_def split_beta)
qed


text \<open>A drop that was compressed by the registry: monolithically, or as a seekable container when the flag is set.\<close>

definition drop_stores :: "codec_registry \<Rightarrow> codec_tunables \<Rightarrow> pending_drop \<Rightarrow> bytes \<Rightarrow> bool" where
  "drop_stores reg t d p \<longleftrightarrow>
     pd_plaintext_len d = word_of_nat (length p) \<and> length p < 2 ^ 32 \<and> pd_dict_id d = NO_DICT
     \<and> (if and (pd_flags d) DROP_FLAG_SEEKABLE \<noteq> 0
        then encode_seekable (registry_compress_with_tunables reg t) (pd_codec d) p = Some (Inr (pd_compressed d))
        else registry_compress_with_tunables reg t (pd_codec d) p = Inr (pd_compressed d))"

lemma decode_stored_drop:
  assumes "\<forall>c \<in> set reg. codec_ok c" "drop_stores reg t d p"
  shows "decode_drop_bytes (registry_decompress reg) ddec (record_of 0 d) (pd_compressed d) dl = Inr p"
proof -
  note k = registry_tunables_contract [OF assms(1), of t]
  show ?thesis
    using assms(2) codec_contract.decode_encode_seekable [OF k] codec_contract.decompress_compress [OF k]
    by (auto simp: drop_stores_def decode_drop_bytes_def is_seekable_record_def record_of_def split: if_splits)
qed

text \<open>C8. The whole path of a drop: pack the image's drops into slabs and read them back. Every local drop that stores
  \<open>p\<close> is in exactly one of the emitted slabs' groups, that slab parses, and looking the drop up in it returns \<open>p\<close>.\<close>

theorem packed_drops_read_back:
  assumes "\<forall>x. length (H x) = 32" "\<forall>c \<in> set reg. codec_ok c"
    and "\<forall>d \<in> set drops. writable_drop d" "distinct (map pd_id (local_drops drops))"
    and "\<forall>d \<in> set drops. slab_footprint d \<le> MAX_SLAB_TOTAL_BYTES - SLAB_HEADER_LEN"
    and "d \<in> set drops" "pd_codec d \<noteq> CODEC_REFERENCED" "drop_stores reg t d p"
  shows "\<exists>slabs a v. pack_slabs H drops = Some slabs \<and> a \<in> set slabs \<and> pd_id d \<in> set (sa_drop_ids a)
    \<and> parse_slab (sa_bytes a) = Inr v
    \<and> plaintext_for (registry_decompress reg) ddec v (pd_id d) = Some (Inr p)"
proof -
  have "d \<in> set (local_drops drops)" using assms(6,7) by (simp add: local_drops_def)
  then obtain k where k: "k < length (pack_groups drops)" "d \<in> set (pack_groups drops ! k)"
    unfolding pack_groups_set by (metis UN_iff in_set_conv_nth)
  let ?g = "pack_groups drops ! k"
  have g: "?g \<in> set (pack_groups drops)" using k(1) by simp
  have size: "slab_size ?g \<le> unat DEFAULT_SLAB_MAX_BYTES" using pack_slabs_defined(1) [OF assms(5)] g by blast
  have fit: "comp_sum ?g < 2 ^ 32" using size by (simp add: slab_size_def DEFAULT_SLAB_MAX_BYTES_def)
  then obtain a where a: "encode_slab H (word_of_nat k) ?g = Some a" by (simp add: encode_slab_eq)
  have dist: "distinct (map pd_id ?g)"
  proof -
    have "map pd_id (local_drops drops) = concat (map (map pd_id) (pack_groups drops))"
      by (metis map_concat pack_groups_ok(1))
    with assms(4) have "distinct (concat (map (map pd_id) (pack_groups drops)))" by simp
    with g show ?thesis unfolding distinct_concat_iff by auto
  qed
  have wd: "\<forall>d \<in> set ?g. writable_drop d" using pack_groups_subset [OF g] assms(3) by blast
  have rd: "plaintext_for (registry_decompress reg) ddec (view_of a ?g) (pd_id d) = Some (Inr p)"
    using slab_read_nth [OF assms(1) wd dist size a k(2), of "registry_decompress reg" ddec "\<lambda>_. None"]
      decode_stored_drop [OF assms(2,8)] by (simp add: plaintext_for_def)
  have "a \<in> set (map (\<lambda>(ord, g). the (encode_slab H (word_of_nat ord) g)) (enumerate 0 (pack_groups drops)))"
  proof -
    have "(k, ?g) \<in> set (enumerate 0 (pack_groups drops))" using k(1) by (simp add: in_set_enumerate_eq)
    then have "(\<lambda>(ord, g). the (encode_slab H (word_of_nat ord) g)) (k, ?g) \<in> set (map
        (\<lambda>(ord, g). the (encode_slab H (word_of_nat ord) g)) (enumerate 0 (pack_groups drops)))"
      unfolding set_map by (rule imageI)
    with a show ?thesis by simp
  qed
  moreover have "pd_id d \<in> set (sa_drop_ids a)" using a k(2) by (auto simp: encode_slab_eq Let_def split: if_splits)
  ultimately show ?thesis
    using pack_slabs_defined(2) [OF assms(5), of H] parse_encode_slab(1) [OF assms(1) wd size a] rd by blast
qed

text \<open>The writer's own limit, in contrast, is not kept: the budget counts 48 bytes per record where the record has 50,
  so a slab of many small drops is longer than \<open>MAX_SLAB_TOTAL_BYTES\<close>.\<close>

lemma slab_groups_one:
  assumes "csize + footprint_sum ds \<le> m" "current @ ds \<noteq> []"
  shows "slab_groups m ds groups current csize = groups @ [current @ ds]"
  using assms
proof (induction ds arbitrary: current csize)
  case (Cons d ds)
  from Cons.prems(1) have "\<not> csize + slab_footprint d > m" by simp
  with Cons.IH [of "csize + slab_footprint d" "current @ [d]"] Cons.prems(1) show ?case by simp
qed simp

lemma packed_slab_over_budget:
  assumes "d = \<lparr>pd_id = i, pd_plaintext_len = 0, pd_compressed = [], pd_codec = 0, pd_dict_id = NO_DICT,
      pd_plaintext = None, pd_flags = 0\<rparr>" and "drops = replicate 1310718 d"
  shows "pack_groups drops = [drops] \<and> MAX_SLAB_TOTAL_BYTES < slab_size drops"
proof -
  have l: "local_drops drops = drops" by (simp add: assms local_drops_def CODEC_REFERENCED_def)
  have f: "footprint_sum drops = 48 * 1310718" by (simp add: assms slab_footprint_def sum_list_replicate)
  have "pack_groups drops = [drops]"
    unfolding pack_groups_def l
    using slab_groups_one [of 0 drops "MAX_SLAB_TOTAL_BYTES - SLAB_HEADER_LEN" "[]" "[]"] f assms(2)
    by (simp add: MAX_SLAB_TOTAL_BYTES_def SLAB_HEADER_LEN_def)
  moreover have "MAX_SLAB_TOTAL_BYTES < slab_size drops"
    by (simp add: assms slab_size_def MAX_SLAB_TOTAL_BYTES_def SLAB_HEADER_LEN_def DROP_RECORD_LEN_def sum_list_replicate)
  ultimately show ?thesis by blast
qed

section \<open>Locators\<close>

lemma digit_range: "n < 16 \<Longrightarrow> 48 \<le> unat (digit n) \<and> unat (digit n) \<le> 102 \<and> unat (digit n) \<noteq> 58 \<and> unat (digit n) \<noteq> 92"
  by (auto simp: digit_def unat_u8_of_nat)

definition plain_byte :: "byte \<Rightarrow> bool" where
  "plain_byte b \<longleftrightarrow> 45 \<le> unat b \<and> unat b \<noteq> 47 \<and> unat b \<noteq> 58 \<and> unat b \<noteq> 92 \<and> unat b < 128"

lemma plain_digit: "n < 16 \<Longrightarrow> plain_byte (digit n)"
  using digit_range [of n] by (auto simp: plain_byte_def)

lemma plain_decimal: "b \<in> set (decimal n) \<Longrightarrow> plain_byte b"
proof (induction n rule: decimal.induct)
  case (1 n)
  then show ?case by (subst (asm) decimal.simps) (auto split: if_splits intro: plain_digit)
qed

lemma plain_hex2: "b \<in> set (hex2 x) \<Longrightarrow> plain_byte b"
  using unat_u8_lt [of x] by (auto simp: hex2_def intro!: plain_digit)

lemma plain_byte_not: "plain_byte b \<Longrightarrow> b \<noteq> 47 \<and> b \<noteq> 92 \<and> b \<noteq> 0 \<and> b \<noteq> 58"
  by (auto simp: plain_byte_def)

text \<open>Every slab locator the writer derives is a flat sidecar name that the reader's gate admits, and it is a
  well-formed locator entry.\<close>

theorem slab_locator_flat:
  "local_sidecar_name (slab_locator s) = Inr (drop 5 (slab_locator s))"
proof -
  define rest where "rest = drop 5 (slab_locator s)"
  have r: "rest = ascii ''slab-'' @ decimal (unat (ordinal s)) @ ascii ''-''
      @ concat (map hex2 (take 4 (slab_hash s))) @ ascii ''.bin''"
    by (simp add: rest_def slab_locator_def ascii_def)
  have e: "slab_locator s = ascii ''file:'' @ rest" by (simp add: r slab_locator_def ascii_def)
  have "plain_byte b" if "b \<in> set rest" for b
    using that plain_decimal plain_hex2 by (auto simp: r ascii_def plain_byte_def)
  then have "47 \<notin> set rest" "92 \<notin> set rest" "0 \<notin> set rest" "58 \<notin> set rest"
    using plain_byte_not by blast+
  moreover have "rest \<noteq> []" "rest \<noteq> ascii ''.''" "rest \<noteq> ascii ''..''" by (simp_all add: r ascii_def)
  ultimately have "local_sidecar_name (slab_locator s) = Inr rest"
    by (simp add: local_sidecar_name_def e strip_prefix_def)
  then show ?thesis by (simp add: rest_def)
qed

section \<open>An image of three drops\<close>

definition example_drop :: "byte \<Rightarrow> bytes \<Rightarrow> pending_drop" where
  "example_drop b p = \<lparr>pd_id = replicate 32 b, pd_plaintext_len = word_of_nat (length p), pd_compressed = p,
     pd_codec = CODEC_STORE, pd_dict_id = NO_DICT, pd_plaintext = None, pd_flags = 0\<rparr>"

definition example_drops :: "pending_drop list" where
  "example_drops = [example_drop 1 [1, 2, 3], (example_drop 2 [4]) \<lparr>pd_codec := CODEC_REFERENCED\<rparr>, example_drop 3 [5, 6]]"

lemmas example_drop_eval = example_drops_def example_drop_def writable_drop_def slab_footprint_def MAX_SLAB_TOTAL_BYTES_def
  SLAB_HEADER_LEN_def DROP_RECORD_LEN_def DEFAULT_DROP_MAX_PLAINTEXT_BYTES_def DEFAULT_SLAB_MAX_BYTES_def
  local_drops_def CODEC_REFERENCED_def CODEC_STORE_def slab_size_def

lemma replicate_byte_neq: "replicate 32 (1 :: byte) \<noteq> replicate 32 3"
  by (simp add: replicate_eq_replicate)

theorem slab_write_read_witness:
  "\<exists>a v. encode_slab (\<lambda>_. replicate 32 0) 7 [example_drop 1 [1, 2, 3], example_drop 3 [5, 6]] = Some a
    \<and> parse_slab (sa_bytes a) = Inr v
    \<and> plaintext_for (registry_decompress [store_codec]) (\<lambda>_ _ _. Inl (BadMagic [])) v (replicate 32 3) = Some (Inr [5, 6])"
proof -
  let ?ds = "[example_drop 1 [1, 2, 3], example_drop 3 [5, 6]]" and ?H = "\<lambda>_. replicate 32 0 :: bytes"
  obtain a where a: "encode_slab ?H 7 ?ds = Some a" by (simp add: encode_slab_eq example_drop_def)
  have "\<exists>v. parse_slab (sa_bytes a) = Inr v \<and> sv_drop_records v = records_of 0 ?ds
      \<and> (\<forall>d \<in> set ?ds. plaintext_for_with_dict_lookup (registry_decompress [store_codec]) (\<lambda>_ _ _. Inl (BadMagic []))
          v (pd_id d) (\<lambda>_. None) = Some (decode_drop_bytes (registry_decompress [store_codec]) (\<lambda>_ _ _. Inl (BadMagic []))
          (record_of 0 d) (pd_compressed d) (\<lambda>_. None)))"
    using replicate_byte_neq by (intro slab_write_read [OF _ _ _ _ a]) (simp_all add: example_drop_eval)
  then show ?thesis using a
    by (auto simp: plaintext_for_def decode_drop_bytes_def is_seekable_record_def record_of_def example_drop_def
        registry_decompress_def registry_find_def store_codec_def)
qed


theorem packed_drops_read_back_witness:
  "\<exists>slabs a v. pack_slabs (\<lambda>_. replicate 32 0) example_drops = Some slabs \<and> a \<in> set slabs
    \<and> parse_slab (sa_bytes a) = Inr v
    \<and> plaintext_for (registry_decompress [store_codec]) (\<lambda>_ _ _. Inl (BadMagic [])) v (replicate 32 3) = Some (Inr [5, 6])"
proof -
  have s: "drop_stores [store_codec] tunables_default (example_drop 3 [5, 6]) [5, 6]"
    by (simp add: drop_stores_def example_drop_def registry_compress_with_tunables_def registry_find_def store_codec_def
        ignore_tunables_def)
  have i: "pd_id (example_drop 3 [5, 6]) = replicate 32 3" by (simp add: example_drop_def)
  from packed_drops_read_back [OF _ _ _ _ _ _ _ s, of "\<lambda>_. replicate 32 0" example_drops "\<lambda>_ _ _. Inl (BadMagic [])"]
  show ?thesis using replicate_byte_neq unfolding i by (simp add: example_drop_eval store_codec_ok) blast
qed

end
