(* ===== verification/Slab_Store.thy ===== *)
theory Slab_Store
  imports Slab_Writer "HOL-Library.AList"
begin

text \<open>
  The slab store (\<open>limnifs-core/src/slab_store.rs\<close>) holds the slabs of an image with their parsed record tables and an
  index from drop ids to records; the slab sources (\<open>slab_source.rs\<close>) are the interface the file reader uses, with the
  default windowed read and the chain of a layer over its bases. A hash map is an association list with distinct keys.
  The file system is the parameter \<open>read_file\<close>, by flat name in the image's directory; mapping a file and reading it
  give the same bytes.
\<close>

section \<open>The store\<close>

datatype slab_storage = Memory bytes | Mapped bytes

fun as_bytes :: "slab_storage \<Rightarrow> bytes" where
  "as_bytes (Memory v) = v"
| "as_bytes (Mapped m) = m"

record parsed_slab =
  ps_records :: "drop_record list"
  ps_solid_window_start :: nat

type_synonym drop_index = "(bytes \<times> nat \<times> nat) list"

record slab_store =
  ss_slabs :: "slab_storage list"
  ss_parsed :: "parsed_slab list"
  ss_drop_index :: drop_index
  ss_dictionaries :: "(u8 \<times> bytes) list"

definition slab_store_default :: slab_store where
  "slab_store_default = \<lparr>ss_slabs = [], ss_parsed = [], ss_drop_index = [], ss_dictionaries = []\<rparr>"

definition index_slab :: "bytes \<Rightarrow> nat \<Rightarrow> (parsed_slab \<times> (bytes \<times> nat \<times> nat) list) outcome" where
  "index_slab bs ord =
     (case parse_slab bs of
        Inl e \<Rightarrow> Inl e
      | Inr view \<Rightarrow> Inr (\<lparr>ps_records = sv_drop_records view, ps_solid_window_start = sv_solid_window_start view\<rparr>,
          map (\<lambda>(ridx, record). (dr_drop_id record, (ord, ridx))) (enumerate 0 (sv_drop_records view))))"

text \<open>\<open>HashMap::extend\<close>: a later pair replaces an earlier one with the same key.\<close>

definition extend_index :: "drop_index \<Rightarrow> (bytes \<times> nat \<times> nat) list \<Rightarrow> drop_index" where
  "extend_index index entries = fold (\<lambda>(k, v). AList.update k v) entries index"

fun index_sources :: "nat \<Rightarrow> slab_storage list \<Rightarrow> parsed_slab list \<Rightarrow> drop_index
    \<Rightarrow> (parsed_slab list \<times> drop_index) outcome" where
  "index_sources ord [] parsed index = Inr (parsed, index)"
| "index_sources ord (source # sources) parsed index =
     (case index_slab (as_bytes source) ord of
        Inl e \<Rightarrow> Inl e
      | Inr (slab_parsed, entries) \<Rightarrow>
          index_sources (Suc ord) sources (parsed @ [slab_parsed]) (extend_index index entries))"

definition from_sources :: "slab_storage list \<Rightarrow> slab_store outcome" where
  "from_sources slabs =
     (case index_sources 0 slabs [] [] of
        Inl e \<Rightarrow> Inl e
      | Inr (parsed, index) \<Rightarrow>
          Inr \<lparr>ss_slabs = slabs, ss_parsed = parsed, ss_drop_index = index, ss_dictionaries = []\<rparr>)"

definition from_bytes :: "bytes list \<Rightarrow> slab_store outcome" where
  "from_bytes slabs =
     (case index_sources 0 (map Memory slabs) [] [] of
        Inl e \<Rightarrow> Inl e
      | Inr (parsed, index) \<Rightarrow>
          Inr \<lparr>ss_slabs = map Memory slabs, ss_parsed = parsed, ss_drop_index = index, ss_dictionaries = []\<rparr>)"

text \<open>\<open>load\<close> and \<open>load_mmap_in\<close>: one loop over the slab index, which reads a slab and indexes it before the next.\<close>

fun load_slabs :: "(bytes \<Rightarrow> bytes option) \<Rightarrow> (bytes \<Rightarrow> slab_storage) \<Rightarrow> nat \<Rightarrow> slab_index_entry list
    \<Rightarrow> slab_storage list \<Rightarrow> parsed_slab list \<Rightarrow> drop_index \<Rightarrow> slab_store outcome" where
  "load_slabs read_file store ord [] slabs parsed index =
     Inr \<lparr>ss_slabs = slabs, ss_parsed = parsed, ss_drop_index = index, ss_dictionaries = []\<rparr>"
| "load_slabs read_file store ord (entry # entries) slabs parsed index =
     (case sie_locators entry of
        [] \<Rightarrow> Inl (Corrupt (StoreReason (StoreZeroLocators ord)))
      | locator # _ \<Rightarrow>
          (case local_sidecar_name (uri locator) of
             Inl e \<Rightarrow> Inl (Corrupt (StoreReason (StoreBadLocator ord (uri locator))))
           | Inr slab_name \<Rightarrow>
               (case read_file slab_name of
                  None \<Rightarrow> Inl (Corrupt (StoreReason (StoreUnreadable ord slab_name)))
                | Some bs \<Rightarrow>
                    (case index_slab bs ord of
                       Inl e \<Rightarrow> Inl e
                     | Inr (slab_parsed, ids) \<Rightarrow>
                         load_slabs read_file store (Suc ord) entries (slabs @ [store bs]) (parsed @ [slab_parsed])
                           (extend_index index ids)))))"

definition load :: "(bytes \<Rightarrow> bytes option) \<Rightarrow> slab_index \<Rightarrow> slab_store outcome" where
  "load read_file slab_index =
     (if si_entries slab_index = [] then Inr slab_store_default
      else load_slabs read_file Memory 0 (si_entries slab_index) [] [] [])"

definition load_mmap_in :: "(bytes \<Rightarrow> bytes option) \<Rightarrow> slab_index \<Rightarrow> slab_store outcome" where
  "load_mmap_in read_file slab_index =
     (if si_entries slab_index = [] then Inr slab_store_default
      else load_slabs read_file Mapped 0 (si_entries slab_index) [] [] [])"

definition store_slab_count :: "slab_store \<Rightarrow> nat" where
  "store_slab_count st = length (ss_slabs st)"

definition store_drop_count :: "slab_store \<Rightarrow> nat" where
  "store_drop_count st = length (ss_drop_index st)"

definition store_contains :: "slab_store \<Rightarrow> bytes \<Rightarrow> bool" where
  "store_contains st drop_id \<longleftrightarrow> map_of (ss_drop_index st) drop_id \<noteq> None"

definition set_dictionaries :: "(u8 \<times> bytes) list \<Rightarrow> slab_store \<Rightarrow> slab_store" where
  "set_dictionaries dictionaries st = st\<lparr>ss_dictionaries := dictionaries\<rparr>"

section \<open>Reading\<close>

definition get_nth :: "'a list \<Rightarrow> nat \<Rightarrow> 'a option" where
  "get_nth xs i = (if i < length xs then Some (xs ! i) else None)"

definition locate_window :: "slab_store \<Rightarrow> bytes \<Rightarrow> (bytes \<times> drop_record \<times> nat \<times> nat) option" where
  "locate_window st drop_id = do {
     (ord, ridx) \<leftarrow> map_of (ss_drop_index st) drop_id;
     source \<leftarrow> get_nth (ss_slabs st) ord;
     let bs = as_bytes source;
     slab \<leftarrow> get_nth (ss_parsed st) ord;
     record \<leftarrow> get_nth (ps_records slab) ridx;
     start \<leftarrow> usize_checked_add (ps_solid_window_start slab) (unat (dr_offset_in_window record));
     stop \<leftarrow> usize_checked_add start (unat (dr_len_in_window record));
     (if stop > length bs then None else Some (bs, record, start, stop))
   }"

definition decode_drop ::
    "decompressor \<Rightarrow> dict_decompressor \<Rightarrow> drop_record \<Rightarrow> bytes \<Rightarrow> (u8 \<Rightarrow> bytes option) \<Rightarrow> bytes outcome" where
  "decode_drop dec ddec record raw dict_lookup =
     (if is_seekable_record record then
        if dr_dict_id record \<noteq> NO_DICT then Inl (UnsupportedFeature SeekableWithDictionary)
        else decode_seekable dec (codec (dr_representation record)) raw (dr_plaintext_len record)
      else if aead (dr_representation record) \<noteq> 0
      then Inl (UnsupportedFeature (DropAead (aead (dr_representation record))))
      else if dr_solid_window_index record \<noteq> 0
      then Inl (UnsupportedFeature (SolidWindowIndex (dr_solid_window_index record)))
      else if dr_dict_id record = NO_DICT then dec (codec (dr_representation record)) raw (dr_plaintext_len record)
      else (case dict_lookup (dr_dict_id record) of
              None \<Rightarrow> Inl (Corrupt (DropReason (DropDictMissing (dr_dict_id record))))
            | Some dict_bytes \<Rightarrow> ddec raw (dr_plaintext_len record) dict_bytes))"

definition store_raw_window :: "slab_store \<Rightarrow> bytes \<Rightarrow> (bytes \<times> drop_record) option" where
  "store_raw_window st drop_id = do {
     (bs, record, start, stop) \<leftarrow> locate_window st drop_id;
     Some (take (stop - start) (drop start bs), record)
   }"

definition store_plaintext_for ::
    "decompressor \<Rightarrow> dict_decompressor \<Rightarrow> slab_store \<Rightarrow> bytes \<Rightarrow> bytes outcome option" where
  "store_plaintext_for dec ddec st drop_id = do {
     (bs, record, start, stop) \<leftarrow> locate_window st drop_id;
     Some (decode_drop dec ddec record (take (stop - start) (drop start bs)) (map_of (ss_dictionaries st)))
   }"

text \<open>The outer \<^const>\<open>None\<close> is a panic, the inner one an absent drop.\<close>

definition store_plaintext_range ::
    "decompressor \<Rightarrow> dict_decompressor \<Rightarrow> slab_store \<Rightarrow> bytes \<Rightarrow> u64 \<Rightarrow> nat \<Rightarrow> bytes outcome option option" where
  "store_plaintext_range dec ddec st drop_id off len =
     (case locate_window st drop_id of
        None \<Rightarrow> Some None
      | Some (bs, record, start, stop) \<Rightarrow>
          let raw = take (stop - start) (drop start bs) in
          if is_seekable_record record
          then map_option Some (decode_seekable_range dec (codec (dr_representation record)) raw off len)
          else (case decode_drop dec ddec record raw (map_of (ss_dictionaries st)) of
                  Inl e \<Rightarrow> Some (Some (Inl e))
                | Inr plaintext \<Rightarrow> map_option Some (slice_plaintext off len plaintext)))"

definition drop_is_seekable :: "slab_store \<Rightarrow> bytes \<Rightarrow> bool option" where
  "drop_is_seekable st drop_id = do {
     (_, record, _, _) \<leftarrow> locate_window st drop_id;
     Some (is_seekable_record record)
   }"

text \<open>\<open>stream_drop\<close>: \<open>write_all\<close> is the writer, a step on its state that may fail.\<close>

definition stream_drop :: "decompressor \<Rightarrow> dict_decompressor \<Rightarrow> (bytes \<Rightarrow> 'w \<Rightarrow> 'w option) \<Rightarrow> slab_store \<Rightarrow> bytes
    \<Rightarrow> 'w \<Rightarrow> (nat \<times> 'w) outcome" where
  "stream_drop dec ddec write_all st drop_id w =
     (case locate_window st drop_id of
        None \<Rightarrow> Inl (Corrupt (StoreReason (StreamDropMissing (take 4 drop_id))))
      | Some (bs, record, start, stop) \<Rightarrow>
          (case decode_drop dec ddec record (take (stop - start) (drop start bs)) (map_of (ss_dictionaries st)) of
             Inl e \<Rightarrow> Inl e
           | Inr plaintext \<Rightarrow>
               (case write_all plaintext w of
                  None \<Rightarrow> Inl (Corrupt (StoreReason StreamWriteFailed))
                | Some w' \<Rightarrow> Inr (length plaintext, w'))))"

section \<open>What the index holds\<close>

definition parsed_of :: "slab_view \<Rightarrow> parsed_slab" where
  "parsed_of v = \<lparr>ps_records = sv_drop_records v, ps_solid_window_start = sv_solid_window_start v\<rparr>"

definition slab_entries :: "nat \<Rightarrow> slab_view \<Rightarrow> (bytes \<times> nat \<times> nat) list" where
  "slab_entries ord v = map (\<lambda>(ridx, record). (dr_drop_id record, (ord, ridx))) (enumerate 0 (sv_drop_records v))"

definition all_entries :: "nat \<Rightarrow> slab_view list \<Rightarrow> (bytes \<times> nat \<times> nat) list" where
  "all_entries ord vs = concat (map (\<lambda>(ord, v). slab_entries ord v) (enumerate ord vs))"

definition store_of :: "slab_storage list \<Rightarrow> slab_view list \<Rightarrow> slab_store" where
  "store_of slabs vs = \<lparr>ss_slabs = slabs, ss_parsed = map parsed_of vs,
     ss_drop_index = extend_index [] (all_entries 0 vs), ss_dictionaries = []\<rparr>"

lemma all_entries_simps [simp]:
  "all_entries ord [] = []"
  "all_entries ord (v # vs) = slab_entries ord v @ all_entries (Suc ord) vs"
  by (simp_all add: all_entries_def)

lemma extend_index_append: "extend_index idx (es @ fs) = extend_index (extend_index idx es) fs"
  by (simp add: extend_index_def)

lemma index_slab_Inr: "index_slab bs ord = Inr (p, es) \<longleftrightarrow> (\<exists>v. parse_slab bs = Inr v \<and> p = parsed_of v \<and> es = slab_entries ord v)"
  by (auto simp: index_slab_def parsed_of_def slab_entries_def split: sum.splits)

lemma index_sources_Inr:
  "index_sources ord sources parsed idx = Inr res \<longleftrightarrow>
     (\<exists>vs. list_all2 (\<lambda>s v. parse_slab (as_bytes s) = Inr v) sources vs
        \<and> res = (parsed @ map parsed_of vs, extend_index idx (all_entries ord vs)))"
proof (induction sources arbitrary: ord parsed idx)
  case Nil
  show ?case by (auto simp: extend_index_def)
next
  case (Cons s sources)
  show ?case
  proof (cases "parse_slab (as_bytes s)")
    case (Inl e)
    then show ?thesis by (simp add: index_slab_def list_all2_Cons1)
  next
    case (Inr v)
    then have "index_slab (as_bytes s) ord = Inr (parsed_of v, slab_entries ord v)" by (simp add: index_slab_Inr)
    with Inr Cons show ?thesis by (auto simp: list_all2_Cons1 extend_index_append)
  qed
qed

lemma from_sources_Inr:
  "from_sources slabs = Inr st \<longleftrightarrow>
     (\<exists>vs. list_all2 (\<lambda>s v. parse_slab (as_bytes s) = Inr v) slabs vs \<and> st = store_of slabs vs)"
proof -
  have "from_sources slabs = Inr st \<longleftrightarrow> (\<exists>res. index_sources 0 slabs [] [] = Inr res
      \<and> st = \<lparr>ss_slabs = slabs, ss_parsed = fst res, ss_drop_index = snd res, ss_dictionaries = []\<rparr>)"
    by (auto simp: from_sources_def split: sum.splits)
  then show ?thesis unfolding index_sources_Inr by (auto simp: store_of_def)
qed

lemma from_bytes_from_sources: "from_bytes bs = from_sources (map Memory bs)"
  by (simp add: from_bytes_def from_sources_def)

lemma load_slabs_from:
  assumes "list_all2 (\<lambda>e bs. \<exists>l ls name. sie_locators e = l # ls \<and> local_sidecar_name (uri l) = Inr name
      \<and> read_file name = Some bs) entries bss"
  shows "load_slabs read_file store ord entries slabs parsed idx =
    (case index_sources ord (map Memory bss) parsed idx of
       Inl e \<Rightarrow> Inl e
     | Inr (parsed', idx') \<Rightarrow> Inr \<lparr>ss_slabs = slabs @ map store bss, ss_parsed = parsed', ss_drop_index = idx',
         ss_dictionaries = []\<rparr>)"
  using assms
  by (induction entries bss arbitrary: ord slabs parsed idx rule: list_all2_induct) (auto split: sum.split)

lemma map_of_extend_index: "map_of (extend_index idx es) = map_of idx ++ map_of (rev es)"
proof (induction es arbitrary: idx)
  case (Cons e es)
  obtain k v where e: "e = (k, v)" by (rule prod.exhaust)
  have "extend_index idx (e # es) = extend_index (AList.update k v idx) es" by (simp add: extend_index_def e)
  with Cons show ?case by (simp add: e update_conv' fun_upd_def map_add_def fun_eq_iff split: option.split)
qed (simp add: extend_index_def)

lemma distinct_extend_index: "distinct (map fst idx) \<Longrightarrow> distinct (map fst (extend_index idx es))"
  by (induction es arbitrary: idx) (auto simp: extend_index_def distinct_update)

lemma in_all_entries:
  "(k, (o', r)) \<in> set (all_entries ord vs) \<longleftrightarrow>
     ord \<le> o' \<and> o' < ord + length vs \<and> r < length (sv_drop_records (vs ! (o' - ord)))
     \<and> k = dr_drop_id (sv_drop_records (vs ! (o' - ord)) ! r)"
proof -
  have "(k, (o', r)) \<in> set (all_entries ord vs) \<longleftrightarrow> (\<exists>v. (o', v) \<in> set (enumerate ord vs)
      \<and> (\<exists>record. (r, record) \<in> set (enumerate 0 (sv_drop_records v)) \<and> k = dr_drop_id record))"
    by (force simp: all_entries_def slab_entries_def)
  then show ?thesis by (auto simp: in_set_enumerate_eq)
qed

text \<open>Building the store succeeds exactly when every slab parses, and the index then holds exactly the drops of the
  slabs: each indexed id leads to a record with that id, and each record's id is indexed.\<close>

theorem slab_store_index:
  "from_sources slabs = Inr st \<longleftrightarrow>
     (\<exists>vs. list_all2 (\<lambda>s v. parse_slab (as_bytes s) = Inr v) slabs vs \<and> st = store_of slabs vs
        \<and> (\<forall>i. store_contains st i \<longleftrightarrow> (\<exists>v \<in> set vs. \<exists>r \<in> set (sv_drop_records v). dr_drop_id r = i))
        \<and> (\<forall>i o' r. map_of (ss_drop_index st) i = Some (o', r) \<longrightarrow>
             o' < length vs \<and> r < length (sv_drop_records (vs ! o')) \<and> dr_drop_id (sv_drop_records (vs ! o') ! r) = i))"
    (is "_ \<longleftrightarrow> ?rhs")
proof -
  have idx: "map_of (ss_drop_index (store_of slabs vs)) = map_of (rev (all_entries 0 vs))" for vs
    by (simp add: store_of_def map_of_extend_index)
  have some: "o' < length vs \<and> r < length (sv_drop_records (vs ! o')) \<and> dr_drop_id (sv_drop_records (vs ! o') ! r) = i"
    if "map_of (ss_drop_index (store_of slabs vs)) i = Some (o', r)" for vs i o' r
    using map_of_SomeD [OF that [unfolded idx]] by (auto simp: in_all_entries)
  have dom: "store_contains (store_of slabs vs) i \<longleftrightarrow> (\<exists>v \<in> set vs. \<exists>r \<in> set (sv_drop_records v). dr_drop_id r = i)" for vs i
  proof -
    have "store_contains (store_of slabs vs) i \<longleftrightarrow> (\<exists>o' r. (i, (o', r)) \<in> set (all_entries 0 vs))"
      by (force simp: store_contains_def idx map_of_eq_None_iff image_iff)
    also have "\<dots> \<longleftrightarrow> (\<exists>v \<in> set vs. \<exists>r \<in> set (sv_drop_records v). dr_drop_id r = i)"
      unfolding in_all_entries by (auto simp: in_set_conv_nth) (metis nth_mem)+
    finally show ?thesis .
  qed
  show ?thesis unfolding from_sources_Inr using some dom by blast
qed

definition example_store :: slab_store where
  "example_store = store_of [Mapped (sv_bytes example_view)] [example_view]"

lemma example_store_built: "from_sources [Mapped (sv_bytes example_view)] = Inr example_store"
  unfolding example_store_def from_sources_Inr using example_view_parses by (intro exI [of _ "[example_view]"]) simp

theorem slab_store_index_witness:
  "from_sources [Mapped (sv_bytes example_view)] = Inr example_store \<and> store_contains example_store (replicate 32 1)"
proof -
  from example_store_built slab_store_index [of "[Mapped (sv_bytes example_view)]" example_store]
  obtain vs where vs: "list_all2 (\<lambda>s v. parse_slab (as_bytes s) = Inr v) [Mapped (sv_bytes example_view)] vs"
    "\<forall>i. store_contains example_store i \<longleftrightarrow> (\<exists>v \<in> set vs. \<exists>r \<in> set (sv_drop_records v). dr_drop_id r = i)" by blast
  then have "vs = [example_view]" by (auto simp: list_all2_Cons1 example_view_parses)
  with vs(2) have "store_contains example_store (replicate 32 1)"
    by (simp add: example_view_def example_record_def Let_def)
  then show ?thesis using example_store_built by blast
qed

section \<open>The store and the slab reader\<close>

text \<open>A drop that one record of one slab holds.\<close>

definition sole_record :: "slab_view list \<Rightarrow> nat \<Rightarrow> nat \<Rightarrow> bytes \<Rightarrow> bool" where
  "sole_record vs o' r i \<longleftrightarrow>
     o' < length vs \<and> r < length (sv_drop_records (vs ! o')) \<and> dr_drop_id (sv_drop_records (vs ! o') ! r) = i
     \<and> distinct (concat (map (\<lambda>v. map dr_drop_id (sv_drop_records v)) vs))"

lemma keys_all_entries: "map fst (all_entries ord vs) = concat (map (\<lambda>v. map dr_drop_id (sv_drop_records v)) vs)"
proof (induction vs arbitrary: ord)
  case (Cons v vs)
  have "map fst (slab_entries ord v) = map dr_drop_id (sv_drop_records v)"
  proof -
    have "map fst (slab_entries ord v) = map (dr_drop_id \<circ> snd) (enumerate 0 (sv_drop_records v))"
      by (auto simp: slab_entries_def)
    also have "\<dots> = map dr_drop_id (sv_drop_records v)" by (simp only: map_map [symmetric] map_snd_enumerate)
    finally show ?thesis .
  qed
  with Cons show ?case by simp
qed simp

lemma index_sole_record:
  assumes "sole_record vs o' r i"
  shows "map_of (ss_drop_index (store_of slabs vs)) i = Some (o', r)"
proof -
  have "distinct (map fst (all_entries 0 vs))" using assms by (simp add: keys_all_entries sole_record_def)
  then have "distinct (map fst (rev (all_entries 0 vs)))" by (simp add: rev_map [symmetric])
  moreover have "(i, (o', r)) \<in> set (rev (all_entries 0 vs))"
    using assms by (simp add: in_all_entries sole_record_def)
  ultimately show ?thesis by (simp add: store_of_def map_of_extend_index)
qed

lemma find_sole_record:
  assumes "sole_record vs o' r i"
  shows "find_record (vs ! o') i = Some (sv_drop_records (vs ! o') ! r)"
proof -
  let ?rs = "sv_drop_records (vs ! o')"
  have "distinct (map dr_drop_id ?rs)"
    using assms unfolding sole_record_def distinct_concat_iff by force
  then have "\<not> dr_drop_id (?rs ! j) = i" if "j < r" for j
    using assms that by (auto simp: sole_record_def distinct_conv_nth)
  then show ?thesis using assms by (auto simp: find_record_def find_Some_iff sole_record_def)
qed

lemma locate_sole_record:
  assumes "list_all2 (\<lambda>s v. parse_slab (as_bytes s) = Inr v) slabs vs" "sole_record vs o' r i"
    and "v = vs ! o'" "rd = sv_drop_records v ! r" "in_window v rd"
  shows "locate_window (store_of slabs vs) i = Some (sv_bytes v, rd,
      sv_solid_window_start v + unat (dr_offset_in_window rd),
      sv_solid_window_start v + unat (dr_offset_in_window rd) + unat (dr_len_in_window rd))"
proof -
  have o': "o' < length slabs" "o' < length vs" and r: "r < length (sv_drop_records v)"
    using assms(1-3) by (auto simp: sole_record_def dest: list_all2_lengthD)
  have "parse_slab (as_bytes (slabs ! o')) = Inr v" using list_all2_nthD [OF assms(1) o'(1)] assms(3) by simp
  then have "as_bytes (slabs ! o') = sv_bytes v" by (simp add: parse_slab_layout)
  then show ?thesis
    using index_sole_record [OF assms(2), of slabs] o' r assms(3-5)
    by (simp add: locate_window_def store_of_def get_nth_def parsed_of_def in_window_def usize_checked_add_def)
qed

lemma decode_drop_readable:
  "check_drop_readable rd = Inr () \<Longrightarrow> decode_drop dec ddec rd raw dl = decode_drop_bytes dec ddec rd raw dl"
  by (auto simp: check_drop_readable_def decode_drop_def decode_drop_bytes_def split: if_splits)

lemma dictionaries_irrelevant [simp]:
  "locate_window (set_dictionaries ds st) i = locate_window st i"
  "ss_dictionaries (set_dictionaries ds st) = ds"
  by (simp_all add: set_dictionaries_def locate_window_def)

lemma store_reads_slab:
  assumes "from_sources slabs = Inr st" and views: "list_all2 (\<lambda>s v. parse_slab (as_bytes s) = Inr v) slabs vs"
    and "distinct (concat (map (\<lambda>v. map dr_drop_id (sv_drop_records v)) vs))"
    and "v \<in> set vs" "length (sv_bytes v) < usize_bound"
    and full: "plaintext_for_with_dict_lookup dec ddec v i (map_of ds) = Some (Inr p)"
  shows "store_plaintext_for dec ddec (set_dictionaries ds st) i = Some (Inr p)"
proof -
  from assms(1) obtain vs' where "list_all2 (\<lambda>s v. parse_slab (as_bytes s) = Inr v) slabs vs'" "st = store_of slabs vs'"
    unfolding from_sources_Inr by blast
  moreover from this(1) views have "vs' = vs"
    by (induction slabs arbitrary: vs vs') (auto simp: list_all2_Cons1)
  ultimately have st: "st = store_of slabs vs" by simp
  obtain o' where o': "o' < length vs" "vs ! o' = v" using assms(4) by (auto simp: in_set_conv_nth)
  obtain rd where f: "find_record v i = Some rd" and c: "check_drop_readable rd = Inr ()"
    and w: "in_window v rd" and d: "decode_drop_bytes dec ddec rd (window_bytes v rd) (map_of ds) = Inr p"
    using full unfolding plaintext_for_Inr [OF assms(5)] by blast
  obtain r where r: "r < length (sv_drop_records v)" "sv_drop_records v ! r = rd" "dr_drop_id rd = i"
    using f by (auto simp: find_record_def find_Some_iff)
  have "sole_record vs o' r i" using assms(3) o' r by (simp add: sole_record_def)
  from locate_sole_record [OF views this o'(2) [symmetric] r(2) [symmetric] w] d show ?thesis
    by (simp add: st store_plaintext_for_def decode_drop_readable [OF c] window_bytes_def)
qed


lemma example_store_views:
  "list_all2 (\<lambda>s v. parse_slab (as_bytes s) = Inr v) [Mapped (sv_bytes example_view)] [example_view]"
  "distinct (concat (map (\<lambda>v. map dr_drop_id (sv_drop_records v)) [example_view]))"
  "length (sv_bytes example_view) < usize_bound"
  by (simp_all add: example_view_parses)
    (simp_all add: example_view_def Let_def example_record_def encode_slab_header_def encode_drop_record_def)

lemma example_store_dictionaries: "set_dictionaries [] example_store = example_store"
  by (simp add: set_dictionaries_def example_store_def store_of_def)


lemma example_store_plaintext:
  "store_plaintext_for (registry_decompress [store_codec]) (\<lambda>_ _ _. Inl (BadMagic [])) example_store
     (replicate 32 1) = Some (Inr [1, 2, 3, 4, 5])"
proof -
  have "store_plaintext_for (registry_decompress [store_codec]) (\<lambda>_ _ _. Inl (BadMagic [])) (set_dictionaries [] example_store)
     (replicate 32 1) = Some (Inr [1, 2, 3, 4, 5])"
    by (rule store_reads_slab [OF example_store_built example_store_views(1,2) _ example_store_views(3)])
      (use example_view_plaintext in \<open>simp_all add: plaintext_for_def\<close>)
  then show ?thesis by (simp only: example_store_dictionaries)
qed

end
