(* ===== verification/Slab_Source.thy ===== *)
theory Slab_Source
  imports Slab_Store
begin

text \<open>
  The interface of the file reader to the slabs (\<open>SlabSource\<close> of \<open>limnifs-core/src/slab_source.rs\<close>): a ranged read into a
  buffer, with the default that decodes the whole drop, and the chain of a layer's slabs over its bases. The contract of
  the interface is the locale \<open>slab_source\<close>; the store and the chain are instances here, the cached store is one in
  \<open>Cached_Store\<close>. A buffer written through a mutable slice is returned with the count.
\<close>

text \<open>\<open>buf[pos..pos + src.len()].copy_from_slice(src)\<close>, inside the buffer.\<close>

definition copy_at :: "nat \<Rightarrow> bytes \<Rightarrow> bytes \<Rightarrow> bytes" where
  "copy_at pos src buf = take pos buf @ src @ drop (pos + length src) buf"

text \<open>The copy of a window of a whole plaintext into the buffer.\<close>

definition fill_from :: "bytes \<Rightarrow> u64 \<Rightarrow> bytes \<Rightarrow> nat \<times> bytes" where
  "fill_from full off buf =
     (let total = length full in
      if unat off \<ge> total then (0, buf)
      else let avail = min (total - unat off) (length buf)
           in (avail, copy_at 0 (take avail (drop (unat off) full)) buf))"

lemma length_copy_at [simp]: "p + length a \<le> length buf \<Longrightarrow> length (copy_at p a buf) = length buf"
  by (simp add: copy_at_def)

lemma copy_at_append:
  "p \<le> length buf \<Longrightarrow> q = p + length a \<Longrightarrow> copy_at q b (copy_at p a buf) = copy_at p (a @ b) buf"
  by (simp add: copy_at_def add.assoc add.commute [of "length b"] add.left_commute)

lemma copy_at_Nil [simp]: "copy_at p [] buf = buf"
  by (simp add: copy_at_def)

section \<open>Sources\<close>

definition default_range_into :: "(bytes \<Rightarrow> bytes outcome option) \<Rightarrow> bytes \<Rightarrow> u64 \<Rightarrow> bytes \<Rightarrow> (nat \<times> bytes) outcome option" where
  "default_range_into pf drop_id off buf =
     (if buf = [] then Some (Inr (0, buf)) else
      case pf drop_id of
        None \<Rightarrow> None
      | Some (Inl e) \<Rightarrow> Some (Inl e)
      | Some (Inr full) \<Rightarrow> Some (Inr (fill_from full off buf)))"

text \<open>\<open>find_map\<close> over the chain.\<close>

fun chain_plaintext_for :: "(bytes \<Rightarrow> bytes outcome option) list \<Rightarrow> bytes \<Rightarrow> bytes outcome option" where
  "chain_plaintext_for [] drop_id = None"
| "chain_plaintext_for (s # ss) drop_id =
     (case s drop_id of Some r \<Rightarrow> Some r | None \<Rightarrow> chain_plaintext_for ss drop_id)"

definition chain_slab_count :: "slab_store list \<Rightarrow> nat" where
  "chain_slab_count sources = sum_list (map store_slab_count sources)"

definition chain_drop_count :: "slab_store list \<Rightarrow> nat" where
  "chain_drop_count sources = sum_list (map store_drop_count sources)"

text \<open>The ranged read of a source with interior state: the outer \<^const>\<open>None\<close> is a panic.\<close>

type_synonym 's ranged_read = "bytes \<Rightarrow> u64 \<Rightarrow> bytes \<Rightarrow> 's \<Rightarrow> ((nat \<times> bytes) outcome option \<times> 's) option"

definition store_range_into :: "decompressor \<Rightarrow> dict_decompressor \<Rightarrow> slab_store ranged_read" where
  "store_range_into dec ddec drop_id off buf st =
     Some (default_range_into (store_plaintext_for dec ddec st) drop_id off buf, st)"

definition chain_range_into :: "decompressor \<Rightarrow> dict_decompressor \<Rightarrow> slab_store list ranged_read" where
  "chain_range_into dec ddec drop_id off buf sources =
     Some (default_range_into (chain_plaintext_for (map (store_plaintext_for dec ddec) sources)) drop_id off buf, sources)"

section \<open>The contract\<close>

text \<open>\<open>content\<close> is what the source's drops decode to. A read inside a drop fills the buffer from it and keeps the source
  in order; a read of an absent drop says so.\<close>

locale slab_source =
  fixes ranged :: "'s ranged_read"
    and ok :: "'s \<Rightarrow> bool"
    and content :: "bytes \<Rightarrow> bytes outcome option"
  assumes fills: "ok s \<Longrightarrow> content i = Some (Inr p) \<Longrightarrow> unat off \<le> length p \<Longrightarrow> unat off + length buf < 2 ^ 64 \<Longrightarrow>
      \<exists>s'. ok s' \<and> ranged i off buf s = Some (Some (Inr (fill_from p off buf)), s')"
    and absent: "ok s \<Longrightarrow> content i = None \<Longrightarrow> buf \<noteq> [] \<Longrightarrow> \<exists>s'. ok s' \<and> ranged i off buf s = Some (None, s')"

lemma fill_from_empty [simp]: "fill_from p off [] = (0, [])"
  by (simp add: fill_from_def Let_def)

lemma default_range_into_fills:
  "pf i = Some (Inr p) \<Longrightarrow> default_range_into pf i off buf = Some (Inr (fill_from p off buf))"
  by (simp add: default_range_into_def)

interpretation store_source: slab_source "store_range_into dec ddec" "\<lambda>st. st = st0" "store_plaintext_for dec ddec st0"
  for dec ddec st0
  by unfold_locales (simp_all add: store_range_into_def default_range_into_fills, simp add: default_range_into_def)

interpretation chain_source: slab_source "chain_range_into dec ddec" "\<lambda>sts. sts = sts0"
    "chain_plaintext_for (map (store_plaintext_for dec ddec) sts0)" for dec ddec sts0
  by unfold_locales (simp_all add: chain_range_into_def default_range_into_fills, simp add: default_range_into_def)

text \<open>A drop of the layer itself is found before any base is asked.\<close>

lemma chain_local_first:
  "store_plaintext_for dec ddec st i = Some r \<Longrightarrow>
     chain_plaintext_for (map (store_plaintext_for dec ddec) (st # bases)) i = Some r"
  by simp

lemma chain_plaintext_Some:
  "chain_plaintext_for ss i = Some r \<longleftrightarrow> (\<exists>k < length ss. (ss ! k) i = Some r \<and> (\<forall>j < k. (ss ! j) i = None))"
  by (induction ss) (auto simp: Ex_less_Suc2 All_less_Suc2 split: option.split)

end
