(* ===== verification/Cached_Store.thy ===== *)
theory Cached_Store
  imports Sieve_Cache Slab_Source
begin

text \<open>
  The cached slab store (\<open>CachedSlabStore\<close> of \<open>limnifs-core/src/slab_cache.rs\<close>): a slab store behind a cache of decoded
  drops, a cache of decoded frames of seekable drops and a memo of their footers. The mutexes guard single steps; the
  state is passed explicitly. \<open>dec\<close> is \<open>codec::decompress\<close>, \<open>ddec\<close> the dictionary decompression, \<open>H\<close> is BLAKE3 in
  \<open>frame_key\<close>. Results are layered: the outer \<^const>\<open>None\<close> is a panic, the inner one the \<open>None\<close> of the source.
  A buffer that is written through a mutable slice is returned with the count; on an error it is unspecified.
\<close>

record cached_store =
  cst_inner :: slab_store
  cst_cache :: sieve_cache
  cst_footers :: "(bytes \<times> seek_footer) list"
  cst_frames :: sieve_cache

definition DEFAULT_CACHE_CAPACITY :: nat where
  "DEFAULT_CACHE_CAPACITY = 1024"

definition DEFAULT_CACHE_BYTES :: nat where
  "DEFAULT_CACHE_BYTES = 64 * 1024 * 1024"

definition DEFAULT_FRAME_CACHE_BYTES :: nat where
  "DEFAULT_FRAME_CACHE_BYTES = 32 * 1024 * 1024"

definition with_frame_budget :: "slab_store \<Rightarrow> nat \<Rightarrow> nat \<Rightarrow> nat \<Rightarrow> cached_store" where
  "with_frame_budget inner entry_capacity byte_budget frame_byte_budget =
     (let frame_entries = min (max (frame_byte_budget div (128 * 1024)) 16) 1024
      in \<lparr>cst_inner = inner, cst_cache = sieve_new entry_capacity byte_budget, cst_footers = [],
          cst_frames = sieve_new frame_entries frame_byte_budget\<rparr>)"

definition with_bounds :: "slab_store \<Rightarrow> nat \<Rightarrow> nat \<Rightarrow> cached_store" where
  "with_bounds inner entry_capacity byte_budget =
     with_frame_budget inner entry_capacity byte_budget DEFAULT_FRAME_CACHE_BYTES"

definition cached_new :: "slab_store \<Rightarrow> nat \<Rightarrow> cached_store" where
  "cached_new inner capacity = with_bounds inner capacity DEFAULT_CACHE_BYTES"

definition with_default_capacity :: "slab_store \<Rightarrow> cached_store" where
  "with_default_capacity inner = cached_new inner DEFAULT_CACHE_CAPACITY"

section \<open>Whole drops\<close>

definition decoded_fetch_insert ::
    "decompressor \<Rightarrow> dict_decompressor \<Rightarrow> bytes \<Rightarrow> cached_store \<Rightarrow> bytes outcome option \<times> cached_store" where
  "decoded_fetch_insert dec ddec drop_id cs =
     (case store_plaintext_for dec ddec (cst_inner cs) drop_id of
        None \<Rightarrow> (None, cs)
      | Some (Inl e) \<Rightarrow> (Some (Inl e), cs)
      | Some (Inr shared) \<Rightarrow>
          (Some (Inr shared), cs\<lparr>cst_cache := snd (sieve_insert drop_id shared (cst_cache cs))\<rparr>))"

definition cache_lookup :: "bytes \<Rightarrow> cached_store \<Rightarrow> bytes option \<times> cached_store" where
  "cache_lookup drop_id cs =
     (case sieve_get drop_id (cst_cache cs) of (hit, cache) \<Rightarrow> (hit, cs\<lparr>cst_cache := cache\<rparr>))"

definition decoded ::
    "decompressor \<Rightarrow> dict_decompressor \<Rightarrow> bytes \<Rightarrow> cached_store \<Rightarrow> bytes outcome option \<times> cached_store" where
  "decoded dec ddec drop_id cs =
     (case cache_lookup drop_id cs of
        (Some hit, cs') \<Rightarrow> (Some (Inr hit), cs')
      | (None, cs') \<Rightarrow> decoded_fetch_insert dec ddec drop_id cs')"

definition cached_plaintext_for ::
    "decompressor \<Rightarrow> dict_decompressor \<Rightarrow> bytes \<Rightarrow> cached_store \<Rightarrow> bytes outcome option \<times> cached_store" where
  "cached_plaintext_for dec ddec drop_id cs = decoded_fetch_insert dec ddec drop_id cs"

section \<open>Frames\<close>

definition cached_footer :: "bytes \<Rightarrow> bytes \<Rightarrow> cached_store \<Rightarrow> seek_footer outcome \<times> cached_store" where
  "cached_footer drop_id raw cs =
     (case map_of (cst_footers cs) drop_id of
        Some hit \<Rightarrow> (Inr hit, cs)
      | None \<Rightarrow>
          (case parse_footer raw of
             Inl e \<Rightarrow> (Inl e, cs)
           | Inr parsed \<Rightarrow>
               let footers = (if length (cst_footers cs) \<ge> 4096 then [] else cst_footers cs)
               in (Inr parsed, cs\<lparr>cst_footers := AList.update drop_id parsed footers\<rparr>)))"

text \<open>One turn's frame: from the cache, or decoded and inserted. A frame that does not decode is the \<open>None\<close> of the
  caller: the error is dropped by \<open>.ok()?\<close>.\<close>

definition cached_frame :: "decompressor \<Rightarrow> bytes \<Rightarrow> u8 \<Rightarrow> bytes \<Rightarrow> u32 \<Rightarrow> sieve_cache \<Rightarrow> bytes option \<times> sieve_cache" where
  "cached_frame dec key cd frame_bytes uncomp_len frames =
     (case sieve_get key frames of
        (Some hit, frames') \<Rightarrow> (Some hit, frames')
      | (None, frames') \<Rightarrow>
          (case dec cd frame_bytes uncomp_len of
             Inl e \<Rightarrow> (None, frames')
           | Inr d \<Rightarrow> (Some d, snd (sieve_insert key d frames'))))"

primrec frame_range_loop :: "(bytes \<Rightarrow> bytes) \<Rightarrow> decompressor \<Rightarrow> bytes \<Rightarrow> u8 \<Rightarrow> bytes \<Rightarrow> nat \<Rightarrow> nat \<Rightarrow> nat \<Rightarrow> nat \<Rightarrow> nat
    \<Rightarrow> (u32 \<times> u32) list \<Rightarrow> bytes \<Rightarrow> sieve_cache \<Rightarrow> (bytes outcome option \<times> sieve_cache) option" where
  "frame_range_loop H dec drop_id cd raw off len i comp_pos cum [] out frames = Some (Some (Inr out), frames)"
| "frame_range_loop H dec drop_id cd raw off len i comp_pos cum (f # fs) out frames =
     (let uncomp_len = fst f; comp_len = snd f in
      if comp_pos + unat comp_len > length raw then None else
      case cached_frame dec (frame_key H drop_id (word_of_nat i)) cd
             (take (unat comp_len) (drop comp_pos raw)) uncomp_len frames of
        (None, frames') \<Rightarrow> Some (None, frames')
      | (Some d, frames') \<Rightarrow>
          let slice_from = off - cum;
              slice_to = min (u64_sub (u64_add off len) cum) (unat uncomp_len)
          in if slice_to < slice_from \<or> length d < slice_to then None else
             let out' = out @ take (slice_to - slice_from) (drop slice_from d)
             in if u64_add cum (unat uncomp_len) \<ge> u64_add off len then Some (Some (Inr out'), frames')
                else frame_range_loop H dec drop_id cd raw off len (Suc i) (comp_pos + unat comp_len)
                       (u64_add cum (unat uncomp_len)) fs out' frames')"

definition cached_frame_range :: "(bytes \<Rightarrow> bytes) \<Rightarrow> decompressor \<Rightarrow> bytes \<Rightarrow> u64 \<Rightarrow> nat \<Rightarrow> cached_store
    \<Rightarrow> (bytes outcome option \<times> cached_store) option" where
  "cached_frame_range H dec drop_id off len cs =
     (case store_raw_window (cst_inner cs) drop_id of
        None \<Rightarrow> Some (None, cs)
      | Some (raw, rd) \<Rightarrow>
          (case cached_footer drop_id raw cs of
             (Inl e, cs') \<Rightarrow> Some (Some (Inl e), cs')
           | (Inr footer, cs') \<Rightarrow>
               let total = total_uncomp footer in
               if unat off > total \<or> u64_add (unat off) len > total
               then Some (Some (Inl (Corrupt (ReaderReason (CacheRangeOutside off len total)))), cs') else
               if len \<ge> 2 ^ 63 then None else
               let first = frame_containing footer (unat off)
               in map_option (\<lambda>(r, frames). (r, cs'\<lparr>cst_frames := frames\<rparr>))
                    (frame_range_loop H dec drop_id (codec (dr_representation rd)) raw (unat off) len first
                       (compressed_offset_of footer first) (uncomp_offset footer first)
                       (drop first (zip (uncomp_lens footer) (comp_lens footer))) [] (cst_frames cs'))))"

definition cache_slice :: "u64 \<Rightarrow> nat \<Rightarrow> bytes \<Rightarrow> bytes outcome option" where
  "cache_slice off len bs =
     (if unat off > length bs \<or> u64_add (unat off) len > length bs
      then Some (Inl (Corrupt (ReaderReason (CacheRangeOutside off len (length bs)))))
      else if u64_add (unat off) len < unat off then None
      else Some (Inr (take len (drop (unat off) bs))))"

definition decoded_range :: "(bytes \<Rightarrow> bytes) \<Rightarrow> decompressor \<Rightarrow> dict_decompressor \<Rightarrow> bytes \<Rightarrow> u64 \<Rightarrow> nat \<Rightarrow> cached_store
    \<Rightarrow> (bytes outcome option \<times> cached_store) option" where
  "decoded_range H dec ddec drop_id off len cs =
     (case cache_lookup drop_id cs of
        (Some hit, cs') \<Rightarrow> map_option (\<lambda>r. (Some r, cs')) (cache_slice off len hit)
      | (None, cs') \<Rightarrow>
          if drop_is_seekable (cst_inner cs') drop_id = Some True
          then cached_frame_range H dec drop_id off len cs'
          else (case decoded_fetch_insert dec ddec drop_id cs' of
                  (None, cs'') \<Rightarrow> Some (None, cs'')
                | (Some (Inl e), cs'') \<Rightarrow> Some (Some (Inl e), cs'')
                | (Some (Inr full), cs'') \<Rightarrow> map_option (\<lambda>r. (Some r, cs'')) (cache_slice off len full)))"

section \<open>Reading into a buffer\<close>

primrec frame_range_into_loop :: "(bytes \<Rightarrow> bytes) \<Rightarrow> decompressor \<Rightarrow> bytes \<Rightarrow> u8 \<Rightarrow> bytes \<Rightarrow> nat \<Rightarrow> nat \<Rightarrow> nat \<Rightarrow> nat \<Rightarrow> nat
    \<Rightarrow> (u32 \<times> u32) list \<Rightarrow> nat \<Rightarrow> bytes \<Rightarrow> sieve_cache \<Rightarrow> ((nat \<times> bytes) outcome option \<times> sieve_cache) option" where
  "frame_range_into_loop H dec drop_id cd raw off avail_total i comp_pos cum [] written buf frames =
     Some (Some (Inr (written, buf)), frames)"
| "frame_range_into_loop H dec drop_id cd raw off avail_total i comp_pos cum (f # fs) written buf frames =
     (let uncomp_len = fst f; comp_len = snd f in
      if comp_pos + unat comp_len > length raw then None else
      case cached_frame dec (frame_key H drop_id (word_of_nat i)) cd
             (take (unat comp_len) (drop comp_pos raw)) uncomp_len frames of
        (None, frames') \<Rightarrow> Some (None, frames')
      | (Some d, frames') \<Rightarrow>
          let slice_from = off - cum;
              slice_to = min (u64_add off (length buf) - cum) (unat uncomp_len);
              tk = min (slice_to - slice_from) (unat uncomp_len - slice_from)
          in if tk = 0 then Some (Some (Inr (written, buf)), frames') else
             if written + tk > length buf \<or> slice_from + tk > length d then None else
             let buf' = copy_at written (take tk (drop slice_from d)) buf;
                 written' = written + tk
             in if written' \<ge> avail_total then Some (Some (Inr (written', buf')), frames')
                else frame_range_into_loop H dec drop_id cd raw off avail_total (Suc i) (comp_pos + unat comp_len)
                       (u64_add cum (unat uncomp_len)) fs written' buf' frames')"

definition cached_frame_range_into :: "(bytes \<Rightarrow> bytes) \<Rightarrow> decompressor \<Rightarrow> bytes \<Rightarrow> u64 \<Rightarrow> bytes \<Rightarrow> cached_store
    \<Rightarrow> ((nat \<times> bytes) outcome option \<times> cached_store) option" where
  "cached_frame_range_into H dec drop_id off buf cs =
     (case store_raw_window (cst_inner cs) drop_id of
        None \<Rightarrow> Some (None, cs)
      | Some (raw, rd) \<Rightarrow>
          (case cached_footer drop_id raw cs of
             (Inl e, cs') \<Rightarrow> Some (Some (Inl e), cs')
           | (Inr footer, cs') \<Rightarrow>
               let total = total_uncomp footer in
               if unat off > total
               then Some (Some (Inl (Corrupt (ReaderReason (CacheRangeOutside off (length buf) total)))), cs') else
               let avail_total = min (total - unat off) (length buf);
                   first = frame_containing footer (unat off)
               in map_option (\<lambda>(r, frames). (r, cs'\<lparr>cst_frames := frames\<rparr>))
                    (frame_range_into_loop H dec drop_id (codec (dr_representation rd)) raw (unat off) avail_total first
                       (compressed_offset_of footer first) (uncomp_offset footer first)
                       (drop first (zip (uncomp_lens footer) (comp_lens footer))) 0 buf (cst_frames cs'))))"

definition decoded_range_into :: "(bytes \<Rightarrow> bytes) \<Rightarrow> decompressor \<Rightarrow> dict_decompressor \<Rightarrow> bytes \<Rightarrow> u64 \<Rightarrow> bytes
    \<Rightarrow> cached_store \<Rightarrow> ((nat \<times> bytes) outcome option \<times> cached_store) option" where
  "decoded_range_into H dec ddec drop_id off buf cs =
     (if buf = [] then Some (Some (Inr (0, buf)), cs) else
      case cache_lookup drop_id cs of
        (Some hit, cs') \<Rightarrow> Some (Some (Inr (fill_from hit off buf)), cs')
      | (None, cs') \<Rightarrow>
          if drop_is_seekable (cst_inner cs') drop_id = Some True
          then cached_frame_range_into H dec drop_id off buf cs'
          else (case decoded_fetch_insert dec ddec drop_id cs' of
                  (None, cs'') \<Rightarrow> Some (None, cs'')
                | (Some (Inl e), cs'') \<Rightarrow> Some (Some (Inl e), cs'')
                | (Some (Inr full), cs'') \<Rightarrow> Some (Some (Inr (fill_from full off buf)), cs'')))"

section \<open>Coherence\<close>

text \<open>What the caches may hold: for a drop its plaintext, for a frame its decoded bytes, for a footer the parse of the
  drop's bytes. Frames are stored under a hash of the drop id and the frame number; that no two frames of the image
  share a key is the hypothesis \<open>no_frame_collision\<close> on the hash.\<close>

definition drop_memo :: "decompressor \<Rightarrow> dict_decompressor \<Rightarrow> slab_store \<Rightarrow> bytes \<rightharpoonup> bytes" where
  "drop_memo dec ddec st drop_id =
     (case store_plaintext_for dec ddec st drop_id of Some (Inr p) \<Rightarrow> Some p | _ \<Rightarrow> None)"

definition frames_of :: "slab_store \<Rightarrow> (bytes \<times> nat) set" where
  "frames_of st = {(drop_id, k). \<exists>raw rd f. store_raw_window st drop_id = Some (raw, rd) \<and> parse_footer raw = Inr f
     \<and> k < length (uncomp_lens f)}"

definition frame_id :: "(bytes \<Rightarrow> bytes) \<Rightarrow> bytes \<times> nat \<Rightarrow> bytes" where
  "frame_id H x = frame_key H (fst x) (word_of_nat (snd x))"

definition no_frame_collision :: "(bytes \<Rightarrow> bytes) \<Rightarrow> slab_store \<Rightarrow> bool" where
  "no_frame_collision H st \<longleftrightarrow> inj_on (frame_id H) (frames_of st)"

definition frame_at :: "decompressor \<Rightarrow> slab_store \<Rightarrow> bytes \<times> nat \<Rightarrow> bytes option" where
  "frame_at dec st x =
     (case store_raw_window st (fst x) of
        None \<Rightarrow> None
      | Some (raw, rd) \<Rightarrow>
          (case parse_footer raw of
             Inl e \<Rightarrow> None
           | Inr f \<Rightarrow>
               (case dec (codec (dr_representation rd))
                       (take (unat (comp_lens f ! snd x)) (drop (compressed_offset_of f (snd x)) raw))
                       (uncomp_lens f ! snd x) of
                  Inl e \<Rightarrow> None
                | Inr d \<Rightarrow> Some d)))"

definition frame_memo :: "(bytes \<Rightarrow> bytes) \<Rightarrow> decompressor \<Rightarrow> slab_store \<Rightarrow> bytes \<rightharpoonup> bytes" where
  "frame_memo H dec st key =
     (if key \<in> frame_id H ` frames_of st then frame_at dec st (inv_into (frames_of st) (frame_id H) key) else None)"

lemma frame_memo_key:
  "no_frame_collision H st \<Longrightarrow> x \<in> frames_of st \<Longrightarrow> frame_memo H dec st (frame_id H x) = frame_at dec st x"
  by (simp add: frame_memo_def no_frame_collision_def inv_into_f_f)

definition cached_inv :: "(bytes \<Rightarrow> bytes) \<Rightarrow> decompressor \<Rightarrow> dict_decompressor \<Rightarrow> slab_store \<Rightarrow> cached_store \<Rightarrow> bool" where
  "cached_inv H dec ddec st cs \<longleftrightarrow>
     cst_inner cs = st
     \<and> sieve.memoises (drop_memo dec ddec st) (cst_cache cs)
     \<and> sieve.memoises (frame_memo H dec st) (cst_frames cs)
     \<and> (\<forall>i f. map_of (cst_footers cs) i = Some f \<longrightarrow>
          (\<exists>raw rd. store_raw_window st i = Some (raw, rd) \<and> parse_footer raw = Inr f))"

lemma cached_inv_new: "cached_inv H dec ddec st (with_frame_budget st n b fb)"
proof -
  have "sieve.memoises m (sieve_new x y)" for m x y
    unfolding sieve.memoises_def by (simp add: sieve_new_def sieve_inv_def sieve_contents_def)
  then show ?thesis by (simp add: cached_inv_def with_frame_budget_def Let_def)
qed

lemma cache_lookup_inv:
  assumes "cached_inv H dec ddec st cs" "cache_lookup i cs = (r, cs')"
  shows "cached_inv H dec ddec st cs'" and "r = None \<or> store_plaintext_for dec ddec st i = Some (Inr (the r))"
proof -
  obtain cache where g: "sieve_get i (cst_cache cs) = (r, cache)" and cs': "cs' = cs\<lparr>cst_cache := cache\<rparr>"
    using assms(2) by (auto simp: cache_lookup_def split: prod.splits)
  have m: "sieve.memoises (drop_memo dec ddec st) (cst_cache cs)" using assms(1) by (simp add: cached_inv_def)
  note h = sieve.memoises_get [OF m g]
  show "cached_inv H dec ddec st cs'" using assms(1) h(1) by (simp add: cached_inv_def cs')
  show "r = None \<or> store_plaintext_for dec ddec st i = Some (Inr (the r))"
    using h(2) by (auto simp: drop_memo_def split: option.splits sum.splits)
qed

lemma decoded_fetch_insert_inv:
  assumes "cached_inv H dec ddec st cs"
  shows "cached_inv H dec ddec st (snd (decoded_fetch_insert dec ddec i cs))"
    and "fst (decoded_fetch_insert dec ddec i cs) = store_plaintext_for dec ddec st i"
proof -
  have st: "cst_inner cs = st" and m: "sieve.memoises (drop_memo dec ddec st) (cst_cache cs)"
    using assms by (simp_all add: cached_inv_def)
  show "fst (decoded_fetch_insert dec ddec i cs) = store_plaintext_for dec ddec st i"
    by (simp add: decoded_fetch_insert_def st split: option.splits sum.splits)
  show "cached_inv H dec ddec st (snd (decoded_fetch_insert dec ddec i cs))"
    using assms sieve.memoises_insert [OF m, of i]
    by (auto simp: decoded_fetch_insert_def st cached_inv_def drop_memo_def split: option.splits sum.splits)
qed

lemma decoded_transparent:
  assumes "cached_inv H dec ddec st cs"
  shows "fst (decoded dec ddec i cs) = store_plaintext_for dec ddec st i"
    and "cached_inv H dec ddec st (snd (decoded dec ddec i cs))"
proof -
  obtain r cs' where l: "cache_lookup i cs = (r, cs')" by fastforce
  note c = cache_lookup_inv [OF assms l]
  show "fst (decoded dec ddec i cs) = store_plaintext_for dec ddec st i"
    "cached_inv H dec ddec st (snd (decoded dec ddec i cs))"
    using c(2) decoded_fetch_insert_inv [OF c(1), of i] c(1) by (auto simp: decoded_def l split: option.split)
qed

lemma cached_footer_inv:
  assumes "cached_inv H dec ddec st cs" "store_raw_window st i = Some (raw, rd)" "cached_footer i raw cs = (r, cs')"
  shows "cached_inv H dec ddec st cs'" and "r = parse_footer raw" and "cst_frames cs' = cst_frames cs"
proof -
  show "r = parse_footer raw"
    using assms by (fastforce simp: cached_footer_def cached_inv_def Let_def split: option.splits sum.splits)
  show "cached_inv H dec ddec st cs'" "cst_frames cs' = cst_frames cs"
    using assms by (auto simp: cached_footer_def cached_inv_def Let_def update_conv' split: option.splits sum.splits if_splits)
qed

lemma cached_frame_hit:
  assumes "sieve.memoises F frames" "F key = Some d" "dec cd fb u = Inr d"
  obtains frames' where "cached_frame dec key cd fb u frames = (Some d, frames')" "sieve.memoises F frames'"
proof -
  obtain r frames1 where g: "sieve_get key frames = (r, frames1)" by fastforce
  note m = sieve.memoises_get [OF assms(1) g]
  show ?thesis
  proof (cases r)
    case None
    then show ?thesis
      using that sieve.memoises_insert [OF m(1) assms(2)] assms(3) by (simp add: cached_frame_def g)
  next
    case (Some v)
    with m assms(2) that show ?thesis by (simp add: cached_frame_def g)
  qed
qed

section \<open>The frame loops\<close>

text \<open>The keys of the frames from number \<open>i\<close> on lead to the given pieces.\<close>

definition frames_known :: "(bytes \<Rightarrow> bytes) \<Rightarrow> (bytes \<rightharpoonup> bytes) \<Rightarrow> bytes \<Rightarrow> nat \<Rightarrow> bytes list \<Rightarrow> bool" where
  "frames_known H F drop_id i ds \<longleftrightarrow> (\<forall>j < length ds. F (frame_key H drop_id (word_of_nat (i + j))) = Some (ds ! j))"

lemma frames_known_Cons:
  "frames_known H F drop_id i (d # ds) \<longleftrightarrow>
     F (frame_key H drop_id (word_of_nat i)) = Some d \<and> frames_known H F drop_id (Suc i) ds"
  by (auto simp: frames_known_def nth_Cons less_Suc_eq_0_disj simp del: of_nat_add split: nat.splits)

lemma frame_range_loop_sim:
  assumes "frames_decode dec cd raw pos fs ds" "frames_known H F drop_id i ds" "sieve.memoises F frames"
    and "pos + usum (map snd fs) \<le> length raw" "range_frames dec cd raw off len pos cum fs out = Some (Inr r)"
  shows "\<exists>frames'. frame_range_loop H dec drop_id cd raw off len i pos cum fs out frames = Some (Some (Inr r), frames')
    \<and> sieve.memoises F frames'"
  using assms
proof (induction fs arbitrary: ds i pos cum out frames)
  case (Cons f fs)
  obtain u l where f: "f = (u, l)" by (cases f)
  from Cons.prems(1) f obtain d ds' where ds: "ds = d # ds'"
    and d: "dec cd (take (unat l) (drop pos raw)) u = Inr d" and rest: "frames_decode dec cd raw (pos + unat l) fs ds'"
    by (cases ds) auto
  have k: "F (frame_key H drop_id (word_of_nat i)) = Some d" "frames_known H F drop_id (Suc i) ds'"
    using Cons.prems(2) by (simp_all add: ds frames_known_Cons)
  obtain frames1 where c: "cached_frame dec (frame_key H drop_id (word_of_nat i)) cd (take (unat l) (drop pos raw)) u frames
      = (Some d, frames1)" and m: "sieve.memoises F frames1"
    using cached_frame_hit [where dec = dec and cd = cd and u = u, OF Cons.prems(3) k(1) d] by metis
  have fit: "pos + unat l \<le> length raw" "pos + unat l + usum (map snd fs) \<le> length raw"
    using Cons.prems(4) by (simp_all add: f)
  note ih = Cons.IH [OF rest k(2) m fit(2)]
  show ?case
    using Cons.prems(5) fit(1) d c ih m by (auto simp: f Let_def split: if_splits)
qed simp

context sized_decompressor
begin

lemma frame_range_into_loop_fills:
  assumes "frames_decode decompress cd raw pos fs ds" "frames_known H F drop_id i ds" "sieve.memoises F frames"
    and "pos + usum (map snd fs) \<le> length raw" "off + length buf < 2 ^ 64" "cum + usum (map fst fs) < 2 ^ 64"
    and "avail \<le> length buf" "off + avail \<le> cum + usum (map fst fs)" "cum - off < avail"
    and "avail = length buf \<or> off + avail = cum + usum (map fst fs)"
    and "fs \<noteq> []" "off < cum + unat (fst (hd fs))" "\<forall>f \<in> set fs. fst f \<noteq> 0"
  shows "\<exists>frames'. frame_range_into_loop H decompress drop_id cd raw off avail i pos cum fs (cum - off) buf frames
      = Some (Some (Inr (avail, copy_at (cum - off) (take (avail - (cum - off)) (drop (off - cum) (concat ds))) buf)), frames')
    \<and> sieve.memoises F frames'"
  using assms
proof (induction fs arbitrary: ds i pos cum buf frames)
  case (Cons f fs)
  obtain u l where f: "f = (u, l)" by (cases f)
  from Cons.prems(1) f obtain d ds' where ds: "ds = d # ds'"
    and d: "decompress cd (take (unat l) (drop pos raw)) u = Inr d"
    and rest: "frames_decode decompress cd raw (pos + unat l) fs ds'"
    by (cases ds) auto
  have ld: "length d = unat u" using decompress_length [OF d] .
  have k: "F (frame_key H drop_id (word_of_nat i)) = Some d" "frames_known H F drop_id (Suc i) ds'"
    using Cons.prems(2) by (simp_all add: ds frames_known_Cons)
  obtain frames1 where c: "cached_frame decompress (frame_key H drop_id (word_of_nat i)) cd (take (unat l) (drop pos raw)) u frames
      = (Some d, frames1)" and m: "sieve.memoises F frames1"
    using cached_frame_hit [where dec = decompress and cd = cd and u = u, OF Cons.prems(3) k(1) d] by metis
  have fit: "\<not> length raw < pos + unat l" "pos + unat l + usum (map snd fs) \<le> length raw"
    using Cons.prems(4) by (simp_all add: f)
  define rs where "rs = usum (map fst fs)"
  have b: "off < cum + unat u" "off + avail \<le> cum + (unat u + rs)" "cum + (unat u + rs) < 2 ^ 64"
      "cum - off < avail" "avail \<le> length buf" "avail = length buf \<or> off + avail = cum + (unat u + rs)"
    using Cons.prems f by (simp_all add: rs_def)
  have u: "0 < unat u" using Cons.prems(13) by (simp add: f unat_gt_0)
  have ar: "u64_add off (length buf) = off + length buf" "u64_add cum (unat u) = cum + unat u"
    using b Cons.prems(5) by (auto intro!: u64_add_exact)
  define sf where "sf = off - cum"
  define tk where "tk = min (min (off + length buf - cum) (unat u) - sf) (unat u - sf)"
  show ?case
  proof (cases "off + avail \<le> cum + unat u")
    case True
    have tk: "tk = avail - (cum - off)" using b True unfolding tk_def sf_def by linarith
    then have "tk \<noteq> 0" "cum - off + tk = avail" "sf + tk \<le> length d"
      using b True ld by (simp_all add: sf_def)
    moreover have "take tk (drop sf (d @ concat ds')) = take tk (drop sf d)" using \<open>sf + tk \<le> length d\<close> by simp
    ultimately show ?thesis
      using b(5) m fit(1) unfolding frame_range_into_loop.simps f fst_conv snd_conv Let_def c ar
        sf_def [symmetric] tk_def [symmetric] ds tk [symmetric] by simp
  next
    case False
    have tk: "tk = unat u - sf" using b False unfolding tk_def sf_def by linarith
    have w: "tk \<noteq> 0" "cum - off + tk = cum + unat u - off" "sf + tk = length d" "cum - off + tk < avail"
      using b u False ld unfolding tk sf_def by simp_all
    have fs: "fs \<noteq> []" "cum + unat u - off < avail" using False b w by (auto simp: rs_def)
    let ?buf = "copy_at (cum - off) (take tk (drop sf d)) buf"
    have lb: "length (take tk (drop sf d)) = tk" "length ?buf = length buf" using w b by simp_all
    have "\<exists>frames'. frame_range_into_loop H decompress drop_id cd raw off avail (Suc i) (pos + unat l) (cum + unat u) fs
          (cum + unat u - off) ?buf frames1
        = Some (Some (Inr (avail, copy_at (cum + unat u - off)
            (take (avail - (cum + unat u - off)) (drop (off - (cum + unat u)) (concat ds'))) ?buf)), frames')
      \<and> sieve.memoises F frames'"
      using Cons.IH [OF rest k(2) m fit(2), of ?buf "cum + unat u"] b [unfolded rs_def] Cons.prems(5, 13) fs
      by (simp add: lb add.assoc f)
    moreover have "copy_at (cum + unat u - off)
          (take (avail - (cum + unat u - off)) (drop (off - (cum + unat u)) (concat ds'))) ?buf
        = copy_at (cum - off) (take (avail - (cum - off)) (drop sf (concat ds))) buf"
    proof -
      have "take (avail - (cum - off)) (drop sf (d @ concat ds'))
          = take tk (drop sf d) @ take (avail - (cum + unat u - off)) (concat ds')"
      proof -
        have l: "length (drop sf d) = tk" "sf \<le> length d" using w(3) by simp_all
        have "avail - (cum - off) - tk = avail - (cum + unat u - off)" using w(2) by (simp only: diff_diff_left)
        moreover have "tk \<le> avail - (cum - off)" using w(4) by simp
        ultimately show ?thesis using l by (simp only: drop_append take_append) simp
      qed
      moreover have "off - (cum + unat u) = 0" using b(1) by simp
      ultimately show ?thesis using w b lb(1) by (subst copy_at_append) (simp_all add: ds)
    qed
    ultimately show ?thesis
      using w b(5) fit(1) unfolding frame_range_into_loop.simps f fst_conv snd_conv Let_def c ar
        sf_def [symmetric] tk_def [symmetric] by simp
  qed
qed simp

end

section \<open>Windows\<close>

lemma frames_decode_nth:
  "frames_decode dec i c pos fs ds \<Longrightarrow> j < length fs \<Longrightarrow>
     dec i (take (unat (snd (fs ! j))) (drop (pos + usum (map snd (take j fs))) c)) (fst (fs ! j)) = Inr (ds ! j)"
  by (induction dec i c pos fs ds arbitrary: j rule: frames_decode.induct)
    (auto simp: nth_Cons add.assoc split: nat.splits)

lemma frames_decode_length: "frames_decode dec i c pos fs ds \<Longrightarrow> length ds = length fs"
  by (induction dec i c pos fs ds rule: frames_decode.induct) auto

lemma seekable_located:
  assumes "store_plaintext_for dec ddec st i = Some (Inr p)" "drop_is_seekable st i = Some True"
  obtains raw rd where "store_raw_window st i = Some (raw, rd)"
    "decode_seekable dec (codec (dr_representation rd)) raw (dr_plaintext_len rd) = Inr p"
proof -
  from assms obtain bs rd start stop where l: "locate_window st i = Some (bs, rd, start, stop)"
    and s: "is_seekable_record rd" and d: "decode_drop dec ddec rd (take (stop - start) (drop start bs)) (map_of (ss_dictionaries st)) = Inr p"
    by (auto simp: store_plaintext_for_def drop_is_seekable_def split: bind_splits)
  show ?thesis
    by (rule that [of "take (stop - start) (drop start bs)" rd])
      (use l s d in \<open>auto simp: store_raw_window_def decode_drop_def split: if_splits\<close>)
qed

context sized_decompressor
begin

lemma frames_known_store:
  assumes nc: "no_frame_collision H st" and raw: "store_raw_window st drop_id = Some (raw, rd)"
    and sk: "seeks_to (codec (dr_representation rd)) raw p off f k ds"
  shows "frames_known H (frame_memo H decompress st) drop_id k ds"
  unfolding frames_known_def
proof (intro allI impI)
  fix j assume j: "j < length ds"
  define es where "es = zip (uncomp_lens f) (comp_lens f)"
  note s = seeks_toD [OF sk]
  have le: "length es = length (uncomp_lens f)" using s(12) by (simp add: es_def)
  have j': "j < length (drop k es)" using j frames_decode_length [OF s(6)] by (simp add: es_def)
  have pos: "compressed_offset_of f k + usum (map snd (take j (drop k es))) = compressed_offset_of f (k + j)"
  proof -
    have "map snd es = comp_lens f" using s(12) by (simp add: es_def)
    then have "map snd (take j (drop k es)) = take j (drop k (comp_lens f))" by (metis drop_map take_map)
    then show ?thesis by (simp add: compressed_offset_of_def take_add)
  qed
  have nth: "drop k es ! j = (uncomp_lens f ! (k + j), comp_lens f ! (k + j))"
    using j' le s(12) by (simp add: es_def)
  have mem: "(drop_id, k + j) \<in> frames_of st"
    using raw s(1) j' le by (auto simp: frames_of_def)
  have "frame_at decompress st (drop_id, k + j) = Some (ds ! j)"
    using frames_decode_nth [OF s(6) [folded es_def] j', unfolded pos nth] raw s(1) by (simp add: frame_at_def)
  with frame_memo_key [OF nc mem, of decompress]
  show "frame_memo H decompress st (frame_key H drop_id (word_of_nat (k + j))) = Some (ds ! j)"
    by (simp add: frame_id_def)
qed

lemma cached_frame_range_slice:
  assumes inv: "cached_inv H decompress ddec st cs" and nc: "no_frame_collision H st"
    and raw: "store_raw_window st i = Some (raw, rd)"
    and full: "decode_seekable decompress (codec (dr_representation rd)) raw (dr_plaintext_len rd) = Inr p"
    and small: "unat off + len < 2 ^ 64"
  shows "\<exists>cs'. cached_inv H decompress ddec st cs' \<and> cached_frame_range H decompress i off len cs = Some (Some
    (if unat off + len \<le> length p then Inr (take len (drop (unat off) p))
     else Inl (Corrupt (ReaderReason (CacheRangeOutside off len (length p))))), cs')"
proof -
  have st: "cst_inner cs = st" using inv by (simp add: cached_inv_def)
  obtain r cs1 where cf: "cached_footer i raw cs = (r, cs1)" by fastforce
  note c = cached_footer_inv [OF inv raw cf]
  obtain f where pf: "parse_footer raw = Inr f" and tot: "total_uncomp f = length p"
    using decode_seekable_entries [OF full] by metis
  note ar = u64_add_exact [OF small]
  show ?thesis
  proof (cases "unat off + len \<le> length p")
    case False
    then show ?thesis using c(1) by (simp add: cached_frame_range_def st raw cf c(2) pf tot ar Let_def)
  next
    case True
    obtain f' k ds where sk: "seeks_to (codec (dr_representation rd)) raw p (unat off) f' k ds"
      using decode_seekable_seeks [OF full, of "unat off"] True by (metis add_leD1)
    then have sk: "seeks_to (codec (dr_representation rd)) raw p (unat off) f k ds"
      using pf seeks_toD(1) [OF sk] by simp
    note s = seeks_toD [OF sk]
    have m: "sieve.memoises (frame_memo H decompress st) (cst_frames cs1)" using c(1) by (simp add: cached_inv_def)
    have rf: "range_frames decompress (codec (dr_representation rd)) raw (unat off) len (compressed_offset_of f k)
        (uncomp_offset f k) (drop k (zip (uncomp_lens f) (comp_lens f))) [] = Some (Inr (take len (drop (unat off) p)))"
      using decode_seekable_range_slice [OF full small] True s(3)
      by (simp add: decode_seekable_range_def s(1,2) ar Let_def s(4) [symmetric])
    obtain frames' where l: "frame_range_loop H decompress i (codec (dr_representation rd)) raw (unat off) len k
        (compressed_offset_of f k) (uncomp_offset f k) (drop k (zip (uncomp_lens f) (comp_lens f))) [] (cst_frames cs1)
        = Some (Some (Inr (take len (drop (unat off) p))), frames')"
      and m': "sieve.memoises (frame_memo H decompress st) frames'"
      using frame_range_loop_sim [OF s(6) frames_known_store [OF nc raw sk] m s(8) rf] by blast
    have "cached_inv H decompress ddec st (cs1\<lparr>cst_frames := frames'\<rparr>)" using c(1) m' by (simp add: cached_inv_def)
    then show ?thesis
      using True s(3) l by (simp add: cached_frame_range_def st raw cf c(2) pf tot ar Let_def s(4) [symmetric])
  qed
qed

lemma cached_frame_range_into_fills:
  assumes inv: "cached_inv H decompress ddec st cs" and nc: "no_frame_collision H st"
    and raw: "store_raw_window st i = Some (raw, rd)"
    and full: "decode_seekable decompress (codec (dr_representation rd)) raw (dr_plaintext_len rd) = Inr p"
    and off: "unat off \<le> length p" and buf: "buf \<noteq> []" "unat off + length buf < 2 ^ 64"
  shows "\<exists>cs'. cached_inv H decompress ddec st cs'
    \<and> cached_frame_range_into H decompress i off buf cs = Some (Some (Inr (fill_from p off buf)), cs')"
proof -
  have st: "cst_inner cs = st" using inv by (simp add: cached_inv_def)
  obtain r cs1 where cf: "cached_footer i raw cs = (r, cs1)" by fastforce
  note c = cached_footer_inv [OF inv raw cf]
  obtain f k ds where sk: "seeks_to (codec (dr_representation rd)) raw p (unat off) f k ds"
    using decode_seekable_seeks [OF full off] by metis
  note s = seeks_toD [OF sk]
  define es where "es = drop k (zip (uncomp_lens f) (comp_lens f))"
  note s = s [folded es_def]
  have m: "sieve.memoises (frame_memo H decompress st) (cst_frames cs1)" using c(1) by (simp add: cached_inv_def)
  let ?avail = "min (length p - unat off) (length buf)"
  have "\<exists>frames'. sieve.memoises (frame_memo H decompress st) frames'
    \<and> frame_range_into_loop H decompress i (codec (dr_representation rd)) raw (unat off) ?avail k
        (compressed_offset_of f k) (uncomp_offset f k) es 0 buf (cst_frames cs1)
      = Some (Some (Inr (fill_from p off buf)), frames')"
  proof (cases "unat off = length p")
    case True
    have "es = []"
      using s(7,10) True by (cases es) auto
    with m True show ?thesis by (simp add: fill_from_def)
  next
    case False
    with off have lt: "unat off < length p" by simp
    have es: "es \<noteq> []" using s(5,7) lt by auto
    have nz: "\<forall>f \<in> set es. fst f \<noteq> 0"
    proof (cases "length (zip (uncomp_lens f) (comp_lens f)) > 1")
      case True
      with s(11) show ?thesis by (auto simp: valid_entries_def es_def dest: in_set_dropD)
    next
      case False
      moreover have "0 < length es" using es by simp
      ultimately have "length es = 1" unfolding es_def length_drop by linarith
      then obtain e where "es = [e]" by (auto simp: length_Suc_conv)
      with s(5,7) lt show ?thesis by auto
    qed
    have z: "uncomp_offset f k - unat off = 0" using s(5) by simp
    have "\<exists>frames'. frame_range_into_loop H decompress i (codec (dr_representation rd)) raw (unat off) ?avail k
          (compressed_offset_of f k) (uncomp_offset f k) es (uncomp_offset f k - unat off) buf (cst_frames cs1)
        = Some (Some (Inr (?avail, copy_at (uncomp_offset f k - unat off)
            (take (?avail - (uncomp_offset f k - unat off)) (drop (unat off - uncomp_offset f k) (concat ds))) buf)), frames')
      \<and> sieve.memoises (frame_memo H decompress st) frames'"
    proof (rule frame_range_into_loop_fills [OF s(6) frames_known_store [OF nc raw sk] m s(8) buf(2)])
      show "uncomp_offset f k + usum (map fst es) < 2 ^ 64" unfolding s(7) using s(3) by simp
      show "uncomp_offset f k - unat off < ?avail" using z lt buf(1) by simp
      show "unat off + ?avail \<le> uncomp_offset f k + usum (map fst es)"
        "?avail = length buf \<or> unat off + ?avail = uncomp_offset f k + usum (map fst es)"
        unfolding s(7) using lt by linarith+
    qed (use s(10) es nz in simp_all)
    then show ?thesis using lt s(5) by (auto simp: z s(9) fill_from_def Let_def)
  qed
  then obtain frames' where m': "sieve.memoises (frame_memo H decompress st) frames'"
    and l: "frame_range_into_loop H decompress i (codec (dr_representation rd)) raw (unat off) ?avail k
        (compressed_offset_of f k) (uncomp_offset f k) es 0 buf (cst_frames cs1)
      = Some (Some (Inr (fill_from p off buf)), frames')" by blast
  have "cached_inv H decompress ddec st (cs1\<lparr>cst_frames := frames'\<rparr>)" using c(1) m' by (simp add: cached_inv_def)
  with l off show ?thesis
    by (simp add: cached_frame_range_into_def st raw cf c(2) s(1,2) Let_def s(4) [symmetric] es_def [symmetric])
qed

end

section \<open>The cache is transparent\<close>

lemma locate_None:
  "store_plaintext_for dec ddec st i = None \<longleftrightarrow> locate_window st i = None"
  by (auto simp: store_plaintext_for_def split: bind_splits)

lemma cached_slab_source:
  assumes reg: "\<forall>c \<in> set reg. codec_ok c" and nc: "no_frame_collision H st"
  shows "slab_source (decoded_range_into H (registry_decompress reg) ddec)
    (cached_inv H (registry_decompress reg) ddec st) (store_plaintext_for (registry_decompress reg) ddec st)"
proof
  fix cs i p and off :: u64 and buf :: bytes
  assume inv: "cached_inv H (registry_decompress reg) ddec st cs"
    and p: "store_plaintext_for (registry_decompress reg) ddec st i = Some (Inr p)"
    and off: "unat (off :: u64) \<le> length p" and small: "unat off + length buf < 2 ^ 64"
  obtain r cs1 where l: "cache_lookup i cs = (r, cs1)" by fastforce
  note c = cache_lookup_inv [OF inv l]
  have st: "cst_inner cs1 = st" using c(1) by (simp add: cached_inv_def)
  show "\<exists>cs'. cached_inv H (registry_decompress reg) ddec st cs'
      \<and> decoded_range_into H (registry_decompress reg) ddec i off buf cs = Some (Some (Inr (fill_from p off buf)), cs')"
  proof (cases "buf = [] \<or> r \<noteq> None")
    case True
    then show ?thesis using inv c p by (auto simp: decoded_range_into_def l)
  next
    case False
    then have r: "r = None" and b: "buf \<noteq> []" by auto
    show ?thesis
    proof (cases "drop_is_seekable st i = Some True")
      case True
      with p obtain raw rd where "store_raw_window st i = Some (raw, rd)"
        "decode_seekable (registry_decompress reg) (codec (dr_representation rd)) raw (dr_plaintext_len rd) = Inr p"
        by (rule seekable_located)
      from sized_decompressor.cached_frame_range_into_fills [OF registry_sized [OF reg] c(1) nc this off b small] True
      show ?thesis by (simp add: decoded_range_into_def l r b st)
    next
      case False
      obtain x cs2 where d: "decoded_fetch_insert (registry_decompress reg) ddec i cs1 = (x, cs2)" by fastforce
      from decoded_fetch_insert_inv [OF c(1), of i] False p show ?thesis
        by (simp add: decoded_range_into_def l r b st d)
    qed
  qed
next
  fix cs i and off :: u64 and buf :: bytes
  assume inv: "cached_inv H (registry_decompress reg) ddec st cs"
    and none: "store_plaintext_for (registry_decompress reg) ddec st i = None" and b: "buf \<noteq> []"
  obtain r cs1 where l: "cache_lookup i cs = (r, cs1)" by fastforce
  note c = cache_lookup_inv [OF inv l]
  have st: "cst_inner cs1 = st" using c(1) by (simp add: cached_inv_def)
  obtain x cs2 where d: "decoded_fetch_insert (registry_decompress reg) ddec i cs1 = (x, cs2)" by fastforce
  have "drop_is_seekable st i = None" using none by (simp add: locate_None drop_is_seekable_def)
  with c none decoded_fetch_insert_inv [OF c(1), of i] b d
  show "\<exists>cs'. cached_inv H (registry_decompress reg) ddec st cs'
      \<and> decoded_range_into H (registry_decompress reg) ddec i off buf cs = Some (None, cs')"
    by (auto simp: decoded_range_into_def l st)
qed

lemma cached_range_slice:
  assumes reg: "\<forall>c \<in> set reg. codec_ok c" and nc: "no_frame_collision H st"
    and inv: "cached_inv H (registry_decompress reg) ddec st cs"
    and p: "store_plaintext_for (registry_decompress reg) ddec st i = Some (Inr p)"
    and small: "unat off + len < 2 ^ 64"
  shows "\<exists>cs'. cached_inv H (registry_decompress reg) ddec st cs'
    \<and> decoded_range H (registry_decompress reg) ddec i off len cs = Some (Some
      (if unat off + len \<le> length p then Inr (take len (drop (unat off) p))
       else Inl (Corrupt (ReaderReason (CacheRangeOutside off len (length p))))), cs')"
proof -
  obtain r cs1 where l: "cache_lookup i cs = (r, cs1)" by fastforce
  note c = cache_lookup_inv [OF inv l]
  have st: "cst_inner cs1 = st" using c(1) by (simp add: cached_inv_def)
  have slice: "cache_slice off len p = Some (if unat off + len \<le> length p then Inr (take len (drop (unat off) p))
       else Inl (Corrupt (ReaderReason (CacheRangeOutside off len (length p)))))"
    using small by (simp add: cache_slice_def u64_add_exact)
  show ?thesis
  proof (cases r)
    case (Some v)
    with c p slice show ?thesis by (auto simp: decoded_range_def l)
  next
    case r: None
    show ?thesis
    proof (cases "drop_is_seekable st i = Some True")
      case True
      with p obtain raw rd where "store_raw_window st i = Some (raw, rd)"
        "decode_seekable (registry_decompress reg) (codec (dr_representation rd)) raw (dr_plaintext_len rd) = Inr p"
        by (rule seekable_located)
      from sized_decompressor.cached_frame_range_slice [OF registry_sized [OF reg] c(1) nc this small] True
      show ?thesis by (simp add: decoded_range_def l r st)
    next
      case False
      obtain x cs2 where d: "decoded_fetch_insert (registry_decompress reg) ddec i cs1 = (x, cs2)" by fastforce
      from decoded_fetch_insert_inv [OF c(1), of i] False p slice show ?thesis
        by (simp add: decoded_range_def l r st d)
    qed
  qed
qed

text \<open>A client's reads, and what they are to return.\<close>

datatype cache_read = ReadDecoded bytes | ReadRange bytes u64 nat | ReadInto bytes u64 bytes

datatype read_result = WholeDrop "bytes outcome option" | Window "bytes outcome option"
  | Filled "(nat \<times> bytes) outcome option"

fun run_read :: "(bytes \<Rightarrow> bytes) \<Rightarrow> decompressor \<Rightarrow> dict_decompressor \<Rightarrow> cache_read \<Rightarrow> cached_store
    \<Rightarrow> (read_result \<times> cached_store) option" where
  "run_read H dec ddec (ReadDecoded i) cs = Some (apfst WholeDrop (decoded dec ddec i cs))"
| "run_read H dec ddec (ReadRange i off len) cs = map_option (apfst Window) (decoded_range H dec ddec i off len cs)"
| "run_read H dec ddec (ReadInto i off buf) cs = map_option (apfst Filled) (decoded_range_into H dec ddec i off buf cs)"

primrec run_reads :: "(bytes \<Rightarrow> bytes) \<Rightarrow> decompressor \<Rightarrow> dict_decompressor \<Rightarrow> cache_read list \<Rightarrow> cached_store
    \<Rightarrow> (read_result list \<times> cached_store) option" where
  "run_reads H dec ddec [] cs = Some ([], cs)"
| "run_reads H dec ddec (r # rs) cs = do {
     (x, cs') \<leftarrow> run_read H dec ddec r cs;
     (xs, cs'') \<leftarrow> run_reads H dec ddec rs cs';
     Some (x # xs, cs'')
   }"

fun read_spec :: "decompressor \<Rightarrow> dict_decompressor \<Rightarrow> slab_store \<Rightarrow> cache_read \<Rightarrow> read_result" where
  "read_spec dec ddec st (ReadDecoded i) = WholeDrop (store_plaintext_for dec ddec st i)"
| "read_spec dec ddec st (ReadRange i off len) = Window
     (case store_plaintext_for dec ddec st i of
        Some (Inr p) \<Rightarrow> Some (if unat off + len \<le> length p then Inr (take len (drop (unat off) p))
          else Inl (Corrupt (ReaderReason (CacheRangeOutside off len (length p)))))
      | r \<Rightarrow> r)"
| "read_spec dec ddec st (ReadInto i off buf) = Filled (default_range_into (store_plaintext_for dec ddec st) i off buf)"

text \<open>A window of a drop that decodes, with no overflow in its bounds.\<close>

fun read_ok :: "decompressor \<Rightarrow> dict_decompressor \<Rightarrow> slab_store \<Rightarrow> cache_read \<Rightarrow> bool" where
  "read_ok dec ddec st (ReadDecoded i) = True"
| "read_ok dec ddec st (ReadRange i off len) =
     ((\<exists>p. store_plaintext_for dec ddec st i = Some (Inr p)) \<and> unat off + len < 2 ^ 64)"
| "read_ok dec ddec st (ReadInto i off buf) =
     ((\<exists>p. store_plaintext_for dec ddec st i = Some (Inr p) \<and> unat off \<le> length p) \<and> unat off + length buf < 2 ^ 64)"

lemma run_read_spec:
  assumes reg: "\<forall>c \<in> set reg. codec_ok c" and nc: "no_frame_collision H st"
    and inv: "cached_inv H (registry_decompress reg) ddec st cs"
    and ok: "read_ok (registry_decompress reg) ddec st r"
  shows "\<exists>cs'. cached_inv H (registry_decompress reg) ddec st cs'
    \<and> run_read H (registry_decompress reg) ddec r cs = Some (read_spec (registry_decompress reg) ddec st r, cs')"
proof (cases r)
  case (ReadDecoded i)
  then show ?thesis using decoded_transparent [OF inv, of i] by (cases "decoded (registry_decompress reg) ddec i cs") auto
next
  case (ReadRange i off len)
  then obtain p where "store_plaintext_for (registry_decompress reg) ddec st i = Some (Inr p)" "unat off + len < 2 ^ 64"
    using ok by auto
  from cached_range_slice [OF reg nc inv this] this(1) show ?thesis by (auto simp: ReadRange)
next
  case (ReadInto i off buf)
  then obtain p where p: "store_plaintext_for (registry_decompress reg) ddec st i = Some (Inr p)" "unat off \<le> length p"
    "unat off + length buf < 2 ^ 64"
    using ok by auto
  from slab_source.fills [OF cached_slab_source [OF reg nc] inv this] p(1) show ?thesis
    by (auto simp: ReadInto default_range_into_fills)
qed


lemma example_store_frames: "frames_of example_store = {}"
proof -
  have "store_raw_window example_store i = Some (raw, rd) \<Longrightarrow> length raw \<le> 5" for i raw rd
    by (auto simp: store_raw_window_def locate_window_def example_store_def store_of_def get_nth_def parsed_of_def
        example_view_def example_record_def Let_def usize_checked_add_def split: bind_splits if_splits)
  then have "store_raw_window example_store i = Some (raw, rd) \<Longrightarrow> parse_footer raw \<noteq> Inr f" for i raw rd f
    by (fastforce simp: parse_footer_def)
  then show ?thesis by (auto simp: frames_of_def)
qed


section \<open>Concurrent readers\<close>

text \<open>\<open>decoded\<close> takes the cache lock twice: once to look the drop up and, after a miss, once to insert what was decoded
  outside the lock. Readers interleave between the two.\<close>

datatype reader = Looking bytes | Missed bytes | Finished bytes "bytes outcome option"

inductive reader_step :: "decompressor \<Rightarrow> dict_decompressor \<Rightarrow> cached_store \<times> reader list
    \<Rightarrow> cached_store \<times> reader list \<Rightarrow> bool" for dec ddec where
  hit: "t < length ts \<Longrightarrow> ts ! t = Looking i \<Longrightarrow> cache_lookup i cs = (Some v, cs') \<Longrightarrow>
     reader_step dec ddec (cs, ts) (cs', ts[t := Finished i (Some (Inr v))])"
| miss: "t < length ts \<Longrightarrow> ts ! t = Looking i \<Longrightarrow> cache_lookup i cs = (None, cs') \<Longrightarrow>
     reader_step dec ddec (cs, ts) (cs', ts[t := Missed i])"
| fetch: "t < length ts \<Longrightarrow> ts ! t = Missed i \<Longrightarrow> decoded_fetch_insert dec ddec i cs = (r, cs') \<Longrightarrow>
     reader_step dec ddec (cs, ts) (cs', ts[t := Finished i r])"

inductive_cases reader_stepE: "reader_step dec ddec (cs, ts) (cs', ts')"

fun reader_ok :: "decompressor \<Rightarrow> dict_decompressor \<Rightarrow> slab_store \<Rightarrow> reader \<Rightarrow> bool" where
  "reader_ok dec ddec st (Finished i r) \<longleftrightarrow> r = store_plaintext_for dec ddec st i"
| "reader_ok dec ddec st x \<longleftrightarrow> True"

fun reader_work :: "reader \<Rightarrow> nat" where
  "reader_work (Looking i) = 2"
| "reader_work (Missed i) = 1"
| "reader_work (Finished i r) = 0"

lemma reader_step_inv:
  assumes "reader_step dec ddec (cs, ts) (cs', ts')" "cached_inv H dec ddec st cs" "\<forall>x \<in> set ts. reader_ok dec ddec st x"
  shows "cached_inv H dec ddec st cs' \<and> (\<forall>x \<in> set ts'. reader_ok dec ddec st x)"
  using assms(1)
proof (cases rule: reader_step.cases)
  case (hit t i v)
  with cache_lookup_inv [OF assms(2), of i "Some v" cs'] assms(3) show ?thesis
    by (auto dest!: set_update_subset_insert [THEN subsetD])
next
  case (miss t i)
  with cache_lookup_inv [OF assms(2), of i None cs'] assms(3) show ?thesis
    by (auto dest!: set_update_subset_insert [THEN subsetD])
next
  case (fetch t i r)
  with decoded_fetch_insert_inv [OF assms(2), of i] assms(3) show ?thesis
    by (auto dest!: set_update_subset_insert [THEN subsetD])
qed

lemma sum_list_decreases:
  "t < length ts \<Longrightarrow> f x < f (ts ! t) \<Longrightarrow> sum_list (map f (ts[t := x])) < (sum_list (map f ts) :: nat)"
proof (induction ts arbitrary: t)
  case (Cons y ts)
  then show ?case by (cases t) auto
qed simp

lemma reader_step_work:
  "reader_step dec ddec (cs, ts) (cs', ts') \<Longrightarrow> sum_list (map reader_work ts') < sum_list (map reader_work ts)"
  by (erule reader_stepE) (auto intro!: sum_list_decreases)

lemma reader_progress:
  "t < length ts \<Longrightarrow> reader_work (ts ! t) \<noteq> 0 \<Longrightarrow> \<exists>c'. reader_step dec ddec (cs, ts) c'"
proof (cases "ts ! t")
  case (Looking i)
  assume "t < length ts"
  with Looking show ?thesis by (cases "cache_lookup i cs"; cases "fst (cache_lookup i cs)") (auto intro: hit miss)
next
  case (Missed i)
  assume "t < length ts"
  with Missed show ?thesis by (cases "decoded_fetch_insert dec ddec i cs") (auto intro: fetch)
qed simp

text \<open>C21. Concurrent readers of one cached store do not disturb each other: in every interleaving of their lookups and
  insertions, a reader that has finished holds what the store below returns for its drop.\<close>

theorem concurrent_readers_safe:
  assumes "(reader_step dec ddec)\<^sup>*\<^sup>* (with_frame_budget st n b fb, map Looking ids) (cs, ts)"
    and "t < length ts" "ts ! t = Finished i r"
  shows "r = store_plaintext_for dec ddec st i"
proof -
  have "cached_inv id dec ddec st cs \<and> (\<forall>x \<in> set ts. reader_ok dec ddec st x)"
    using assms(1)
  proof (induction rule: rtranclp_induct2)
    case refl
    show ?case by (auto simp: cached_inv_new)
  next
    case (step cs1 ts1 cs2 ts2)
    then show ?case using reader_step_inv [of dec ddec cs1 ts1 cs2 ts2 id st] by blast
  qed
  then show ?thesis using assms(2,3) nth_mem [of t ts] by force
qed

theorem concurrent_readers_safe_witness:
  "\<exists>cs ts. (reader_step (registry_decompress [store_codec]) (\<lambda>_ _ _. Inl (BadMagic [])))\<^sup>*\<^sup>*
      (with_frame_budget example_store 2 1 0, map Looking [replicate 32 1]) (cs, ts)
    \<and> ts = [Finished (replicate 32 1) (Some (Inr [1, 2, 3, 4, 5]))]"
proof -
  let ?step = "reader_step (registry_decompress [store_codec]) (\<lambda>_ _ _. Inl (BadMagic []))"
  let ?cs = "with_frame_budget example_store 2 1 0"
  obtain cs1 where l: "cache_lookup (replicate 32 1) ?cs = (None, cs1)"
    by (simp add: cache_lookup_def with_frame_budget_def sieve_get_def sieve_new_def)
  obtain r cs2 where f: "decoded_fetch_insert (registry_decompress [store_codec]) (\<lambda>_ _ _. Inl (BadMagic []))
      (replicate 32 1) cs1 = (r, cs2)" by fastforce
  have "?step (?cs, map Looking [replicate 32 1]) (cs1, [Missed (replicate 32 1)])"
    using miss [of 0 "[Looking (replicate 32 1)]", OF _ _ l] by simp
  moreover have "?step (cs1, [Missed (replicate 32 1)]) (cs2, [Finished (replicate 32 1) r])"
    using fetch [of 0 "[Missed (replicate 32 1)]", OF _ _ f] by simp
  ultimately have run: "?step\<^sup>*\<^sup>* (?cs, map Looking [replicate 32 1]) (cs2, [Finished (replicate 32 1) r])"
    by (meson converse_rtranclp_into_rtranclp r_into_rtranclp)
  from concurrent_readers_safe [OF this, of 0] have "r = Some (Inr [1, 2, 3, 4, 5])"
    using example_store_plaintext by simp
  with run show ?thesis by blast
qed



end
