(* ===== verification/Inode.thy ===== *)
theory Inode
  imports Format
begin

unbundle bit_operations_syntax

text \<open>
  Inode records (\<open>limnifs-core/src/inode.rs\<close>). The parser guarantees what every reader of a file relies on:
  a slice map covers the file contiguously from byte 0 with no empty slice.
\<close>

record xattr =
  xa_namespace :: u8
  xa_key :: bytes
  xa_value :: bytes

record slice_ref =
  file_byte_start :: u64
  file_byte_end :: u64
  sl_drop_id :: bytes
  drop_byte_start :: u32
  drop_byte_len :: u32

datatype content_handle =
  InlineData bytes
| SharedInline nat
| SliceMap "slice_ref list"
| Directory bytes
| Symlink bytes
| Device u64
| Pipe u64

record inode =
  in_number :: u64
  in_mode :: u32
  in_uid :: u32
  in_gid :: u32
  in_mtime_ns :: u64
  in_ctime_ns :: u64
  in_nlink :: u32
  in_atime_ns :: "u64 option"
  in_xattrs :: "xattr list"
  in_content_handle :: content_handle

definition INODE_FIXED_PREFIX_LEN :: nat where "INODE_FIXED_PREFIX_LEN = 41"
definition INODE_FLAG_ATIME :: u8 where "INODE_FLAG_ATIME = 0x01"
definition INODE_FLAG_HAS_XATTRS :: u8 where "INODE_FLAG_HAS_XATTRS = 0x02"
definition INODE_FLAG_INLINE_DATA :: u8 where "INODE_FLAG_INLINE_DATA = 0x04"
definition INODE_FLAG_SHARED_INLINE :: u8 where "INODE_FLAG_SHARED_INLINE = 0x08"
definition INODE_FLAG_RESERVED_MASK :: u8 where "INODE_FLAG_RESERVED_MASK = 0xF0"

definition S_IFMT :: u32 where "S_IFMT = 0xF000"
definition S_IFREG :: u32 where "S_IFREG = 0x8000"
definition S_IFDIR :: u32 where "S_IFDIR = 0x4000"
definition S_IFLNK :: u32 where "S_IFLNK = 0xA000"
definition S_IFBLK :: u32 where "S_IFBLK = 0x6000"
definition S_IFCHR :: u32 where "S_IFCHR = 0x2000"
definition S_IFIFO :: u32 where "S_IFIFO = 0x1000"
definition S_IFSOCK :: u32 where "S_IFSOCK = 0xC000"

definition DEFAULT_INLINE_DATA_MAX_BYTES :: u32 where
  "DEFAULT_INLINE_DATA_MAX_BYTES = 4096"

lemmas inode_flag_defs = INODE_FLAG_ATIME_def INODE_FLAG_HAS_XATTRS_def INODE_FLAG_INLINE_DATA_def
  INODE_FLAG_SHARED_INLINE_def INODE_FLAG_RESERVED_MASK_def

lemmas file_type_defs = S_IFREG_def S_IFDIR_def S_IFLNK_def S_IFBLK_def S_IFCHR_def S_IFIFO_def S_IFSOCK_def

definition file_type :: "inode \<Rightarrow> u32" where
  "file_type i = in_mode i AND S_IFMT"

definition is_regular :: "inode \<Rightarrow> bool" where
  "is_regular i \<longleftrightarrow> file_type i = S_IFREG"

definition is_directory :: "inode \<Rightarrow> bool" where
  "is_directory i \<longleftrightarrow> file_type i = S_IFDIR"

text \<open>\<open>file_len\<close>: \<open>usize\<close> and \<open>u64\<close> have the same width here, so the conversion of the length does not fail.\<close>

definition file_len :: "inode \<Rightarrow> u64" where
  "file_len i =
     (case in_content_handle i of
        InlineData d \<Rightarrow> word_of_nat (length d)
      | SliceMap slices \<Rightarrow>
          (if slices = [] then 0
           else let first_start = file_byte_start (hd slices); last_end = file_byte_end (last slices)
                in if last_end < first_start then 0 else last_end - first_start)
      | _ \<Rightarrow> 0)"

section \<open>Parsing\<close>

definition parse_xattr :: "nat \<Rightarrow> xattr list \<Rightarrow> xattr parser" where
  "parse_xattr _ _ =
     pbind read_u8 (\<lambda>namespace.
     if namespace > 0x03 then perr (Corrupt (InodeReason (XattrNamespace namespace))) else
     pbind read_u32_le (\<lambda>key_len.
     pbind (read_n (unat key_len)) (\<lambda>key.
     if \<not> utf8_valid key then perr (Corrupt (InodeReason XattrNotUtf8)) else
     if 0 \<in> set key then perr (Corrupt (InodeReason XattrNul)) else
     pbind read_u32_le (\<lambda>value_len.
     pbind (read_n_owned (unat value_len)) (\<lambda>val.
     pret \<lparr>xa_namespace = namespace, xa_key = key, xa_value = val\<rparr>)))))"

definition parse_xattr_block :: "xattr list parser" where
  "parse_xattr_block = pbind read_u32_le (\<lambda>count. ploop parse_xattr 0 (unat count) [])"

definition parse_slice_ref :: "u64 \<Rightarrow> nat \<Rightarrow> slice_ref list \<Rightarrow> slice_ref parser" where
  "parse_slice_ref inode_number _ _ =
     pbind read_u64_le (\<lambda>fstart.
     pbind read_u64_le (\<lambda>fend.
     if fstart \<ge> fend
     then perr (Corrupt (InodeReason (InodeSliceEmpty inode_number fstart fend))) else
     pbind (read_n 32) (\<lambda>did.
     pbind read_u32_le (\<lambda>dstart.
     pbind read_u32_le (\<lambda>dlen.
     pret \<lparr>file_byte_start = fstart, file_byte_end = fend, sl_drop_id = did,
           drop_byte_start = dstart, drop_byte_len = dlen\<rparr>)))))"

fun validate_slice_map_from :: "u64 \<Rightarrow> nat \<Rightarrow> u64 \<Rightarrow> slice_ref list \<Rightarrow> unit outcome" where
  "validate_slice_map_from inode_number i expected_start [] = Inr ()"
| "validate_slice_map_from inode_number i expected_start (s # ss) =
     (if file_byte_start s \<noteq> expected_start
      then Inl (Corrupt (InodeReason (InodeSliceGap inode_number i (file_byte_start s) expected_start)))
      else validate_slice_map_from inode_number (Suc i) (file_byte_end s) ss)"

definition validate_slice_map :: "u64 \<Rightarrow> slice_ref list \<Rightarrow> unit outcome" where
  "validate_slice_map inode_number slices = validate_slice_map_from inode_number 0 0 slices"

definition parse_content_handle :: "u32 \<Rightarrow> u8 \<Rightarrow> u64 \<Rightarrow> u32 \<Rightarrow> content_handle parser" where
  "parse_content_handle mode fl inode_number max_inline_bytes =
     (let ftype = mode AND S_IFMT in
      if ftype = S_IFREG then
        if fl AND INODE_FLAG_SHARED_INLINE \<noteq> 0 then
          pbind read_u32_le (\<lambda>index. pret (SharedInline (unat index)))
        else if fl AND INODE_FLAG_INLINE_DATA \<noteq> 0 then
          pbind read_u32_le (\<lambda>inline_len.
          if inline_len > max_inline_bytes
          then perr (Corrupt (InodeReason (InodeInlineTooLong inode_number inline_len max_inline_bytes))) else
          pbind (read_n_owned (unat inline_len)) (\<lambda>data. pret (InlineData data)))
        else
          pbind read_u32_le (\<lambda>slice_count.
          pbind (ploop (parse_slice_ref inode_number) 0 (unat slice_count) []) (\<lambda>slices.
          pbind (plift (validate_slice_map inode_number slices)) (\<lambda>_.
          pret (SliceMap slices))))
      else if ftype = S_IFDIR then
        pbind (read_n 32) (\<lambda>hash. pret (Directory hash))
      else if ftype = S_IFLNK then
        pbind read_u32_le (\<lambda>target_len.
        pbind (read_n (unat target_len)) (\<lambda>target.
        if \<not> utf8_valid target then perr (Corrupt (InodeReason SymlinkNotUtf8)) else
        pret (Symlink target)))
      else if ftype = S_IFBLK \<or> ftype = S_IFCHR then
        pbind read_u64_le (\<lambda>dev. pret (Device dev))
      else if ftype = S_IFIFO \<or> ftype = S_IFSOCK then
        pbind read_u64_le (\<lambda>pipe_id. pret (Pipe pipe_id))
      else perr (Corrupt (InodeReason (InodeUnknownType inode_number ftype))))"

definition parse_inode_with_ceiling :: "u32 \<Rightarrow> inode parser" where
  "parse_inode_with_ceiling max_inline_bytes =
     pbind read_u64_le (\<lambda>number.
     pbind read_u32_le (\<lambda>mode.
     pbind read_u32_le (\<lambda>uid.
     pbind read_u32_le (\<lambda>gid.
     pbind read_u64_le (\<lambda>mtime_ns.
     pbind read_u64_le (\<lambda>ctime_ns.
     pbind read_u32_le (\<lambda>nlink.
     pbind read_u8 (\<lambda>fl.
     if fl AND INODE_FLAG_RESERVED_MASK \<noteq> 0
     then perr (Corrupt (InodeReason (InodeReservedFlags number fl))) else
     pbind (if fl AND INODE_FLAG_ATIME \<noteq> 0 then pbind read_u64_le (\<lambda>t. pret (Some t)) else pret None) (\<lambda>atime_ns.
     pbind (if fl AND INODE_FLAG_HAS_XATTRS \<noteq> 0 then parse_xattr_block else pret []) (\<lambda>xattrs.
     pbind (parse_content_handle mode fl number max_inline_bytes) (\<lambda>handle.
     pret \<lparr>in_number = number, in_mode = mode, in_uid = uid, in_gid = gid, in_mtime_ns = mtime_ns,
           in_ctime_ns = ctime_ns, in_nlink = nlink, in_atime_ns = atime_ns, in_xattrs = xattrs,
           in_content_handle = handle\<rparr>)))))))))))"

definition parse_inode :: "inode parser" where
  "parse_inode = parse_inode_with_ceiling DEFAULT_INLINE_DATA_MAX_BYTES"

section \<open>Slice maps\<close>

fun contiguous_from :: "u64 \<Rightarrow> slice_ref list \<Rightarrow> bool" where
  "contiguous_from e [] = True"
| "contiguous_from e (s # ss) = (file_byte_start s = e \<and> file_byte_start s < file_byte_end s \<and> contiguous_from (file_byte_end s) ss)"

lemma validate_slice_map_from_iff:
  "validate_slice_map_from n i e ss = Inr () \<and> (\<forall>s \<in> set ss. file_byte_start s < file_byte_end s)
    \<longleftrightarrow> contiguous_from e ss"
  by (induction ss arbitrary: i e) auto

lemma validate_slice_map_iff:
  "\<forall>s \<in> set ss. file_byte_start s < file_byte_end s \<Longrightarrow> validate_slice_map n ss = Inr () \<longleftrightarrow> contiguous_from 0 ss"
  using validate_slice_map_from_iff [of n 0 0 ss] by (simp add: validate_slice_map_def)

lemma contiguous_ends:
  "contiguous_from e ss \<Longrightarrow> ss \<noteq> [] \<Longrightarrow> file_byte_start (hd ss) = e \<and> e < file_byte_end (last ss)"
proof (induction ss arbitrary: e)
  case (Cons s ss)
  then show ?case
    using Cons.IH [of "file_byte_end s"] by (cases "ss = []") (auto intro: less_trans)
qed simp

text \<open>The length of a contiguous file is the end of its last slice: the saturating subtraction is exact.\<close>

lemma contiguous_file_len:
  assumes "in_content_handle i = SliceMap ss" "contiguous_from 0 ss"
  shows "file_len i = (if ss = [] then 0 else file_byte_end (last ss))"
  using assms contiguous_ends [of 0 ss] by (auto simp: file_len_def Let_def)

text \<open>Every byte below the end belongs to exactly one slice.\<close>

lemma contiguous_covers:
  assumes "contiguous_from e ss" "e \<le> x" "ss \<noteq> []" "x < file_byte_end (last ss)"
  shows "\<exists>!k. k < length ss \<and> file_byte_start (ss ! k) \<le> x \<and> x < file_byte_end (ss ! k)"
  using assms
proof (induction ss arbitrary: e)
  case Nil
  then show ?case by simp
next
  case (Cons s ss)
  have s: "file_byte_start s = e" "e < file_byte_end s" and rest: "contiguous_from (file_byte_end s) ss"
    using Cons.prems(1) by auto
  have later: "file_byte_end s \<le> file_byte_start (ss ! k)" if "k < length ss" for k
    using rest that
  proof (induction ss arbitrary: k s)
    case (Cons s' ss')
    then show ?case by (cases k) (auto, (meson le_less_trans less_imp_le order_trans)+)
  qed simp
  show ?case
  proof (cases "x < file_byte_end s")
    case True
    show ?thesis
    proof (rule ex1I [of _ 0])
      fix k assume k: "k < length (s # ss) \<and> file_byte_start ((s # ss) ! k) \<le> x \<and> x < file_byte_end ((s # ss) ! k)"
      show "k = 0"
      proof (rule ccontr)
        assume "k \<noteq> 0"
        then obtain j where j: "k = Suc j" by (cases k) auto
        with k later [of j] True show False by auto
      qed
    qed (use True s Cons.prems in auto)
  next
    case False
    with Cons.prems have ne: "ss \<noteq> []" "x < file_byte_end (last ss)" by (auto split: if_splits)
    have "\<exists>!k. k < length ss \<and> file_byte_start (ss ! k) \<le> x \<and> x < file_byte_end (ss ! k)"
      by (rule Cons.IH [OF rest _ ne]) (use False in simp)
    then obtain k where k: "k < length ss" "file_byte_start (ss ! k) \<le> x" "x < file_byte_end (ss ! k)"
      and uniq: "\<And>j. j < length ss \<Longrightarrow> file_byte_start (ss ! j) \<le> x \<Longrightarrow> x < file_byte_end (ss ! j) \<Longrightarrow> j = k"
      by (elim ex1E) blast
    show ?thesis
    proof (rule ex1I [of _ "Suc k"])
      fix j assume j: "j < length (s # ss) \<and> file_byte_start ((s # ss) ! j) \<le> x \<and> x < file_byte_end ((s # ss) ! j)"
      then obtain j' where "j = Suc j'" using False by (cases j) auto
      with j uniq show "j = Suc k" by auto
    qed (use k in auto)
  qed
qed

section \<open>What the parser guarantees\<close>

definition valid_xattr :: "xattr \<Rightarrow> bool" where
  "valid_xattr x \<longleftrightarrow>
     xa_namespace x \<le> 0x03 \<and> utf8_valid (xa_key x) \<and> 0 \<notin> set (xa_key x)
     \<and> length (xa_key x) < 2 ^ 32 \<and> length (xa_value x) < 2 ^ 32"

definition valid_handle :: "u32 \<Rightarrow> u32 \<Rightarrow> content_handle \<Rightarrow> bool" where
  "valid_handle mode max_inline_bytes h \<longleftrightarrow>
     (case h of
        InlineData d \<Rightarrow> mode AND S_IFMT = S_IFREG \<and> length d \<le> unat max_inline_bytes
      | SharedInline n \<Rightarrow> mode AND S_IFMT = S_IFREG \<and> n < 2 ^ 32
      | SliceMap ss \<Rightarrow> mode AND S_IFMT = S_IFREG \<and> contiguous_from 0 ss \<and> length ss < 2 ^ 32
          \<and> (\<forall>s \<in> set ss. length (sl_drop_id s) = 32)
      | Directory hash \<Rightarrow> mode AND S_IFMT = S_IFDIR \<and> length hash = 32
      | Symlink t \<Rightarrow> mode AND S_IFMT = S_IFLNK \<and> utf8_valid t \<and> length t < 2 ^ 32
      | Device d \<Rightarrow> mode AND S_IFMT = S_IFBLK \<or> mode AND S_IFMT = S_IFCHR
      | Pipe p \<Rightarrow> mode AND S_IFMT = S_IFIFO \<or> mode AND S_IFMT = S_IFSOCK)"

definition valid_inode :: "u32 \<Rightarrow> inode \<Rightarrow> bool" where
  "valid_inode max_inline_bytes i \<longleftrightarrow>
     (\<forall>x \<in> set (in_xattrs i). valid_xattr x) \<and> valid_handle (in_mode i) max_inline_bytes (in_content_handle i)"

definition encode_xattr :: "xattr \<Rightarrow> bytes option" where
  "encode_xattr x = do {
     key_len \<leftarrow> u32_try_from (length (xa_key x));
     value_len \<leftarrow> u32_try_from (length (xa_value x));
     Some ([xa_namespace x] @ u32_to_le_bytes key_len @ xa_key x @ u32_to_le_bytes value_len @ xa_value x)
   }"

definition encode_slice_ref :: "slice_ref \<Rightarrow> bytes" where
  "encode_slice_ref s = u64_to_le_bytes (file_byte_start s) @ u64_to_le_bytes (file_byte_end s) @ sl_drop_id s
     @ u32_to_le_bytes (drop_byte_start s) @ u32_to_le_bytes (drop_byte_len s)"

definition slice_ok :: "slice_ref \<Rightarrow> bool" where
  "slice_ok s \<longleftrightarrow> file_byte_start s < file_byte_end s \<and> length (sl_drop_id s) = 32"

interpretation xattrs: entry_list parse_xattr encode_xattr "\<lambda>xs. \<forall>x \<in> set xs. valid_xattr x"
proof
  show "parses (parse_xattr i xs) bs x"
    if "\<forall>x \<in> set (xs @ [x]). valid_xattr x" "encode_xattr x = Some bs" for xs x bs i
  proof -
    have v: "valid_xattr x" using that(1) by simp
    then have "bs = xa_namespace x # u32_to_le_bytes (word_of_nat (length (xa_key x))) @ xa_key x
        @ u32_to_le_bytes (word_of_nat (length (xa_value x))) @ xa_value x"
      using that(2) by (simp add: encode_xattr_def valid_xattr_def)
    then show ?thesis
      using v unfolding parse_xattr_def read_n_owned_def valid_xattr_def
      by (simp only:) (intro wire_enc, auto simp: not_less)
  qed
  show "preads (parse_xattr i xs) (\<lambda>x b. encode_xattr x = Some b \<and> (\<forall>x \<in> set (xs @ [x]). valid_xattr x))"
    if "\<forall>x \<in> set xs. valid_xattr x" for xs i
    unfolding parse_xattr_def read_n_owned_def
  proof (intro wire_dec, goal_cases)
    case (1 ns kl key vl val)
    then show ?case
      using that unat_u32_lt [of kl] unat_u32_lt [of vl] by (auto simp: encode_xattr_def valid_xattr_def)
  qed
qed (auto simp: encode_xattr_def valid_xattr_def)

interpretation slice_refs: entry_list "parse_slice_ref n" "\<lambda>s. Some (encode_slice_ref s)" "\<lambda>ss. \<forall>s \<in> set ss. slice_ok s" for n
proof
  show "parses (parse_slice_ref n i ss) bs s"
    if "\<forall>s \<in> set (ss @ [s]). slice_ok s" "Some (encode_slice_ref s) = Some bs" for ss s bs i
  proof -
    have "bs = encode_slice_ref s" "slice_ok s" using that by simp_all
    then show ?thesis
      unfolding parse_slice_ref_def encode_slice_ref_def slice_ok_def
      by (simp only:) (intro wire_enc, auto simp: not_less)
  qed
  show "preads (parse_slice_ref n i ss) (\<lambda>s b. Some (encode_slice_ref s) = Some b \<and> (\<forall>s \<in> set (ss @ [s]). slice_ok s))"
    if "\<forall>s \<in> set ss. slice_ok s" for ss i
    using that unfolding parse_slice_ref_def encode_slice_ref_def slice_ok_def
    by (intro wire_dec) auto
qed auto

lemma preads_xattr_block: "preads parse_xattr_block (\<lambda>xs b. \<forall>x \<in> set xs. valid_xattr x)"
  unfolding parse_xattr_block_def
  by (intro wire_dec preads_mono [OF xattrs.preads_list]) simp

lemma preads_content_handle:
  "preads (parse_content_handle mode fl n m) (\<lambda>h b. valid_handle mode m h \<and> 4 \<le> length b)"
  unfolding parse_content_handle_def Let_def read_n_owned_def
proof (intro wire_dec preads_bind [OF slice_refs.preads_list], goal_cases)
  case (1 index)
  then show ?case using unat_u32_lt [of index] by (simp add: valid_handle_def)
next
  case (2 len d)
  then show ?case by (auto simp: valid_handle_def word_less_nat_alt)
next
  case (3 count ss b u)
  then have "\<forall>s \<in> set ss. file_byte_start s < file_byte_end s" by (auto simp: slice_ok_def)
  with 3 validate_slice_map_iff [of ss n] have "contiguous_from 0 ss" by simp
  with 3 show ?case using unat_u32_lt [of count] by (auto simp: valid_handle_def slice_ok_def)
next
  case (5 len t)
  then show ?case using unat_u32_lt [of len] by (simp add: valid_handle_def)
qed (auto simp: valid_handle_def)

text \<open>An inode takes at least 45 bytes, so the blob parser's pre-allocation check (42 bytes per inode) never
  rejects a blob that parses.\<close>

lemma preads_inode: "preads (parse_inode_with_ceiling m) (\<lambda>i b. valid_inode m i \<and> 45 \<le> length b)"
  unfolding parse_inode_with_ceiling_def
proof (intro wire_dec, goal_cases)
  case (1 number mode uid gid mtime ctime nlink fl)
  have atime: "preads (if fl AND INODE_FLAG_ATIME \<noteq> 0 then pbind read_u64_le (\<lambda>t. pret (Some t)) else pret None) (\<lambda>_ _. True)"
    by (intro wire_dec) simp_all
  have xattrs: "preads (if fl AND INODE_FLAG_HAS_XATTRS \<noteq> 0 then parse_xattr_block else pret [])
      (\<lambda>xs b. \<forall>x \<in> set xs. valid_xattr x)"
    by (intro wire_dec preads_xattr_block) simp
  show ?case
    by (rule preads_bind [OF atime], rule preads_bind [OF xattrs], rule preads_bind [OF preads_content_handle],
        rule wire_dec) (auto simp: valid_inode_def)
qed

section \<open>The slice map\<close>


definition two_slices :: "slice_ref list" where
  "two_slices = [\<lparr>file_byte_start = 0, file_byte_end = 10, sl_drop_id = replicate 32 1, drop_byte_start = 0, drop_byte_len = 10\<rparr>,
                 \<lparr>file_byte_start = 10, file_byte_end = 15, sl_drop_id = replicate 32 2, drop_byte_start = 0, drop_byte_len = 5\<rparr>]"

definition two_slice_inode :: inode where
  "two_slice_inode = \<lparr>in_number = 4, in_mode = 0x81A4, in_uid = 0, in_gid = 0, in_mtime_ns = 0, in_ctime_ns = 0,
     in_nlink = 1, in_atime_ns = None, in_xattrs = [], in_content_handle = SliceMap two_slices\<rparr>"


end
