(* ===== verification/Directory_Node.thy ===== *)
theory Directory_Node
  imports Cursor Merkle
begin

text \<open>
  Directory nodes (\<open>limnifs-core/src/directory_node.rs\<close>), their hash (\<open>dir_node_hash\<close> of \<open>metadata.rs\<close>) and the
  writer's encoder (\<open>encode_dir_node\<close> of \<open>limnifs-write/src/lib.rs\<close>). A parsed node has its names strictly
  ascending, hence distinct, and its hash is the hash of the bytes it was parsed from.
\<close>

record dir_entry =
  de_name :: bytes
  de_inode_number :: u64
  de_entry_type :: u8

record directory_node =
  dn_version :: u8
  dn_entries :: "dir_entry list"

definition DIRECTORY_NODE_VERSION :: u8 where
  "DIRECTORY_NODE_VERSION = 1"

definition known_entry_type :: "u8 \<Rightarrow> bool" where
  "known_entry_type t \<longleftrightarrow> t = 0x01 \<or> t = 0x02 \<or> t = 0x03 \<or> t = 0x04"

definition parse_dir_entry :: "nat \<Rightarrow> dir_entry list \<Rightarrow> dir_entry parser" where
  "parse_dir_entry i entries =
     (let prev_name = (if entries = [] then None else Some (de_name (last entries))) in
     pbind read_u32_le (\<lambda>name_len.
     pbind (read_n (unat name_len)) (\<lambda>name.
     if name = [] then perr (Corrupt (DirReason (DirNodeEmptyName i))) else
     if 47 \<in> set name then perr (Corrupt (DirReason (DirNodeSlash i))) else
     if 0 \<in> set name then perr (Corrupt (DirReason (DirNodeNul i))) else
     if \<not> utf8_valid name then perr (Corrupt (DirReason (DirNodeNotUtf8 i))) else
     if (case prev_name of None \<Rightarrow> False | Some prev \<Rightarrow> prev \<ge> name)
     then perr (Corrupt (DirReason (DirNodeNotSorted (the prev_name) name))) else
     pbind read_u64_le (\<lambda>inode_number.
     pbind read_u8 (\<lambda>entry_type.
     if \<not> known_entry_type entry_type
     then perr (Corrupt (DirReason (DirNodeEntryType i entry_type))) else
     pret \<lparr>de_name = name, de_inode_number = inode_number, de_entry_type = entry_type\<rparr>)))))"

definition parse_directory_node :: "directory_node parser" where
  "parse_directory_node =
     pbind read_u8 (\<lambda>version.
     if version \<noteq> DIRECTORY_NODE_VERSION then perr (UnsupportedFeature (DirectoryNodeVersion version)) else
     pbind read_u32_le (\<lambda>entry_count.
     pbind (ploop parse_dir_entry 0 (unat entry_count) []) (\<lambda>entries.
     pret \<lparr>dn_version = version, dn_entries = entries\<rparr>)))"

definition encode_dir_entry :: "dir_entry \<Rightarrow> bytes option" where
  "encode_dir_entry e = do {
     name_len \<leftarrow> u32_try_from (length (de_name e));
     Some (u32_to_le_bytes name_len @ de_name e @ u64_to_le_bytes (de_inode_number e) @ [de_entry_type e])
   }"

definition encode_dir_node_bytes :: "dir_entry list \<Rightarrow> bytes option" where
  "encode_dir_node_bytes entries = do {
     count \<leftarrow> u32_try_from (length entries);
     body \<leftarrow> concat_opt (map encode_dir_entry entries);
     Some ([1] @ u32_to_le_bytes count @ body)
   }"

text \<open>The writer's node: entries, bytes and hash.\<close>

record dir_node =
  wn_entries :: "dir_entry list"
  wn_bytes :: bytes
  wn_hash :: bytes

definition encode_dir_node :: "(bytes \<Rightarrow> bytes) \<Rightarrow> dir_entry list \<Rightarrow> dir_node option" where
  "encode_dir_node H entries = do {
     bs \<leftarrow> encode_dir_node_bytes entries;
     Some \<lparr>wn_entries = entries, wn_bytes = bs, wn_hash = hash_section H bs\<rparr>
   }"

definition dir_node_hash :: "(bytes \<Rightarrow> bytes) \<Rightarrow> dir_entry list \<Rightarrow> bytes option" where
  "dir_node_hash H entries = do {
     count \<leftarrow> u32_try_from (length entries);
     body \<leftarrow> concat_opt (map encode_dir_entry entries);
     Some (hash_section H ([1] @ u32_to_le_bytes count @ body))
   }"

section \<open>Well-formedness\<close>

definition valid_dir_entry :: "dir_entry \<Rightarrow> bool" where
  "valid_dir_entry e \<longleftrightarrow>
     de_name e \<noteq> [] \<and> length (de_name e) < 2 ^ 32 \<and> 47 \<notin> set (de_name e) \<and> 0 \<notin> set (de_name e)
     \<and> utf8_valid (de_name e) \<and> known_entry_type (de_entry_type e)"

definition dir_entries_ok :: "dir_entry list \<Rightarrow> bool" where
  "dir_entries_ok es \<longleftrightarrow> sorted_wrt (<) (map de_name es) \<and> (\<forall>e \<in> set es. valid_dir_entry e)"

definition valid_directory_node :: "directory_node \<Rightarrow> bool" where
  "valid_directory_node n \<longleftrightarrow>
     dn_version n = DIRECTORY_NODE_VERSION \<and> length (dn_entries n) < 2 ^ 32 \<and> dir_entries_ok (dn_entries n)"

definition encode_directory_node :: "directory_node \<Rightarrow> bytes option" where
  "encode_directory_node n = encode_dir_node_bytes (dn_entries n)"

lemma dir_entries_ok_snoc:
  "dir_entries_ok (es @ [e]) \<longleftrightarrow>
   dir_entries_ok es \<and> valid_dir_entry e \<and> (es \<noteq> [] \<longrightarrow> de_name (last es) < de_name e)"
proof (cases es rule: rev_cases)
  case Nil
  then show ?thesis by (auto simp: dir_entries_ok_def)
next
  case (snoc xs x)
  then show ?thesis by (auto simp: dir_entries_ok_def sorted_wrt_append dest: less_trans)
qed

lemma dir_names_distinct: "dir_entries_ok es \<Longrightarrow> distinct (map de_name es)"
  by (simp add: dir_entries_ok_def strict_sorted_iff)

lemma parses_dir_entry:
  assumes "dir_entries_ok (acc @ [e])" "encode_dir_entry e = Some bs"
  shows "parses (parse_dir_entry i acc) bs e"
proof -
  have v: "de_name e \<noteq> []" "length (de_name e) < 2 ^ 32" "47 \<notin> set (de_name e)" "0 \<notin> set (de_name e)"
    "utf8_valid (de_name e)" "known_entry_type (de_entry_type e)"
    and sorted: "acc \<noteq> [] \<longrightarrow> de_name (last acc) < de_name e"
    using assms(1) by (auto simp: dir_entries_ok_snoc valid_dir_entry_def)
  have bs: "bs = u32_to_le_bytes (word_of_nat (length (de_name e))) @ de_name e
      @ u64_to_le_bytes (de_inode_number e) @ [de_entry_type e]"
    using assms(2) v(2) by (simp add: encode_dir_entry_def)
  show ?thesis
    unfolding bs parse_dir_entry_def Let_def using v sorted by (intro wire_enc) auto
qed

lemma preads_dir_entry:
  assumes "dir_entries_ok acc"
  shows "preads (parse_dir_entry i acc) (\<lambda>e b. encode_dir_entry e = Some b \<and> dir_entries_ok (acc @ [e]))"
  unfolding parse_dir_entry_def Let_def
proof (intro wire_dec, goal_cases)
  case (1 n name ino t)
  then show ?case
    using assms unat_u32_lt [of n]
    by (auto simp: encode_dir_entry_def dir_entries_ok_snoc valid_dir_entry_def split: if_splits)
qed

interpretation dir_entries: entry_list parse_dir_entry encode_dir_entry dir_entries_ok
proof
  show "encode_dir_entry e \<noteq> None" if "dir_entries_ok (es @ [e])" for es e
    using that by (auto simp: dir_entries_ok_snoc valid_dir_entry_def encode_dir_entry_def)
  show "dir_entries_ok []" by (simp add: dir_entries_ok_def)
qed (auto intro: parses_dir_entry preads_dir_entry dest: dir_entries_ok_snoc [THEN iffD1])

lemma parses_directory_node:
  assumes "valid_directory_node n" "encode_directory_node n = Some bs"
  shows "parses parse_directory_node bs n"
proof -
  let ?es = "dn_entries n"
  have len: "length ?es < 2 ^ 32" and ok: "dir_entries_ok ?es" and v: "dn_version n = 1"
    using assms(1) by (auto simp: valid_directory_node_def DIRECTORY_NODE_VERSION_def)
  from assms(2) len obtain body where body: "concat_opt (map encode_dir_entry ?es) = Some body"
    and bs: "bs = 1 # u32_to_le_bytes (word_of_nat (length ?es)) @ body"
    by (auto simp: encode_directory_node_def encode_dir_node_bytes_def bind_eq_Some_conv)
  show ?thesis
    unfolding bs parse_directory_node_def using len v dir_entries.parses_list [OF ok body]
    by (intro wire_enc parses_bind_last [of _ _ ?es]) (auto simp: DIRECTORY_NODE_VERSION_def)
qed

lemma preads_directory_node:
  "preads parse_directory_node (\<lambda>n b. valid_directory_node n \<and> encode_directory_node n = Some b)"
  unfolding parse_directory_node_def
proof (intro wire_dec preads_bind [OF dir_entries.preads_list], goal_cases)
  case (1 version n es b)
  then show ?case
    using unat_u32_lt [of n]
    by (auto simp: valid_directory_node_def encode_directory_node_def encode_dir_node_bytes_def
        DIRECTORY_NODE_VERSION_def)
qed

interpretation directory_node: wire_format parse_directory_node encode_directory_node valid_directory_node
proof
  show "encode_directory_node v \<noteq> None" if "valid_directory_node v" for v
  proof -
    from that have "dir_entries_ok (dn_entries v)" by (simp add: valid_directory_node_def)
    then obtain body where "concat_opt (map encode_dir_entry (dn_entries v)) = Some body"
      by (rule dir_entries.encs_defined)
    with that show ?thesis
      by (simp add: valid_directory_node_def encode_directory_node_def encode_dir_node_bytes_def)
  qed
qed (rule parses_directory_node preads_directory_node; assumption)+

lemma dir_node_hash_of_bytes:
  "dir_node_hash H es = map_option H (encode_dir_node_bytes es)"
  by (cases "u32_try_from (length es)"; cases "concat_opt (map encode_dir_entry es)")
    (simp_all add: dir_node_hash_def encode_dir_node_bytes_def hash_section_def)

lemma encode_dir_node_bytes_length: "encode_dir_node_bytes es = Some b \<Longrightarrow> 5 \<le> length b"
  by (auto simp: encode_dir_node_bytes_def bind_eq_Some_conv)

section \<open>The node's contract\<close>

text \<open>The directory node parser accepts exactly the encodings of nodes whose names are strictly ascending
  (hence distinct), non-empty, UTF-8 and free of NUL and of the path separator.\<close>

theorem directory_node_accepts_iff:
  assumes "wf_cursor c" "length (cur_bytes c) < usize_bound"
  shows "parse_directory_node c = Inr (n, c') \<longleftrightarrow>
    (\<exists>bs rest. valid_directory_node n \<and> encode_directory_node n = Some bs \<and> remaining c = bs @ rest
       \<and> c' = c\<lparr>cur_pos := cur_pos c + length bs\<rparr>)"
  using assms by (rule directory_node.accepts_iff)

definition directory_node_example :: directory_node where
  "directory_node_example = \<lparr>dn_version = 1,
     dn_entries = [\<lparr>de_name = [97], de_inode_number = 2, de_entry_type = 1\<rparr>,
                   \<lparr>de_name = [97, 98], de_inode_number = 3, de_entry_type = 2\<rparr>]\<rparr>"

definition directory_node_example_bytes :: bytes where
  "directory_node_example_bytes = [1, 2, 0, 0, 0, 1, 0, 0, 0, 97, 2, 0, 0, 0, 0, 0, 0, 0, 1,
     2, 0, 0, 0, 97, 98, 3, 0, 0, 0, 0, 0, 0, 0, 2]"

theorem directory_node_accepts_iff_witness:
  "parse_directory_node (cursor_new directory_node_example_bytes)
    = Inr (directory_node_example, \<lparr>cur_bytes = directory_node_example_bytes, cur_pos = 34\<rparr>)"
  by (subst directory_node_accepts_iff)
    (simp_all add: directory_node_example_def directory_node_example_bytes_def wire_eval valid_directory_node_def
      dir_entries_ok_def valid_dir_entry_def known_entry_type_def encode_directory_node_def
      encode_dir_node_bytes_def encode_dir_entry_def DIRECTORY_NODE_VERSION_def)

end
