(* ===== verification/Metadata.thy ===== *)
theory Metadata
  imports Inode Directory_Node "HOL-Library.Multiset"
begin

text \<open>
  The metadata blob (\<open>limnifs-core/src/metadata.rs\<close>): the parser with its resolution of shared inline data, the
  lookups, the root search and the breadth-first path index.

  \<open>build_path_index\<close> walks inode numbers without a visited set, so it need not end; the model carries fuel, and
  running out of fuel is \<^const>\<open>None\<close>. On an acyclic tree some amount of fuel gives the index, which holds
  exactly the paths of the tree; on a tree with a cycle no amount does.
\<close>

record metadata_blob =
  mb_inodes :: "inode list"
  mb_dir_nodes :: "directory_node list"

definition blob_is_empty :: "metadata_blob \<Rightarrow> bool" where
  "blob_is_empty blob \<longleftrightarrow> mb_inodes blob = [] \<and> mb_dir_nodes blob = []"

definition inode_by_number :: "metadata_blob \<Rightarrow> u64 \<Rightarrow> inode option" where
  "inode_by_number blob number = find (\<lambda>i. in_number i = number) (mb_inodes blob)"

definition dir_node_by_hash :: "(bytes \<Rightarrow> bytes) \<Rightarrow> metadata_blob \<Rightarrow> bytes \<Rightarrow> directory_node option" where
  "dir_node_by_hash H blob hash = find (\<lambda>n. dir_node_hash H (dn_entries n) = Some hash) (mb_dir_nodes blob)"

definition referenced_inodes :: "metadata_blob \<Rightarrow> u64 list" where
  "referenced_inodes blob = concat (map (\<lambda>n. map de_inode_number (dn_entries n)) (mb_dir_nodes blob))"

definition root_candidates :: "metadata_blob \<Rightarrow> u64 list" where
  "root_candidates blob =
     map in_number (filter (\<lambda>i. is_directory i \<and> in_number i \<notin> set (referenced_inodes blob)) (mb_inodes blob))"

definition root_inode_number :: "metadata_blob \<Rightarrow> u64 option" where
  "root_inode_number blob =
     (case root_candidates blob of
        [] \<Rightarrow> None
      | first # rest \<Rightarrow> if rest \<noteq> [] then None else Some first)"

section \<open>The path index\<close>

definition slash :: bytes where
  "slash = [47]"

definition join_path :: "bytes \<Rightarrow> bytes \<Rightarrow> bytes" where
  "join_path prefix name = (if prefix = slash then slash @ name else prefix @ slash @ name)"

text \<open>The entries of the directory with the given inode number; the \<open>continue\<close>s of the walk are the empty list.\<close>

definition dir_children :: "(bytes \<Rightarrow> bytes) \<Rightarrow> metadata_blob \<Rightarrow> u64 \<Rightarrow> dir_entry list" where
  "dir_children H blob n =
     (case inode_by_number blob n of
        None \<Rightarrow> []
      | Some i \<Rightarrow>
          (case in_content_handle i of
             Directory hash \<Rightarrow>
               (case dir_node_by_hash H blob hash of None \<Rightarrow> [] | Some node \<Rightarrow> dn_entries node)
           | _ \<Rightarrow> []))"

fun path_index_loop :: "(bytes \<Rightarrow> bytes) \<Rightarrow> metadata_blob \<Rightarrow> nat \<Rightarrow> (u64 \<times> bytes) list
    \<Rightarrow> (bytes \<rightharpoonup> u64) \<Rightarrow> (bytes \<rightharpoonup> u64) option" where
  "path_index_loop H blob fuel [] index = Some index"
| "path_index_loop H blob 0 (q # queue) index = None"
| "path_index_loop H blob (Suc fuel) ((n, prefix) # queue) index =
     (let new = map (\<lambda>e. (de_inode_number e, join_path prefix (de_name e))) (dir_children H blob n)
      in path_index_loop H blob fuel (queue @ new) (fold (\<lambda>(m, p) idx. idx(p \<mapsto> m)) new index))"

definition build_path_index :: "(bytes \<Rightarrow> bytes) \<Rightarrow> nat \<Rightarrow> metadata_blob \<Rightarrow> (bytes \<rightharpoonup> u64) option" where
  "build_path_index H fuel blob =
     (case root_inode_number blob of
        None \<Rightarrow> Some Map.empty
      | Some root \<Rightarrow> path_index_loop H blob fuel [(root, slash)] (Map.empty(slash \<mapsto> root)))"

section \<open>Parsing\<close>

definition premaining_len :: "nat parser" where
  "premaining_len c = Inr (remaining_len c, c)"

definition parse_inodes :: "u32 \<Rightarrow> inode list parser" where
  "parse_inodes max_inline_bytes =
     pbind read_u32_le (\<lambda>inode_count.
     case usize_checked_mul (unat inode_count) (INODE_FIXED_PREFIX_LEN + 1) of
       None \<Rightarrow> perr (Corrupt (BlobReason (InodeCountOverflows (unat inode_count))))
     | Some min_inodes_size \<Rightarrow>
         pbind (pensure min_inodes_size) (\<lambda>_.
         ploop (\<lambda>_ _. parse_inode_with_ceiling max_inline_bytes) 0 (unat inode_count) []))"

definition parse_dir_nodes :: "directory_node list parser" where
  "parse_dir_nodes =
     pbind read_u32_le (\<lambda>dir_node_count.
     case usize_checked_mul (unat dir_node_count) 5 of
       None \<Rightarrow> perr (Corrupt (BlobReason (DirNodeCountOverflows (unat dir_node_count))))
     | Some min_dir_nodes_size \<Rightarrow>
         pbind (pensure min_dir_nodes_size) (\<lambda>_.
         ploop (\<lambda>_ _. parse_directory_node) 0 (unat dir_node_count) []))"

definition parse_shared_entry :: "u32 \<Rightarrow> nat \<Rightarrow> bytes list \<Rightarrow> bytes parser" where
  "parse_shared_entry max_inline_bytes _ _ =
     pbind read_u32_le (\<lambda>data_len.
     if data_len > max_inline_bytes
     then perr (Corrupt (BlobReason (SharedInlineTooLong data_len max_inline_bytes))) else
     read_n_owned (unat data_len))"

definition parse_shared_table :: "u32 \<Rightarrow> bytes list parser" where
  "parse_shared_table max_inline_bytes =
     pbind read_u32_le (\<lambda>shared_count.
     ploop (parse_shared_entry max_inline_bytes) 0 (unat shared_count) [])"

definition resolve_shared :: "bytes list \<Rightarrow> inode \<Rightarrow> inode outcome" where
  "resolve_shared shared_table i =
     (case in_content_handle i of
        SharedInline idx \<Rightarrow>
          if idx < length shared_table then Inr (i\<lparr>in_content_handle := InlineData (shared_table ! idx)\<rparr>)
          else Inl (Corrupt (BlobReason (SharedInlineIndex idx (length shared_table))))
      | _ \<Rightarrow> Inr i)"

fun resolve_all :: "bytes list \<Rightarrow> inode list \<Rightarrow> inode list outcome" where
  "resolve_all shared_table [] = Inr []"
| "resolve_all shared_table (i # is) =
     (case resolve_shared shared_table i of
        Inl e \<Rightarrow> Inl e
      | Inr i' \<Rightarrow> (case resolve_all shared_table is of Inl e \<Rightarrow> Inl e | Inr is' \<Rightarrow> Inr (i' # is')))"

definition parse_metadata_blob_with_ceiling :: "u32 \<Rightarrow> metadata_blob parser" where
  "parse_metadata_blob_with_ceiling max_inline_bytes =
     pbind (parse_inodes max_inline_bytes) (\<lambda>inodes.
     pbind parse_dir_nodes (\<lambda>dir_nodes.
     pbind premaining_len (\<lambda>rem_len.
     if rem_len \<ge> 4 then
       pbind (parse_shared_table max_inline_bytes) (\<lambda>shared_table.
       pbind (plift (resolve_all shared_table inodes)) (\<lambda>resolved.
       pret \<lparr>mb_inodes = resolved, mb_dir_nodes = dir_nodes\<rparr>))
     else pret \<lparr>mb_inodes = inodes, mb_dir_nodes = dir_nodes\<rparr>)))"

definition parse_metadata_blob :: "metadata_blob parser" where
  "parse_metadata_blob = parse_metadata_blob_with_ceiling DEFAULT_INLINE_DATA_MAX_BYTES"

section \<open>What the parser guarantees\<close>

text \<open>Every inode and directory node of a parsed blob is well formed.\<close>

definition valid_blob :: "u32 \<Rightarrow> metadata_blob \<Rightarrow> bool" where
  "valid_blob m blob \<longleftrightarrow>
     (\<forall>i \<in> set (mb_inodes blob). valid_inode m i) \<and> (\<forall>n \<in> set (mb_dir_nodes blob). valid_directory_node n)"

lemma preads_loop_all:
  assumes "\<And>i acc. preads (body i acc) (\<lambda>x b. V x)"
  shows "preads (ploop body i n acc) (\<lambda>xs b. (\<forall>x \<in> set acc. V x) \<longrightarrow> (\<forall>x \<in> set xs. V x))"
proof (induction n arbitrary: i acc)
  case 0
  show ?case by (auto intro: wire_dec)
next
  case (Suc n)
  show ?case
    unfolding ploop.simps
  proof (rule preads_bind [OF assms])
    fix x b assume x: "V x"
    show "preads (ploop body (Suc i) n (acc @ [x])) (\<lambda>xs b'. (\<forall>x \<in> set acc. V x) \<longrightarrow> (\<forall>x \<in> set xs. V x))"
      by (rule preads_mono [OF Suc.IH]) (use x in auto)
  qed
qed

lemma preads_remaining_len [wire_dec]:
  "(\<And>n. preads (f n) Q) \<Longrightarrow> preads (pbind premaining_len f) Q"
  unfolding preads_def pbind_def premaining_len_def by simp

lemma preads_inodes: "preads (parse_inodes m) (\<lambda>is b. \<forall>i \<in> set is. valid_inode m i)"
proof -
  have "preads (parse_inode_with_ceiling m) (\<lambda>i b. valid_inode m i)"
    by (rule preads_mono [OF preads_inode]) simp
  then show ?thesis
    unfolding parse_inodes_def
    by (intro wire_dec) (rule preads_mono [OF preads_loop_all [where V = "valid_inode m"]], auto)
qed

lemma preads_dir_nodes: "preads parse_dir_nodes (\<lambda>ns b. \<forall>n \<in> set ns. valid_directory_node n)"
proof -
  have "preads parse_directory_node (\<lambda>n b. valid_directory_node n)"
    by (rule preads_mono [OF directory_node.parse_encode]) simp
  then show ?thesis
    unfolding parse_dir_nodes_def
    by (intro wire_dec) (rule preads_mono [OF preads_loop_all [where V = valid_directory_node]], auto)
qed

lemma preads_shared_table: "preads (parse_shared_table m) (\<lambda>t b. \<forall>d \<in> set t. length d \<le> unat m)"
proof -
  have "preads (parse_shared_entry m i acc) (\<lambda>d b. length d \<le> unat m)" for i acc
    unfolding parse_shared_entry_def read_n_owned_def
    by (intro wire_dec) (rule preads_mono [OF preads_read_n], auto simp: word_less_nat_alt)
  then show ?thesis
    unfolding parse_shared_table_def
    by (intro wire_dec) (rule preads_mono [OF preads_loop_all [where V = "\<lambda>d. length d \<le> unat m"]], auto)
qed

lemma resolve_shared_valid:
  assumes "\<forall>d \<in> set t. length d \<le> unat m" "valid_inode m i" "resolve_shared t i = Inr i'"
  shows "valid_inode m i'"
  using assms by (auto simp: resolve_shared_def valid_inode_def valid_handle_def
      split: content_handle.splits if_splits)

lemma resolve_all_valid:
  "\<forall>d \<in> set t. length d \<le> unat m \<Longrightarrow> \<forall>i \<in> set is. valid_inode m i \<Longrightarrow> resolve_all t is = Inr is'
    \<Longrightarrow> \<forall>i \<in> set is'. valid_inode m i"
  by (induction "is" arbitrary: is') (auto dest: resolve_shared_valid split: sum.splits)

lemma resolve_all_no_shared:
  "resolve_all t is = Inr is' \<Longrightarrow> \<forall>i \<in> set is'. \<forall>k. in_content_handle i \<noteq> SharedInline k"
  by (induction "is" arbitrary: is')
    (auto simp: resolve_shared_def split: sum.splits content_handle.splits if_splits)

lemma preads_metadata_blob: "preads (parse_metadata_blob_with_ceiling m) (\<lambda>blob b. valid_blob m blob)"
  unfolding parse_metadata_blob_with_ceiling_def
proof (intro preads_bind [OF preads_inodes] preads_bind [OF preads_dir_nodes] preads_bind [OF preads_shared_table]
    wire_dec, goal_cases)
  case (1 inodes b ns b' n t b'' rs)
  then show ?case by (auto simp: valid_blob_def dest: resolve_all_valid)
qed (auto simp: valid_blob_def)

section \<open>The blob's contract\<close>

text \<open>C14. Every inode and every directory node of a parsed blob is well formed: xattrs, inline sizes, slice
  maps, hashes and targets obey the inode rules, names are sorted and legal, and resolving shared inline data keeps
  the inline ceiling.\<close>

theorem parsed_blob_valid:
  assumes "wf_cursor c" "parse_metadata_blob_with_ceiling m c = Inr (blob, c')"
  shows "valid_blob m blob \<and> cur_bytes c' = cur_bytes c \<and> cur_pos c \<le> cur_pos c' \<and> wf_cursor c'"
  using preadsE [OF preads_metadata_blob assms] preads_frame [OF preads_metadata_blob assms] by metis

definition one_dir_blob :: bytes where
  "one_dir_blob = [1, 0, 0, 0, 1, 0, 0, 0, 0, 0, 0, 0, 0xED, 0x41, 0, 0, 0, 0, 0, 0, 0, 0, 0, 0, 0, 0, 0, 0, 0, 0, 0, 0,
     0, 0, 0, 0, 0, 0, 0, 0, 1, 0, 0, 0, 0,
     5, 5, 5, 5, 5, 5, 5, 5, 5, 5, 5, 5, 5, 5, 5, 5, 5, 5, 5, 5, 5, 5, 5, 5, 5, 5, 5, 5, 5, 5, 5, 5, 0, 0, 0, 0]"

definition one_dir_inode :: inode where
  "one_dir_inode = \<lparr>in_number = 1, in_mode = 0x41ED, in_uid = 0, in_gid = 0, in_mtime_ns = 0, in_ctime_ns = 0,
     in_nlink = 1, in_atime_ns = None, in_xattrs = [], in_content_handle = Directory
       [5, 5, 5, 5, 5, 5, 5, 5, 5, 5, 5, 5, 5, 5, 5, 5, 5, 5, 5, 5, 5, 5, 5, 5, 5, 5, 5, 5, 5, 5, 5, 5]\<rparr>"

theorem parsed_blob_valid_witness:
  "parse_metadata_blob_with_ceiling 4096 (cursor_new one_dir_blob)
      = Inr (\<lparr>mb_inodes = [one_dir_inode], mb_dir_nodes = []\<rparr>, \<lparr>cur_bytes = one_dir_blob, cur_pos = 81\<rparr>)
    \<and> valid_blob 4096 \<lparr>mb_inodes = [one_dir_inode], mb_dir_nodes = []\<rparr>"
proof -
  have run: "parse_metadata_blob_with_ceiling 4096 (cursor_new one_dir_blob)
      = Inr (\<lparr>mb_inodes = [one_dir_inode], mb_dir_nodes = []\<rparr>, \<lparr>cur_bytes = one_dir_blob, cur_pos = 81\<rparr>)"
    by (simp add: parse_metadata_blob_with_ceiling_def one_dir_blob_def parse_inodes_def parser_eval
        INODE_FIXED_PREFIX_LEN_def parse_inode_with_ceiling_def inode_flag_defs parse_content_handle_def
        file_type_defs S_IFMT_def parse_dir_nodes_def one_dir_inode_def premaining_len_def)
  have "wf_cursor (cursor_new one_dir_blob)" by (simp add: wf_cursor_def cursor_new_def)
  from parsed_blob_valid [OF this run] run show ?thesis by blast
qed

end
