(* ===== verification/Path_Index.thy ===== *)
theory Path_Index
  imports Metadata
begin

text \<open>
  The path index of \<open>MetadataBlob::build_path_index\<close> against its specification: the paths of the directory
  graph. The walk returns the exact set of them when no cycle is reachable from the root, and does not return
  otherwise.
\<close>

section \<open>Specification\<close>

inductive reaches :: "(bytes \<Rightarrow> bytes) \<Rightarrow> metadata_blob \<Rightarrow> bytes \<Rightarrow> u64 \<Rightarrow> bool" for H blob where
  root: "root_inode_number blob = Some r \<Longrightarrow> reaches H blob slash r"
| step: "reaches H blob p n \<Longrightarrow> e \<in> set (dir_children H blob n)
    \<Longrightarrow> reaches H blob (join_path p (de_name e)) (de_inode_number e)"

inductive_cases reaches_cases: "reaches H blob p n"

definition child_edges :: "(bytes \<Rightarrow> bytes) \<Rightarrow> metadata_blob \<Rightarrow> (u64 \<times> u64) set" where
  "child_edges H blob = {(n, m). m \<in> de_inode_number ` set (dir_children H blob n)}"

section \<open>The walk is sound and complete\<close>

lemma fold_index_Some:
  "fold (\<lambda>(m, p) idx. idx(p \<mapsto> m)) new index p = Some n \<Longrightarrow> index p = Some n \<or> (n, p) \<in> set new"
  by (induction new arbitrary: index) (fastforce split: if_splits)+

lemma dom_fold_index: "dom (fold (\<lambda>(m, p) idx. idx(p \<mapsto> m)) new index) = dom index \<union> snd ` set new"
  by (induction new arbitrary: index) (auto split: prod.splits)

lemma loop_sound:
  "path_index_loop H blob fuel queue index = Some J \<Longrightarrow> \<forall>(n, p) \<in> set queue. reaches H blob p n
    \<Longrightarrow> \<forall>p n. index p = Some n \<longrightarrow> reaches H blob p n \<Longrightarrow> J p = Some n \<Longrightarrow> reaches H blob p n"
proof (induction H blob fuel queue index rule: path_index_loop.induct)
  case (3 H blob fuel n prefix queue index)
  let ?new = "map (\<lambda>e. (de_inode_number e, join_path prefix (de_name e))) (dir_children H blob n)"
  have new: "\<forall>(m, p) \<in> set ?new. reaches H blob p m"
    using 3(3) by (auto intro: reaches.step)
  show ?case
  proof (rule "3.IH" [OF refl _ _ _ "3.prems"(4)])
    show "path_index_loop H blob fuel (queue @ ?new) (fold (\<lambda>(m, p) idx. idx(p \<mapsto> m)) ?new index) = Some J"
      using "3.prems"(1) by (simp add: Let_def)
    show "\<forall>(n, p) \<in> set (queue @ ?new). reaches H blob p n" using 3(3) new by auto
    show "\<forall>p n. fold (\<lambda>(m, p) idx. idx(p \<mapsto> m)) ?new index p = Some n \<longrightarrow> reaches H blob p n"
      using 3(4) new by (blast dest: fold_index_Some)
  qed
qed simp_all

text \<open>Loop invariant of the completeness proof: the processed pairs are closed under children, up to the queue,
  and everything seen is in the index.\<close>

lemma loop_complete:
  "path_index_loop H blob fuel queue index = Some J
    \<Longrightarrow> \<forall>(n, p) \<in> D. \<forall>e \<in> set (dir_children H blob n).
        (de_inode_number e, join_path p (de_name e)) \<in> D \<union> set queue
    \<Longrightarrow> \<forall>(n, p) \<in> D \<union> set queue. p \<in> dom index
    \<Longrightarrow> \<exists>E. D \<union> set queue \<subseteq> E \<and> (\<forall>(n, p) \<in> E. p \<in> dom J)
      \<and> (\<forall>(n, p) \<in> E. \<forall>e \<in> set (dir_children H blob n). (de_inode_number e, join_path p (de_name e)) \<in> E)"
proof (induction H blob fuel queue index arbitrary: D rule: path_index_loop.induct)
  case (1 H blob fuel index)
  then show ?case by (intro exI [of _ D]) auto
next
  case (3 H blob fuel n prefix queue index)
  let ?new = "map (\<lambda>e. (de_inode_number e, join_path prefix (de_name e))) (dir_children H blob n)"
  have "\<exists>E. insert (n, prefix) D \<union> set (queue @ ?new) \<subseteq> E \<and> (\<forall>(n, p) \<in> E. p \<in> dom J)
      \<and> (\<forall>(n, p) \<in> E. \<forall>e \<in> set (dir_children H blob n). (de_inode_number e, join_path p (de_name e)) \<in> E)"
  proof (rule "3.IH" [OF refl])
    show "path_index_loop H blob fuel (queue @ ?new) (fold (\<lambda>(m, p) idx. idx(p \<mapsto> m)) ?new index) = Some J"
      using "3.prems"(1) by (simp add: Let_def)
    show "\<forall>(n', p) \<in> insert (n, prefix) D. \<forall>e \<in> set (dir_children H blob n').
        (de_inode_number e, join_path p (de_name e)) \<in> insert (n, prefix) D \<union> set (queue @ ?new)"
      using "3.prems"(2) by auto
    show "\<forall>(n', p) \<in> insert (n, prefix) D \<union> set (queue @ ?new).
        p \<in> dom (fold (\<lambda>(m, p) idx. idx(p \<mapsto> m)) ?new index)"
      unfolding dom_fold_index using "3.prems"(3) by force
  qed
  then show ?case by auto
qed simp

lemma index_dom_reaches:
  assumes "build_path_index H fuel blob = Some J" "reaches H blob p n"
  shows "p \<in> dom J"
proof -
  from assms(2) obtain r where r: "root_inode_number blob = Some r"
    by (induction rule: reaches.induct) auto
  with assms(1) have run: "path_index_loop H blob fuel [(r, slash)] (Map.empty(slash \<mapsto> r)) = Some J"
    by (simp add: build_path_index_def)
  have "\<exists>E. {} \<union> set [(r, slash)] \<subseteq> E \<and> (\<forall>(n, p) \<in> E. p \<in> dom J)
      \<and> (\<forall>(n, p) \<in> E. \<forall>e \<in> set (dir_children H blob n). (de_inode_number e, join_path p (de_name e)) \<in> E)"
    by (rule loop_complete [OF run]) auto
  then obtain E where E: "(r, slash) \<in> E" "\<forall>(n, p) \<in> E. p \<in> dom J"
    "\<forall>(n, p) \<in> E. \<forall>e \<in> set (dir_children H blob n). (de_inode_number e, join_path p (de_name e)) \<in> E" by auto
  from assms(2) have "(n, p) \<in> E"
    by (induction rule: reaches.induct) (use r E in auto)
  with E(2) show ?thesis by auto
qed

lemma index_reaches:
  assumes "build_path_index H fuel blob = Some J" "J p = Some n"
  shows "reaches H blob p n"
proof (cases "root_inode_number blob")
  case None
  with assms have "Map.empty = J" by (simp add: build_path_index_def)
  with assms(2) show ?thesis by auto
next
  case (Some r)
  with assms(1) have "path_index_loop H blob fuel [(r, slash)] (Map.empty(slash \<mapsto> r)) = Some J"
    by (simp add: build_path_index_def)
  moreover have "\<forall>(m, q) \<in> set [(r, slash)]. reaches H blob q m"
    "\<forall>q m. (Map.empty(slash \<mapsto> r)) q = Some m \<longrightarrow> reaches H blob q m"
    using Some by (auto intro: reaches.root split: if_splits)
  ultimately show ?thesis using assms(2) by (rule loop_sound)
qed

section \<open>Paths determine inodes\<close>

lemma append_slash_inj:
  assumes "47 \<notin> set a" "47 \<notin> set b" "x @ slash @ a = y @ slash @ b"
  shows "x = y \<and> a = (b :: bytes)"
proof -
  have tw: "takeWhile (\<lambda>c. c \<noteq> 47) (rev (z @ slash @ c)) = rev c" if "47 \<notin> set c" for z c :: bytes
  proof -
    have "takeWhile (\<lambda>c. c \<noteq> 47) (rev c @ 47 # rev z) = rev c"
      using that by (subst takeWhile_append2) auto
    then show ?thesis by (simp add: slash_def)
  qed
  from tw [OF assms(1), of x] tw [OF assms(2), of y] assms(3) have "rev a = rev b" by metis
  then have "a = b" by simp
  with assms(3) show ?thesis by simp
qed

lemma join_path_form: "join_path p a = (if p = slash then [] else p) @ slash @ a"
  by (simp add: join_path_def)

lemma find_SomeD: "find P xs = Some x \<Longrightarrow> x \<in> set xs \<and> P x"
  by (auto simp: find_Some_iff)

lemma dir_childrenE:
  assumes "e \<in> set (dir_children H blob n)"
  obtains i node where "i \<in> set (mb_inodes blob)" "in_number i = n" "node \<in> set (mb_dir_nodes blob)"
    "dir_children H blob n = dn_entries node"
proof -
  from assms obtain i where i: "inode_by_number blob n = Some i"
    by (cases "inode_by_number blob n") (simp_all add: dir_children_def)
  with assms obtain hash where h: "in_content_handle i = Directory hash"
    by (cases "in_content_handle i") (simp_all add: dir_children_def)
  with assms i obtain node where node: "dir_node_by_hash H blob hash = Some node"
    by (cases "dir_node_by_hash H blob hash") (simp_all add: dir_children_def)
  from i have "i \<in> set (mb_inodes blob) \<and> in_number i = n"
    unfolding inode_by_number_def by (rule find_SomeD)
  moreover from node have "node \<in> set (mb_dir_nodes blob)"
    unfolding dir_node_by_hash_def by (blast dest: find_SomeD)
  moreover have "dir_children H blob n = dn_entries node" using i h node by (simp add: dir_children_def)
  ultimately show ?thesis using that by blast
qed

lemma dir_children_valid:
  assumes "valid_blob m blob" "e \<in> set (dir_children H blob n)"
  shows "valid_dir_entry e"
  using assms(2)
proof (rule dir_childrenE)
  fix node assume "node \<in> set (mb_dir_nodes blob)" "dir_children H blob n = dn_entries node"
  with assms show ?thesis by (simp add: valid_blob_def valid_directory_node_def dir_entries_ok_def)
qed

lemma dir_children_name_inj:
  assumes "valid_blob m blob" "e \<in> set (dir_children H blob n)" "e' \<in> set (dir_children H blob n)"
    and "de_name e = de_name e'"
  shows "e = e'"
  using assms(2)
proof (rule dir_childrenE)
  fix node assume "node \<in> set (mb_dir_nodes blob)" and eq: "dir_children H blob n = dn_entries node"
  with assms(1) have "distinct (map de_name (dn_entries node))"
    by (intro dir_names_distinct) (simp add: valid_blob_def valid_directory_node_def)
  with assms(2-4) eq show ?thesis by (simp add: distinct_map inj_on_def)
qed

lemma reaches_nonempty: "reaches H blob p n \<Longrightarrow> p \<noteq> []"
  by (induction rule: reaches.induct) (auto simp: slash_def join_path_def)

lemma join_path_not_root: "a \<noteq> [] \<Longrightarrow> p \<noteq> [] \<Longrightarrow> join_path p a \<noteq> slash"
  by (auto simp: join_path_def slash_def append_eq_Cons_conv)

lemma reaches_unique:
  assumes "valid_blob k blob"
  shows "reaches H blob p n \<Longrightarrow> reaches H blob p m \<Longrightarrow> n = m"
proof (induction arbitrary: m rule: reaches.induct)
  case (root r)
  from root(2) show ?case
  proof (rule reaches_cases)
    fix p' n' e assume "slash = join_path p' (de_name e)" "reaches H blob p' n'" "e \<in> set (dir_children H blob n')"
    with dir_children_valid [OF assms] show ?thesis
      by (metis join_path_not_root reaches_nonempty valid_dir_entry_def)
  qed (use root(1) in simp)
next
  case (step p n e)
  note v = dir_children_valid [OF assms step(2), unfolded valid_dir_entry_def]
  from step(4) show ?case
  proof (rule reaches_cases)
    assume "join_path p (de_name e) = slash"
    with v reaches_nonempty [OF step(1)] show ?thesis by (metis join_path_not_root)
  next
    fix p' n' e'
    assume eq: "join_path p (de_name e) = join_path p' (de_name e')" and m: "m = de_inode_number e'"
      and p': "reaches H blob p' n'" and e': "e' \<in> set (dir_children H blob n')"
    have v': "47 \<notin> set (de_name e')" using dir_children_valid [OF assms e'] by (simp add: valid_dir_entry_def)
    have "(if p = slash then [] else p) = (if p' = slash then [] else p') \<and> de_name e = de_name e'"
      using v v' eq [unfolded join_path_form] by (intro append_slash_inj) simp_all
    then have "p = p'" and name: "de_name e = de_name e'"
      using reaches_nonempty [OF step(1)] reaches_nonempty [OF p'] by (auto split: if_splits)
    with step(3) p' have "n = n'" by simp
    with dir_children_name_inj [OF assms step(2)] e' name m show ?thesis by simp
  qed
qed

section \<open>When the walk returns\<close>

lemma finite_child_edges: "finite (child_edges H blob)"
proof (rule finite_subset)
  show "child_edges H blob \<subseteq> in_number ` set (mb_inodes blob) \<times> set (referenced_inodes blob)"
  proof (clarsimp simp: child_edges_def)
    fix n e assume e: "e \<in> set (dir_children H blob n)"
    then obtain i node where "i \<in> set (mb_inodes blob)" "in_number i = n" "node \<in> set (mb_dir_nodes blob)"
      "dir_children H blob n = dn_entries node" by (rule dir_childrenE)
    with e show "n \<in> in_number ` set (mb_inodes blob) \<and> de_inode_number e \<in> set (referenced_inodes blob)"
      by (auto simp: referenced_inodes_def)
  qed
qed simp

lemma loop_returns:
  assumes "wf R" and edges: "\<And>n e. n \<in> N \<Longrightarrow> e \<in> set (dir_children H blob n)
      \<Longrightarrow> (de_inode_number e, n) \<in> R \<and> de_inode_number e \<in> N"
    and "fst ` set queue \<subseteq> N"
  shows "\<exists>fuel. path_index_loop H blob fuel queue index \<noteq> None"
  using assms(3)
proof (induction "mset (map fst queue)" arbitrary: queue index rule: wf_induct_rule [OF wf_mult [OF assms(1)]])
  case (1 queue)
  show ?case
  proof (cases queue)
    case Nil
    then show ?thesis by simp
  next
    case (Cons q rest)
    obtain n p where q: "q = (n, p)" by (cases q)
    let ?new = "map (\<lambda>e. (de_inode_number e, join_path p (de_name e))) (dir_children H blob n)"
    have n: "n \<in> N" using 1(2) Cons q by auto
    have "(mset (map fst (rest @ ?new)), mset (map fst queue)) \<in> mult1 R"
    proof (rule mult1I)
      show "mset (map fst queue) = add_mset n (mset (map fst rest))" using Cons q by simp
      show "mset (map fst (rest @ ?new)) = mset (map fst rest) + mset (map fst ?new)" by simp
      show "(b, n) \<in> R" if "b \<in># mset (map fst ?new)" for b using that edges [OF n] by auto
    qed
    then have "(mset (map fst (rest @ ?new)), mset (map fst queue)) \<in> mult R"
      unfolding mult_def by (rule r_into_trancl)
    moreover have "fst ` set (rest @ ?new) \<subseteq> N" using edges [OF n] 1(2) Cons by auto
    ultimately obtain fuel where
      "path_index_loop H blob fuel (rest @ ?new) (fold (\<lambda>(m, p) idx. idx(p \<mapsto> m)) ?new index) \<noteq> None"
      using 1(1) [of "rest @ ?new"] by blast
    then have "path_index_loop H blob (Suc fuel) queue index \<noteq> None" using Cons q by (simp add: Let_def)
    then show ?thesis by blast
  qed
qed

definition cycle_free :: "(bytes \<Rightarrow> bytes) \<Rightarrow> metadata_blob \<Rightarrow> bool" where
  "cycle_free H blob \<longleftrightarrow> \<not> (\<exists>p n. reaches H blob p n \<and> (n, n) \<in> (child_edges H blob)\<^sup>+)"

lemma reaches_child_longer:
  assumes "valid_blob k blob" "(n, m) \<in> child_edges H blob" "reaches H blob p n"
  obtains q where "reaches H blob q m" "length p < length q"
proof -
  from assms(2) obtain e where e: "e \<in> set (dir_children H blob n)" "m = de_inode_number e"
    by (auto simp: child_edges_def)
  have "de_name e \<noteq> []" using dir_children_valid [OF assms(1) e(1)] by (simp add: valid_dir_entry_def)
  then have "length p < length (join_path p (de_name e))" by (auto simp: join_path_def slash_def)
  moreover have "reaches H blob (join_path p (de_name e)) m" using assms(3) e by (auto intro: reaches.step)
  ultimately show ?thesis using that by blast
qed

lemma reaches_trancl_longer:
  assumes "valid_blob k blob" "(n, m) \<in> (child_edges H blob)\<^sup>+" "reaches H blob p n"
  shows "\<exists>q. reaches H blob q m \<and> length p < length q"
  using assms(2)
proof (induction rule: trancl_induct)
  case (base m)
  then show ?case by (meson reaches_child_longer [OF assms(1) _ assms(3)])
next
  case (step m m')
  then obtain q where "reaches H blob q m" "length p < length q" by blast
  with step(2) show ?case by (meson reaches_child_longer [OF assms(1)] less_trans)
qed

lemma cycle_paths_unbounded:
  assumes "valid_blob k blob" "(n, n) \<in> (child_edges H blob)\<^sup>+" "reaches H blob p n"
  shows "\<exists>q. reaches H blob q n \<and> j \<le> length q"
proof (induction j)
  case 0
  show ?case using assms(3) by auto
next
  case (Suc j)
  then obtain q where "reaches H blob q n" "j \<le> length q" by blast
  with reaches_trancl_longer [OF assms(1,2)] show ?case by (meson Suc_leI le_less_trans)
qed

lemma loop_finite: "path_index_loop H blob fuel queue index = Some J \<Longrightarrow> finite (dom index) \<Longrightarrow> finite (dom J)"
proof (induction H blob fuel queue index rule: path_index_loop.induct)
  case (3 H blob fuel n prefix queue index)
  then show ?case by (simp add: Let_def dom_fold_index)
qed simp_all

lemma index_finite: "build_path_index H fuel blob = Some J \<Longrightarrow> finite (dom J)"
  by (auto simp: build_path_index_def dest: loop_finite split: option.splits)

lemma index_returns:
  assumes "cycle_free H blob"
  shows "\<exists>fuel J. build_path_index H fuel blob = Some J"
proof (cases "root_inode_number blob")
  case None
  then show ?thesis by (simp add: build_path_index_def)
next
  case (Some r)
  let ?N = "{n. \<exists>p. reaches H blob p n}"
  let ?R = "{(m, n). n \<in> ?N \<and> (n, m) \<in> child_edges H blob}"
  have sub: "?R \<subseteq> (child_edges H blob)\<inverse>" by auto
  have "acyclic ?R"
  proof (rule acyclicI, intro allI notI)
    fix n assume "(n, n) \<in> ?R\<^sup>+"
    then obtain m where "(m, n) \<in> ?R" by (meson tranclD2)
    then have "n \<in> ?N" by auto
    moreover have "(n, n) \<in> ((child_edges H blob)\<inverse>)\<^sup>+"
      using \<open>(n, n) \<in> ?R\<^sup>+\<close> trancl_mono [OF _ sub] by blast
    ultimately show False using assms by (auto simp: cycle_free_def trancl_converse)
  qed
  moreover have "finite ?R" using finite_subset [OF sub] finite_child_edges by simp
  ultimately have "wf ?R" by (rule finite_acyclic_wf [rotated])
  then have "\<exists>fuel. path_index_loop H blob fuel [(r, slash)] (Map.empty(slash \<mapsto> r)) \<noteq> None"
  proof (rule loop_returns)
    show "(de_inode_number e, n) \<in> ?R \<and> de_inode_number e \<in> ?N"
      if "n \<in> ?N" "e \<in> set (dir_children H blob n)" for n e
      using that by (auto simp: child_edges_def intro: reaches.step)
    show "fst ` set [(r, slash)] \<subseteq> ?N" using Some by (auto intro: reaches.root)
  qed
  with Some show ?thesis by (auto simp: build_path_index_def)
qed

lemma index_diverges:
  assumes "valid_blob k blob" "\<not> cycle_free H blob"
  shows "build_path_index H fuel blob = None"
proof (rule ccontr)
  assume "build_path_index H fuel blob \<noteq> None"
  then obtain J where J: "build_path_index H fuel blob = Some J" by blast
  from assms(2) obtain p n where cyc: "reaches H blob p n" "(n, n) \<in> (child_edges H blob)\<^sup>+"
    by (auto simp: cycle_free_def)
  have fin: "finite (length ` dom J)" using index_finite [OF J] by simp
  from cycle_paths_unbounded [OF assms(1) cyc(2,1), of "Suc (Max (length ` dom J))"]
  obtain q where q: "reaches H blob q n" "Max (length ` dom J) < length q" by auto
  have "length q \<le> Max (length ` dom J)"
    using index_dom_reaches [OF J q(1)] fin by (intro Max_ge) auto
  with q(2) show False by simp
qed

section \<open>The index's contract\<close>

text \<open>C12. When the walk returns, the index is exact: on a well-formed blob it maps a path to an inode number if
  and only if following the path's components from the root leads to that inode.\<close>

theorem path_index_exact:
  assumes "valid_blob m blob" "build_path_index H fuel blob = Some J"
  shows "J p = Some n \<longleftrightarrow> reaches H blob p n"
proof
  assume "reaches H blob p n"
  with index_dom_reaches [OF assms(2)] obtain n' where n': "J p = Some n'" by blast
  from index_reaches [OF assms(2) n'] \<open>reaches H blob p n\<close> have "n' = n" by (rule reaches_unique [OF assms(1)])
  with n' show "J p = Some n" by simp
qed (rule index_reaches [OF assms(2)])

text \<open>C13. The walk returns if and only if no directory cycle is reachable from the root. The parser does not
  exclude cycles (entries name inode numbers), so on a well-formed blob with one the construction runs forever,
  with paths of unbounded length in its queue.\<close>

theorem path_index_returns_iff:
  assumes "valid_blob m blob"
  shows "(\<exists>fuel J. build_path_index H fuel blob = Some J) \<longleftrightarrow> cycle_free H blob"
  using index_returns [of H blob] index_diverges [OF assms, of H] by (metis option.distinct(1))

text \<open>A hash of the right width for the witnesses: the length and the first bytes of its input.\<close>

definition toy_hash :: "bytes \<Rightarrow> bytes" where
  "toy_hash bs = word_of_nat (length bs) # take 31 (bs @ replicate 31 0)"

definition entry_a :: dir_entry where
  "entry_a = \<lparr>de_name = [97], de_inode_number = 2, de_entry_type = 2\<rparr>"

definition node_a :: directory_node where
  "node_a = \<lparr>dn_version = 1, dn_entries = [entry_a]\<rparr>"

definition dir_inode :: "u64 \<Rightarrow> inode" where
  "dir_inode n = one_dir_inode\<lparr>in_number := n,
     in_content_handle := Directory (toy_hash [1, 1, 0, 0, 0, 1, 0, 0, 0, 97, 2, 0, 0, 0, 0, 0, 0, 0, 2])\<rparr>"

definition file_inode :: "u64 \<Rightarrow> inode" where
  "file_inode n = one_dir_inode\<lparr>in_number := n, in_mode := 0x81A4, in_content_handle := InlineData [104, 105]\<rparr>"

text \<open>A root holding a file, and the same root holding a directory that contains itself.\<close>

definition tree_blob :: metadata_blob where
  "tree_blob = \<lparr>mb_inodes = [dir_inode 1, file_inode 2], mb_dir_nodes = [node_a]\<rparr>"

definition cyclic_blob :: metadata_blob where
  "cyclic_blob = \<lparr>mb_inodes = [dir_inode 1, dir_inode 2], mb_dir_nodes = [node_a]\<rparr>"

lemma length_toy_hash [simp]: "length (toy_hash bs) = 32"
  by (simp add: toy_hash_def)

lemma dir_node_hash_entry_a:
  "dir_node_hash toy_hash [entry_a] = Some (toy_hash [1, 1, 0, 0, 0, 1, 0, 0, 0, 97, 2, 0, 0, 0, 0, 0, 0, 0, 2])"
  by (simp add: dir_node_hash_def encode_dir_entry_def entry_a_def hash_section_def wire_eval)

lemmas blob_eval = tree_blob_def cyclic_blob_def dir_inode_def file_inode_def one_dir_inode_def node_a_def entry_a_def
  root_inode_number_def root_candidates_def referenced_inodes_def is_directory_def file_type_def S_IFMT_def S_IFDIR_def
  dir_children_def inode_by_number_def dir_node_by_hash_def dir_node_hash_entry_a [unfolded entry_a_def]

lemma example_blobs_valid: "valid_blob 4096 tree_blob" "valid_blob 4096 cyclic_blob"
  by (simp_all add: blob_eval valid_blob_def valid_inode_def valid_handle_def S_IFREG_def valid_directory_node_def
      DIRECTORY_NODE_VERSION_def dir_entries_ok_def valid_dir_entry_def known_entry_type_def)

theorem path_index_exact_witness: "reaches toy_hash tree_blob [47, 97] 2"
proof -
  have "build_path_index toy_hash 2 tree_blob = Some [slash \<mapsto> 1, [47, 97] \<mapsto> 2]"
    by (simp add: build_path_index_def blob_eval join_path_def slash_def numeral_2_eq_2)
  from path_index_exact [OF example_blobs_valid(1) this, of "[47, 97]" 2] show ?thesis by (simp add: slash_def)
qed

theorem path_index_returns_iff_witness:
  "valid_blob 4096 cyclic_blob \<and> \<not> (\<exists>fuel J. build_path_index toy_hash fuel cyclic_blob = Some J)"
proof -
  have "reaches toy_hash cyclic_blob slash 1"
    by (rule reaches.root) (simp add: blob_eval)
  from reaches.step [OF this, of entry_a] have "reaches toy_hash cyclic_blob [47, 97] 2"
    by (simp add: blob_eval join_path_def slash_def)
  moreover have "(2, 2) \<in> child_edges toy_hash cyclic_blob"
    by (simp add: child_edges_def blob_eval)
  ultimately have "\<not> cycle_free toy_hash cyclic_blob" unfolding cycle_free_def by blast
  with path_index_returns_iff [OF example_blobs_valid(2), of toy_hash] example_blobs_valid(2) show ?thesis by blast
qed

end
