(* ===== verification/Image_Reader.thy ===== *)
theory Image_Reader
  imports Cached_Store Path_Index Manifest_Header Metadata_Reference
begin

text \<open>
  The file reader (\<open>limnifs-core/src/read.rs\<close>): opening an image, resolving a path to a file, windowed and sequential
  reads of a file's slices through a slab source, and extraction of a whole file. The file system is a parameter:
  \<open>exists\<close> and \<open>open_file\<close> by flat name in the image's directory. \<open>H\<close> is BLAKE3.
\<close>

record read_config =
  cache_bytes :: nat
  cache_entries :: nat
  parallel_decode :: bool
  frame_cache_bytes :: nat

definition read_config_default :: read_config where
  "read_config_default = \<lparr>cache_bytes = DEFAULT_CACHE_BYTES, cache_entries = DEFAULT_CACHE_CAPACITY,
     parallel_decode = False, frame_cache_bytes = DEFAULT_FRAME_CACHE_BYTES\<rparr>"

record image_reader =
  ir_blob :: metadata_blob
  ir_root_inode_number :: u64
  ir_store :: cached_store

section \<open>Opening an image\<close>

text \<open>The slab of an index entry: the first of its locators that exists. A missing slab stays \<^const>\<open>None\<close>.\<close>

fun open_slab :: "(bytes \<Rightarrow> bool) \<Rightarrow> (bytes \<Rightarrow> bytes option) \<Rightarrow> locator_entry list \<Rightarrow> slab_storage option outcome" where
  "open_slab exists open_file [] = Inr None"
| "open_slab exists open_file (locator # locators) =
     (case local_sidecar_name (uri locator) of
        Inl e \<Rightarrow> Inl e
      | Inr name \<Rightarrow>
          if exists name
          then (case open_file name of
                  None \<Rightarrow> Inl (Corrupt (ReaderReason (SlabUnopenable name)))
                | Some bs \<Rightarrow> Inr (Some (Mapped bs)))
          else open_slab exists open_file locators)"

text \<open>An ordinal that is not an index of the table is a panic. The table has one more than the greatest ordinal, with
  the wrap-around of \<open>+ 1\<close> at \<open>u64::MAX\<close>.\<close>

fun open_slabs :: "(bytes \<Rightarrow> bool) \<Rightarrow> (bytes \<Rightarrow> bytes option) \<Rightarrow> slab_index_entry list \<Rightarrow> slab_storage option list
    \<Rightarrow> slab_storage option list outcome option" where
  "open_slabs exists open_file [] sources = Some (Inr sources)"
| "open_slabs exists open_file (entry # entries) sources =
     (case open_slab exists open_file (sie_locators entry) of
        Inl e \<Rightarrow> Some (Inl e)
      | Inr None \<Rightarrow> open_slabs exists open_file entries sources
      | Inr (Some source) \<Rightarrow>
          let idx = unat (ordinal (sie_slab_id entry)) in
          if idx < length sources then open_slabs exists open_file entries (sources[idx := Some source]) else None)"

definition slab_table_size :: "slab_index_entry list \<Rightarrow> nat" where
  "slab_table_size entries = unat (fold (\<lambda>entry slab_count. max slab_count (ordinal (sie_slab_id entry) + 1)) entries (0 :: u64))"

definition from_parts :: "decompressor \<Rightarrow> (bytes \<Rightarrow> bool) \<Rightarrow> (bytes \<Rightarrow> bytes option) \<Rightarrow> bytes \<Rightarrow> read_config
    \<Rightarrow> image_reader outcome option" where
  "from_parts dec exists open_file manifest config =
     (case parse_manifest_header (cursor_new manifest) of
        Inl e \<Rightarrow> Some (Inl e)
      | Inr (_, c1) \<Rightarrow>
     (case parse_feature_flags_section c1 of
        Inl e \<Rightarrow> Some (Inl e)
      | Inr (_, c2) \<Rightarrow>
     (case parse_metadata_reference dec c2 of
        Inl e \<Rightarrow> Some (Inl e)
      | Inr (meta_ref, c3) \<Rightarrow>
     (case (case mr_inline_metadata meta_ref of
              Some inline \<Rightarrow> Inr inline
            | None \<Rightarrow> read_external_metadata dec open_file meta_ref) of
        Inl e \<Rightarrow> Some (Inl e)
      | Inr blob_wire \<Rightarrow>
     (case parse_metadata_blob (cursor_new blob_wire) of
        Inl e \<Rightarrow> Some (Inl e)
      | Inr (blob, _) \<Rightarrow>
     (case parse_slab_index c3 of
        Inl e \<Rightarrow> Some (Inl e)
      | Inr (slab_index, _) \<Rightarrow>
     (case open_slabs exists open_file (si_entries slab_index)
             (replicate (slab_table_size (si_entries slab_index)) None) of
        None \<Rightarrow> None
      | Some (Inl e) \<Rightarrow> Some (Inl e)
      | Some (Inr sources) \<Rightarrow>
     (case from_sources (map (\<lambda>s. case s of Some x \<Rightarrow> x | None \<Rightarrow> Memory []) sources) of
        Inl e \<Rightarrow> Some (Inl e)
      | Inr store \<Rightarrow>
     (case root_inode_number blob of
        None \<Rightarrow> Some (Inl (Corrupt (ReaderReason NoUniqueRoot)))
      | Some root \<Rightarrow>
          Some (Inr \<lparr>ir_blob = blob, ir_root_inode_number = root,
            ir_store = with_frame_budget store (cache_entries config) (cache_bytes config)
              (frame_cache_bytes config)\<rparr>))))))))))"

section \<open>Resolving a path\<close>

definition trim_slashes :: "bytes \<Rightarrow> bytes" where
  "trim_slashes path = rev (dropWhile (\<lambda>b. b = 47) (rev (dropWhile (\<lambda>b. b = 47) path)))"

text \<open>\<open>str::split('/')\<close>.\<close>

fun split_slash :: "bytes \<Rightarrow> bytes list" where
  "split_slash [] = [[]]"
| "split_slash (b # bs) =
     (if b = 47 then [] # split_slash bs
      else case split_slash bs of [] \<Rightarrow> [[b]] | p # ps \<Rightarrow> (b # p) # ps)"

fun resolve_components :: "(bytes \<Rightarrow> bytes) \<Rightarrow> metadata_blob \<Rightarrow> bytes \<Rightarrow> inode \<Rightarrow> bytes list \<Rightarrow> inode outcome" where
  "resolve_components H blob path current [] = Inr current"
| "resolve_components H blob path current (name # names) =
     (if name = [] \<or> 0 \<in> set name then Inl (Corrupt (ReaderReason (PathBadComponent path))) else
      case in_content_handle current of
        Directory hash \<Rightarrow>
          (case dir_node_by_hash H blob hash of
             None \<Rightarrow> Inl (Corrupt (ReaderReason (PathNodeMissing path)))
           | Some node \<Rightarrow>
               (case find (\<lambda>e. de_name e = name) (dn_entries node) of
                  None \<Rightarrow> Inl (Corrupt (ReaderReason (PathNotFound path)))
                | Some entry \<Rightarrow>
                    (case inode_by_number blob (de_inode_number entry) of
                       None \<Rightarrow> Inl (Corrupt (ReaderReason (PathInodeMissing path (de_inode_number entry))))
                     | Some next_inode \<Rightarrow> resolve_components H blob path next_inode names)))
      | _ \<Rightarrow> Inl (Corrupt (ReaderReason (PathNotDirectory path))))"

definition resolve_file :: "(bytes \<Rightarrow> bytes) \<Rightarrow> metadata_blob \<Rightarrow> u64 \<Rightarrow> bytes \<Rightarrow> inode outcome" where
  "resolve_file H blob root path =
     (let trimmed = trim_slashes path in
      case inode_by_number blob root of
        None \<Rightarrow> Inl (Corrupt (ReaderReason RootInodeMissing))
      | Some current \<Rightarrow>
          (case (if trimmed = [] then Inr current
                 else resolve_components H blob path current (split_slash trimmed)) of
             Inl e \<Rightarrow> Inl e
           | Inr found \<Rightarrow>
               if \<not> is_regular found then Inl (Corrupt (ReaderReason (PathNotRegular path))) else Inr found))"

section \<open>Windowed reads\<close>

definition file_reader_size :: "inode \<Rightarrow> nat" where
  "file_reader_size i =
     (case in_content_handle i of
        InlineData d \<Rightarrow> length d
      | SliceMap s \<Rightarrow> (if s = [] then 0 else unat (file_byte_end (last s)))
      | _ \<Rightarrow> 0)"

definition saturating_add_u64 :: "u64 \<Rightarrow> nat \<Rightarrow> nat" where
  "saturating_add_u64 a b = min (unat a + b) (2 ^ 64 - 1)"

text \<open>The loop over the slices. A slice of the buffer past its end is a panic.\<close>

primrec read_slices :: "'s ranged_read \<Rightarrow> nat \<Rightarrow> nat \<Rightarrow> slice_ref list \<Rightarrow> nat \<Rightarrow> bytes \<Rightarrow> 's
    \<Rightarrow> ((nat \<times> bytes) outcome \<times> 's) option" where
  "read_slices ranged offset window_end [] filled buf s = Some (Inr (filled, buf), s)"
| "read_slices ranged offset window_end (sl # slices) filled buf s =
     (let start = unat (file_byte_start sl); stop = unat (file_byte_end sl) in
      if stop \<le> offset \<or> start \<ge> window_end then read_slices ranged offset window_end slices filled buf s else
      let from_abs = max offset start;
          to_abs = min window_end stop;
          want = u64_sub to_abs from_abs
      in if want = 0 then read_slices ranged offset window_end slices filled buf s else
         if filled + want > length buf then None else
         case ranged (sl_drop_id sl) (word_of_nat (from_abs - start)) (take want (drop filled buf)) s of
           None \<Rightarrow> None
         | Some (Some (Inl e), s') \<Rightarrow> Some (Inl e, s')
         | Some (None, s') \<Rightarrow> Some (Inl (Corrupt (ReaderReason DropInNoSlab)), s')
         | Some (Some (Inr (n, part)), s') \<Rightarrow>
             let buf' = copy_at filled part buf;
                 filled' = filled + n
             in if filled' = length buf \<or> stop \<ge> window_end then Some (Inr (filled', buf'), s')
                else read_slices ranged offset window_end slices filled' buf' s')"

definition read_window_into :: "'s ranged_read \<Rightarrow> inode \<Rightarrow> 's option \<Rightarrow> u64 \<Rightarrow> bytes
    \<Rightarrow> ((nat \<times> bytes) outcome \<times> 's option) option" where
  "read_window_into ranged inode store offset buf =
     (if buf = [] then Some (Inr (0, buf), store) else
      case in_content_handle inode of
        InlineData d \<Rightarrow>
          let start = unat offset in
          if start \<ge> length d then Some (Inr (0, buf), store)
          else let stop = min (start + length buf) (length d)
               in Some (Inr (stop - start, copy_at 0 (take (stop - start) (drop start d)) buf), store)
      | SliceMap slices \<Rightarrow>
          (case store of
             None \<Rightarrow> Some (Inl (Corrupt (ReaderReason NoSlabStore)), store)
           | Some s \<Rightarrow>
               map_option (\<lambda>(r, s'). (r, Some s'))
                 (read_slices ranged (unat offset) (saturating_add_u64 offset (length buf)) slices 0 buf s))
      | _ \<Rightarrow> Some (Inr (0, buf), store))"

section \<open>Sequential reads and extraction\<close>

text \<open>\<open>Read for FileReader\<close>: a positional read that advances the cursor.\<close>

definition file_read :: "'s ranged_read \<Rightarrow> inode \<Rightarrow> u64 \<Rightarrow> bytes \<Rightarrow> 's option
    \<Rightarrow> ((nat \<times> bytes) outcome \<times> u64 \<times> 's option) option" where
  "file_read ranged inode pos buf store =
     (case read_window_into ranged inode store pos buf of
        None \<Rightarrow> None
      | Some (Inl e, store') \<Rightarrow> Some (Inl e, pos, store')
      | Some (Inr (n, buf'), store') \<Rightarrow> Some (Inr (n, buf'), pos + word_of_nat n, store'))"

text \<open>\<open>std::io::copy\<close> with a buffer of \<open>chunk\<close> bytes: reads until a read returns 0. \<^const>\<open>None\<close> is a panic or that the
  fuel did not suffice.\<close>

primrec io_copy :: "'s ranged_read \<Rightarrow> inode \<Rightarrow> nat \<Rightarrow> (bytes \<Rightarrow> 'w \<Rightarrow> 'w option) \<Rightarrow> nat \<Rightarrow> u64 \<Rightarrow> 's option \<Rightarrow> 'w
    \<Rightarrow> (unit outcome \<times> 's option \<times> 'w) option" where
  "io_copy ranged inode chunk write_all 0 pos store w = None"
| "io_copy ranged inode chunk write_all (Suc fuel) pos store w =
     (case file_read ranged inode pos (replicate chunk 0) store of
        None \<Rightarrow> None
      | Some (Inl e, pos', store') \<Rightarrow> Some (Inl (Corrupt (ReaderReason ExtractIo)), store', w)
      | Some (Inr (n, buf), pos', store') \<Rightarrow>
          if n = 0 then Some (Inr (), store', w)
          else (case write_all (take n buf) w of
                  None \<Rightarrow> Some (Inl (Corrupt (ReaderReason ExtractIo)), store', w)
                | Some w' \<Rightarrow> io_copy ranged inode chunk write_all fuel pos' store' w'))"

text \<open>The parallel path decodes a batch of eight drops and writes them in order before the next batch. The decodes of a
  batch are run in slice order here; by \<open>concurrent_readers_safe\<close> their interleaving does not matter.\<close>

definition DECODE_BATCH :: nat where
  "DECODE_BATCH = 8"

fun batches_of :: "nat \<Rightarrow> 'a list \<Rightarrow> 'a list list" where
  "batches_of n xs = (if xs = [] \<or> n = 0 then [] else take n xs # batches_of n (drop n xs))"

declare batches_of.simps [simp del]

primrec decode_batch :: "decompressor \<Rightarrow> dict_decompressor \<Rightarrow> slice_ref list \<Rightarrow> cached_store
    \<Rightarrow> bytes list outcome \<times> cached_store" where
  "decode_batch dec ddec [] cs = (Inr [], cs)"
| "decode_batch dec ddec (sl # sls) cs =
     (case decoded dec ddec (sl_drop_id sl) cs of
        (Some (Inl e), cs') \<Rightarrow> (Inl e, cs')
      | (None, cs') \<Rightarrow> (Inl (Corrupt (ReaderReason DropInNoSlab)), cs')
      | (Some (Inr d), cs') \<Rightarrow>
          (case decode_batch dec ddec sls cs' of
             (Inl e, cs'') \<Rightarrow> (Inl e, cs'')
           | (Inr ds, cs'') \<Rightarrow> (Inr (d # ds), cs'')))"

primrec write_each :: "(bytes \<Rightarrow> 'w \<Rightarrow> 'w option) \<Rightarrow> bytes list \<Rightarrow> 'w \<Rightarrow> unit outcome \<times> 'w" where
  "write_each write_all [] w = (Inr (), w)"
| "write_each write_all (d # ds) w =
     (case write_all d w of
        None \<Rightarrow> (Inl (Corrupt (ReaderReason ExtractIo)), w)
      | Some w' \<Rightarrow> write_each write_all ds w')"

primrec extract_batches :: "decompressor \<Rightarrow> dict_decompressor \<Rightarrow> (bytes \<Rightarrow> 'w \<Rightarrow> 'w option) \<Rightarrow> slice_ref list list
    \<Rightarrow> cached_store \<Rightarrow> 'w \<Rightarrow> unit outcome \<times> cached_store \<times> 'w" where
  "extract_batches dec ddec write_all [] cs w = (Inr (), cs, w)"
| "extract_batches dec ddec write_all (batch # batches) cs w =
     (case decode_batch dec ddec batch cs of
        (Inl e, cs') \<Rightarrow> (Inl e, cs', w)
      | (Inr ds, cs') \<Rightarrow>
          (case write_each write_all ds w of
             (Inl e, w') \<Rightarrow> (Inl e, cs', w')
           | (Inr _, w') \<Rightarrow> extract_batches dec ddec write_all batches cs' w'))"

text \<open>\<open>extract_file\<close> once the image is open and the path is resolved.\<close>

definition extract_inode :: "(bytes \<Rightarrow> bytes) \<Rightarrow> decompressor \<Rightarrow> dict_decompressor \<Rightarrow> nat \<Rightarrow> nat
    \<Rightarrow> (bytes \<Rightarrow> 'w \<Rightarrow> 'w option) \<Rightarrow> bool \<Rightarrow> inode \<Rightarrow> cached_store \<Rightarrow> 'w \<Rightarrow> (unit outcome \<times> 'w) option" where
  "extract_inode H dec ddec chunk fuel write_all parallel inode cs w =
     (case in_content_handle inode of
        InlineData d \<Rightarrow>
          Some (case write_all d w of
                  None \<Rightarrow> (Inl (Corrupt (ReaderReason ExtractIo)), w)
                | Some w' \<Rightarrow> (Inr (), w'))
      | SliceMap slices \<Rightarrow>
          if parallel \<and> length slices > 1
          then (case extract_batches dec ddec write_all (batches_of DECODE_BATCH slices) cs w of
                  (r, _, w') \<Rightarrow> Some (r, w'))
          else map_option (\<lambda>(r, _, w'). (r, w'))
                 (io_copy (decoded_range_into H dec ddec) inode chunk write_all fuel 0 (Some cs) w)
      | _ \<Rightarrow> Some (Inr (), w))"

section \<open>A window of a file is a slice of its content\<close>

text \<open>The plaintexts behind the slices: each drop decodes, and has the length its slice claims.\<close>

definition slices_hold :: "(bytes \<Rightarrow> bytes outcome option) \<Rightarrow> slice_ref list \<Rightarrow> bytes list \<Rightarrow> bool" where
  "slices_hold content slices ps \<longleftrightarrow> list_all2 (\<lambda>sl p. content (sl_drop_id sl) = Some (Inr p)
     \<and> length p = unat (file_byte_end sl) - unat (file_byte_start sl)) slices ps"

lemma slices_hold_Cons:
  "slices_hold content (sl # sls) ps \<longleftrightarrow> (\<exists>p ps'. ps = p # ps' \<and> content (sl_drop_id sl) = Some (Inr p)
     \<and> length p = unat (file_byte_end sl) - unat (file_byte_start sl) \<and> slices_hold content sls ps')"
  by (auto simp: slices_hold_def list_all2_Cons1)

lemma contiguous_slices:
  "contiguous_from e (sl # sls) \<longleftrightarrow> unat (file_byte_start sl) = unat e
     \<and> unat (file_byte_start sl) < unat (file_byte_end sl) \<and> contiguous_from (file_byte_end sl) sls"
  by (simp add: word_less_nat_alt word_unat_eq_iff)

lemma slices_hold_length:
  "slices_hold content sls ps \<Longrightarrow> contiguous_from e sls \<Longrightarrow>
     unat e + length (concat ps) = (if sls = [] then unat e else unat (file_byte_end (last sls)))"
proof (induction sls arbitrary: e ps)
  case (Cons sl sls)
  from Cons.prems(1) obtain p ps' where p: "ps = p # ps'"
    "length p = unat (file_byte_end sl) - unat (file_byte_start sl)" "slices_hold content sls ps'"
    unfolding slices_hold_Cons by blast
  have c: "unat (file_byte_start sl) = unat e" "unat e < unat (file_byte_end sl)" "contiguous_from (file_byte_end sl) sls"
    using Cons.prems(2) unfolding contiguous_slices by simp_all
  from Cons.IH [OF p(3) c(3)] p(1,2) c show ?case by simp
qed (simp add: slices_hold_def)

text \<open>The content of a file: inline bytes, or the concatenation of the drops of its slices.\<close>

definition file_content :: "(bytes \<Rightarrow> bytes outcome option) \<Rightarrow> inode \<Rightarrow> bytes \<Rightarrow> bool" where
  "file_content content inode bs \<longleftrightarrow>
     (case in_content_handle inode of
        InlineData d \<Rightarrow> bs = d
      | SliceMap sls \<Rightarrow> contiguous_from 0 sls \<and> (\<exists>ps. slices_hold content sls ps \<and> bs = concat ps)
      | _ \<Rightarrow> bs = [])"

lemma file_content_length: "file_content content inode bs \<Longrightarrow> length bs = file_reader_size inode"
  by (auto simp: file_content_def file_reader_size_def split: content_handle.splits
      dest!: slices_hold_length [where e = 0])

context slab_source
begin

lemma ranged_part:
  assumes "ok s" "content i = Some (Inr p)" "k + want \<le> length p" "want \<noteq> 0" "length p < 2 ^ 64" "length part = want"
  shows "\<exists>s'. ok s' \<and> ranged i (word_of_nat k) part s = Some (Some (Inr (want, take want (drop k p))), s')"
proof -
  have u: "unat (word_of_nat k :: u64) = k" using assms(3,5) by (simp add: unat_u64_of_nat)
  have "\<exists>s'. ok s' \<and> ranged i (word_of_nat k) part s = Some (Some (Inr (fill_from p (word_of_nat k) part)), s')"
    by (rule fills [OF assms(1,2)]) (use assms u in simp_all)
  moreover have "fill_from p (word_of_nat k) part = (want, take want (drop k p))"
    using assms by (simp add: fill_from_def Let_def u copy_at_def min_absorb2)
  ultimately show ?thesis by simp
qed

lemma read_slices_window:
  assumes "ok s" "slices_hold content sls ps" "contiguous_from e sls"
    and "filled = unat e - offset" "unat e \<le> offset \<or> unat e < we" "offset < 2 ^ 64 - 1 \<Longrightarrow> offset < we"
    and "we \<le> offset + length buf" "offset < 2 ^ 64" "we < 2 ^ 64"
  shows "\<exists>s'. ok s' \<and> read_slices ranged offset we sls filled buf s =
    Some (Inr (min we (unat e + length (concat ps)) - offset, copy_at filled
      (take (min we (unat e + length (concat ps)) - max offset (unat e)) (drop (offset - unat e) (concat ps))) buf), s')"
  using assms
proof (induction sls arbitrary: e ps filled buf s)
  case Nil
  then show ?case by (auto simp: slices_hold_def)
next
  case (Cons sl sls)
  define st where "st = unat (file_byte_start sl)"
  define en where "en = unat (file_byte_end sl)"
  from Cons.prems(2) obtain p ps' where ps: "ps = p # ps'" and p: "content (sl_drop_id sl) = Some (Inr p)"
    and lp: "length p = en - st" and rest: "slices_hold content sls ps'"
    unfolding slices_hold_Cons st_def en_def by blast
  have c: "st = unat e" "st < en" "contiguous_from (file_byte_end sl) sls"
    using Cons.prems(3) unfolding contiguous_slices by (simp_all add: st_def en_def)
  have en: "en < 2 ^ 64" by (simp add: en_def unat_u64_lt)
  note IH = Cons.IH [OF _ rest c(3), folded en_def]
  have lc: "unat e + length (concat ps) = en + length (concat ps')" using c(1,2) lp by (simp add: ps)
  show ?case
  proof (cases "en \<le> offset")
    case True
    have "filled = 0" using Cons.prems(4) c True by simp
    obtain s' where s': "ok s'" "read_slices ranged offset we sls 0 buf s =
      Some (Inr (min we (en + length (concat ps')) - offset, copy_at 0
        (take (min we (en + length (concat ps')) - max offset en) (drop (offset - en) (concat ps'))) buf), s')"
      using IH [OF Cons.prems(1), of 0 buf] Cons.prems(6-9) True by auto
    moreover have "drop (offset - unat e) (concat ps) = drop (offset - en) (concat ps')"
      using True c(1,2) lp by (simp add: ps)
    moreover have "max offset en = offset" "max offset (unat e) = offset" using True c by simp_all
    ultimately show ?thesis
      using True \<open>filled = 0\<close> by (simp add: st_def [symmetric] en_def [symmetric] lc)
  next
    case False
    then have off: "offset < en" "offset < we" using en Cons.prems(6) by auto
    have stwe: "st < we" using Cons.prems(5) c(1) off by auto
    define fr where "fr = max offset st"
    define to where "to = min we en"
    have ft: "fr < to" "to < 2 ^ 64" "fr - st + (to - fr) \<le> length p" "fr \<ge> st"
      using off stwe c(2) lp en by (auto simp: fr_def to_def)
    have want: "u64_sub to fr = to - fr" using ft by (simp add: u64_sub_exact)
    have fit: "filled + (to - fr) = to - offset" "to - offset \<le> length buf"
    proof -
      have "filled = fr - offset" using Cons.prems(4) c(1) by (simp add: fr_def max_def)
      moreover have "offset \<le> fr" by (simp add: fr_def)
      ultimately show "filled + (to - fr) = to - offset" using ft(1) by simp
      show "to - offset \<le> length buf" using Cons.prems(7) unfolding to_def by linarith
    qed
    obtain s1 where s1: "ok s1" "ranged (sl_drop_id sl) (word_of_nat (fr - st)) (take (to - fr) (drop filled buf)) s
        = Some (Some (Inr (to - fr, take (to - fr) (drop (fr - st) p))), s1)"
    proof -
      have "length p < 2 ^ 64" "length (take (to - fr) (drop filled buf)) = to - fr" "to - fr \<noteq> 0"
        using lp en fit ft(1) by simp_all
      then show ?thesis using ranged_part [OF Cons.prems(1) p ft(3)] that by blast
    qed
    let ?buf = "copy_at filled (take (to - fr) (drop (fr - st) p)) buf"
    have lpart: "length (take (to - fr) (drop (fr - st) p)) = to - fr" using ft by simp
    have lb: "length ?buf = length buf" using fit lpart by simp
    have step: "read_slices ranged offset we (sl # sls) filled buf s =
        (if to - offset = length buf \<or> en \<ge> we then Some (Inr (to - offset, ?buf), s1)
         else read_slices ranged offset we sls (to - offset) ?buf s1)"
      using off stwe ft fit s1(2)
      by (simp add: st_def [symmetric] en_def [symmetric] fr_def [symmetric] to_def [symmetric] want Let_def not_le)
    have frst: "fr - st = offset - unat e" "max offset (unat e) = fr" by (auto simp: fr_def c(1))
    show ?thesis
    proof (cases "to - offset = length buf \<or> en \<ge> we")
      case True
      then have "to = we" using Cons.prems(7) off by (auto simp: to_def)
      moreover have "take (we - fr) (drop (fr - st) (concat ps)) = take (we - fr) (drop (fr - st) p)"
        using ft(3) \<open>to = we\<close> by (simp add: ps)
      ultimately show ?thesis
        using step True s1(1) off by (auto simp: lc frst(1) [symmetric] frst(2) to_def)
    next
      case F2: False
      then have to: "to = en" "en < we" by (simp_all add: to_def)
      obtain s' where s': "ok s'" "read_slices ranged offset we sls (en - offset) ?buf s1 =
        Some (Inr (min we (en + length (concat ps')) - offset, copy_at (en - offset)
          (take (min we (en + length (concat ps')) - max offset en) (drop (offset - en) (concat ps'))) ?buf), s')"
        using IH [OF s1(1), of "en - offset" ?buf] Cons.prems(6-9) to lb by auto
      have "copy_at (en - offset) (take (min we (en + length (concat ps')) - max offset en) (drop (offset - en) (concat ps'))) ?buf
          = copy_at filled (take (min we (unat e + length (concat ps)) - max offset (unat e))
              (drop (offset - unat e) (concat ps))) buf"
      proof (subst copy_at_append)
        have "take (min we (en + length (concat ps')) - fr) (drop (fr - st) p @ concat ps')
            = drop (fr - st) p @ take (min we (en + length (concat ps')) - en) (concat ps')"
          using ft lp to c(2) by (auto simp: min_def intro: diff_le_mono)
        then show "copy_at filled (take (to - fr) (drop (fr - st) p) @
            take (min we (en + length (concat ps')) - max offset en) (drop (offset - en) (concat ps'))) buf
          = copy_at filled (take (min we (unat e + length (concat ps)) - max offset (unat e))
              (drop (offset - unat e) (concat ps))) buf"
          using off to ft lp by (simp add: lc frst(1) [symmetric] frst(2)) (simp add: ps lpart)
      qed (use fit lpart to in simp_all)
      with s' show ?thesis using step F2 to by (auto simp: lc)
    qed
  qed
qed

lemma read_window_fills:
  assumes s: "ok s" and bs: "file_content content inode bs" and buf: "buf \<noteq> []"
  shows "\<exists>s'. ok s' \<and> read_window_into ranged inode (Some s) offset buf
    = Some (Inr (fill_from bs offset buf), Some s')"
proof (cases "in_content_handle inode")
  case (InlineData d)
  with bs have d: "d = bs" by (simp add: file_content_def)
  have "min (unat offset + length buf) (length bs) - unat offset = min (length bs - unat offset) (length buf)"
    by linarith
  with s buf show ?thesis by (auto simp: read_window_into_def InlineData d fill_from_def Let_def)
next
  case (SliceMap sls)
  with bs obtain ps where c: "contiguous_from 0 sls" and h: "slices_hold content sls ps" and b: "bs = concat ps"
    by (auto simp: file_content_def)
  let ?we = "saturating_add_u64 offset (length buf)"
  have lb: "length bs < 2 ^ 64"
    using slices_hold_length [OF h c] unat_u64_lt by (simp add: b split: if_splits)
  have "0 < length buf" using buf by simp
  then have we: "unat offset < 2 ^ 64 - 1 \<Longrightarrow> unat offset < ?we" "?we \<le> unat offset + length buf" "?we < 2 ^ 64"
    by (simp_all add: saturating_add_u64_def min_def)
  have "\<exists>s'. ok s' \<and> read_slices ranged (unat offset) ?we sls 0 buf s =
      Some (Inr (min ?we (unat (0 :: u64) + length (concat ps)) - unat offset, copy_at 0
        (take (min ?we (unat (0 :: u64) + length (concat ps)) - max (unat offset) (unat (0 :: u64)))
          (drop (unat offset - unat (0 :: u64)) (concat ps))) buf), s')"
    by (rule read_slices_window [OF s h c]) (use we unat_u64_lt [of offset] in simp_all)
  moreover have "(min ?we (length bs) - unat offset, copy_at 0 (take (min ?we (length bs) - unat offset) (drop (unat offset) bs)) buf)
      = fill_from bs offset buf"
  proof (cases "unat offset \<ge> length bs")
    case False
    have "min ?we (length bs) - unat offset = min (length bs - unat offset) (length buf)"
    proof -
      have "length bs \<le> 2 ^ 64 - 1" using lb by simp
      then show ?thesis unfolding saturating_add_u64_def by linarith
    qed
    with False show ?thesis by (simp add: fill_from_def Let_def)
  qed (simp add: fill_from_def Let_def)
  ultimately show ?thesis using buf by (auto simp: read_window_into_def SliceMap b)
qed (use s bs buf in \<open>auto simp: read_window_into_def file_content_def fill_from_def\<close>)

lemma io_copy_content:
  assumes "ok s" "file_content content inode bs" "0 < chunk" "length bs < 2 ^ 64"
    and "unat pos \<le> length bs" "length bs - unat pos < fuel"
  shows "\<exists>s'. ok s' \<and> io_copy ranged inode chunk (\<lambda>b w. Some (w @ b)) fuel pos (Some s) w
    = Some (Inr (), Some s', w @ drop (unat pos) bs)"
  using assms(1,5,6)
proof (induction fuel arbitrary: pos s w)
  case (Suc fuel)
  have "replicate chunk (0 :: u8) \<noteq> []" using assms(3) by simp
  from read_window_fills [OF Suc.prems(1) assms(2) this, of pos] obtain s' where s': "ok s'"
    and r: "read_window_into ranged inode (Some s) pos (replicate chunk 0)
      = Some (Inr (fill_from bs pos (replicate chunk 0)), Some s')" by blast
  show ?case
  proof (cases "unat pos = length bs")
    case True
    then show ?thesis using s' by (simp add: file_read_def r fill_from_def)
  next
    case False
    define n where "n = min (length bs - unat pos) chunk"
    have n: "n \<noteq> 0" "unat pos + n \<le> length bs" using False Suc.prems(2) assms(3) by (simp_all add: n_def)
    define buf where "buf = copy_at 0 (take n (drop (unat pos) bs)) (replicate chunk 0)"
    have f: "fill_from bs pos (replicate chunk 0) = (n, buf)"
      using False Suc.prems(2) by (simp add: fill_from_def Let_def n_def buf_def)
    have tk: "take n buf = take n (drop (unat pos) bs)" using n(2) by (simp add: buf_def copy_at_def)
    have pos: "unat (pos + word_of_nat n) = unat pos + n"
      using n(2) assms(4) by (simp add: unat_word_ariths)
    have fu: "length bs - (unat pos + n) < fuel" using Suc.prems(3) n by linarith
    obtain s'' where "ok s''" "io_copy ranged inode chunk (\<lambda>b w. Some (w @ b)) fuel (pos + word_of_nat n) (Some s')
        (w @ take n (drop (unat pos) bs)) = Some (Inr (), Some s'', (w @ take n (drop (unat pos) bs)) @ drop (unat pos + n) bs)"
      using Suc.IH [OF s', of "pos + word_of_nat n" "w @ take n (drop (unat pos) bs)"] pos n fu by auto
    moreover have "take n (drop (unat pos) bs) @ drop (unat pos + n) bs = drop (unat pos) bs"
      by (metis add.commute append_take_drop_id drop_drop)
    ultimately show ?thesis using n(1) by (auto simp: file_read_def r f tk)
  qed
qed simp

end

section \<open>The parallel path\<close>

lemma decode_batch_content:
  assumes "cached_inv H dec ddec st cs" "slices_hold (store_plaintext_for dec ddec st) sls ps"
  shows "\<exists>cs'. cached_inv H dec ddec st cs' \<and> decode_batch dec ddec sls cs = (Inr ps, cs')"
  using assms
proof (induction sls arbitrary: cs ps)
  case Nil
  then show ?case by (auto simp: slices_hold_def)
next
  case (Cons sl sls)
  from Cons.prems(2) obtain p ps' where ps: "ps = p # ps'" and p: "store_plaintext_for dec ddec st (sl_drop_id sl) = Some (Inr p)"
    and rest: "slices_hold (store_plaintext_for dec ddec st) sls ps'"
    unfolding slices_hold_Cons by blast
  obtain x cs1 where d: "decoded dec ddec (sl_drop_id sl) cs = (x, cs1)" by fastforce
  with decoded_transparent [OF Cons.prems(1), of "sl_drop_id sl"] p
  have "x = Some (Inr p)" "cached_inv H dec ddec st cs1" by simp_all
  with Cons.IH [OF this(2) rest] d ps show ?case by auto
qed

lemma write_each_append: "write_each (\<lambda>b w. Some (w @ b)) ds w = (Inr (), w @ concat ds)"
  by (induction ds arbitrary: w) auto

lemma extract_batches_content:
  assumes "cached_inv H dec ddec st cs" "slices_hold (store_plaintext_for dec ddec st) sls ps" "0 < n"
  shows "\<exists>cs'. cached_inv H dec ddec st cs'
    \<and> extract_batches dec ddec (\<lambda>b w. Some (w @ b)) (batches_of n sls) cs w = (Inr (), cs', w @ concat ps)"
  using assms
proof (induction n sls arbitrary: cs ps w rule: batches_of.induct)
  case (1 n sls)
  show ?case
  proof (cases "sls = []")
    case True
    then show ?thesis using "1.prems" by (auto simp: batches_of.simps slices_hold_def)
  next
    case False
    have split: "slices_hold (store_plaintext_for dec ddec st) (take n sls) (take n ps)"
      "slices_hold (store_plaintext_for dec ddec st) (drop n sls) (drop n ps)"
      using "1.prems"(2) by (auto simp: slices_hold_def intro: list_all2_takeI list_all2_dropI)
    obtain cs1 where c1: "cached_inv H dec ddec st cs1" "decode_batch dec ddec (take n sls) cs = (Inr (take n ps), cs1)"
      using decode_batch_content [OF "1.prems"(1) split(1)] by blast
    obtain cs2 where "cached_inv H dec ddec st cs2" "extract_batches dec ddec (\<lambda>b w. Some (w @ b)) (batches_of n (drop n sls)) cs1
        (w @ concat (take n ps)) = (Inr (), cs2, (w @ concat (take n ps)) @ concat (drop n ps))"
      using "1.IH" [OF _ c1(1) split(2) "1.prems"(3), of "w @ concat (take n ps)"] False "1.prems"(3) by auto
    moreover have "concat (take n ps) @ concat (drop n ps) = concat ps"
      by (metis append_take_drop_id concat_append)
    ultimately show ?thesis
      using False "1.prems"(3) c1(2) by (subst batches_of.simps) (simp add: write_each_append)
  qed
qed



section \<open>Paths and the directory tree\<close>

fun walk :: "(bytes \<Rightarrow> bytes) \<Rightarrow> metadata_blob \<Rightarrow> u64 \<Rightarrow> bytes list \<Rightarrow> u64 \<Rightarrow> bool" where
  "walk H blob n [] m \<longleftrightarrow> n = m"
| "walk H blob n (a # names) m \<longleftrightarrow>
     (\<exists>e \<in> set (dir_children H blob n). de_name e = a \<and> walk H blob (de_inode_number e) names m)"

definition root_path :: "bytes list \<Rightarrow> bytes" where
  "root_path names = (if names = [] then slash else concat (map (\<lambda>a. slash @ a) names))"

lemma walk_snoc:
  "walk H blob n (names @ [a]) m \<longleftrightarrow>
     (\<exists>k. walk H blob n names k \<and> (\<exists>e \<in> set (dir_children H blob k). de_name e = a \<and> de_inode_number e = m))"
  by (induction names arbitrary: n) auto

lemma walk_names:
  assumes "valid_blob k blob" "walk H blob n names m" "a \<in> set names"
  shows "a \<noteq> [] \<and> 47 \<notin> set a \<and> 0 \<notin> set a"
  using assms(2,3)
  by (induction names arbitrary: n) (auto dest!: dir_children_valid [OF assms(1)] simp: valid_dir_entry_def)

lemma root_path_slash:
  "\<forall>a \<in> set names. a \<noteq> [] \<Longrightarrow> root_path names = slash \<longleftrightarrow> names = []"
  by (cases names) (auto simp: root_path_def slash_def)

lemma reaches_walk:
  assumes "valid_blob k blob"
  shows "reaches H blob p n \<longleftrightarrow> (\<exists>r names. root_inode_number blob = Some r \<and> walk H blob r names n \<and> p = root_path names)"
proof
  assume "reaches H blob p n"
  then show "\<exists>r names. root_inode_number blob = Some r \<and> walk H blob r names n \<and> p = root_path names"
  proof (induction rule: reaches.induct)
    case (root r)
    then show ?case by (intro exI [of _ r] exI [of _ "[]"]) (simp add: root_path_def)
  next
    case (step p n e)
    then obtain r names where r: "root_inode_number blob = Some r" and w: "walk H blob r names n" and p: "p = root_path names"
      by blast
    have "walk H blob r (names @ [de_name e]) (de_inode_number e)" using w step.hyps(2) unfolding walk_snoc by blast
    moreover have "join_path p (de_name e) = root_path (names @ [de_name e])"
      using root_path_slash [of names] walk_names [OF assms w] by (auto simp: p join_path_form) (auto simp: root_path_def)
    ultimately show ?case using r by blast
  qed
next
  assume "\<exists>r names. root_inode_number blob = Some r \<and> walk H blob r names n \<and> p = root_path names"
  then obtain r names where r: "root_inode_number blob = Some r" and "walk H blob r names n" "p = root_path names" by blast
  then show "reaches H blob p n"
  proof (induction names arbitrary: n p rule: rev_induct)
    case Nil
    with r show ?case by (auto simp: root_path_def intro: reaches.root)
  next
    case (snoc a names)
    then obtain k' e where w: "walk H blob r names k'" and e: "e \<in> set (dir_children H blob k')" "de_name e = a"
      "de_inode_number e = n" unfolding walk_snoc by blast
    have "reaches H blob (root_path names) k'" using snoc.IH [OF r w] by blast
    from reaches.step [OF this e(1)] show ?case
      using root_path_slash [of names] walk_names [OF assms w] snoc.prems(3)
      by (auto simp: join_path_form e) (auto simp: root_path_def)
  qed
qed

lemma split_slash_nonempty [simp]: "split_slash bs \<noteq> []"
  by (induction bs) (auto split: list.split)

lemma split_slash_free: "a \<in> set (split_slash bs) \<Longrightarrow> 47 \<notin> set a"
  by (induction bs arbitrary: a) (auto split: list.splits if_splits)

lemma split_slash_concat: "concat (map (\<lambda>a. slash @ a) (split_slash bs)) = slash @ bs"
proof (induction bs)
  case (Cons b bs)
  obtain p ps where "split_slash bs = p # ps" by (meson neq_Nil_conv split_slash_nonempty)
  with Cons show ?case by (auto simp: slash_def)
qed (simp add: slash_def)

lemma split_slash_unique:
  "\<forall>a \<in> set names. 47 \<notin> set a \<Longrightarrow> concat (map (\<lambda>a. slash @ a) names) = slash @ bs \<Longrightarrow> split_slash bs = names"
proof (induction bs arbitrary: names)
  case Nil
  then show ?case by (cases names) (auto simp: slash_def)
next
  case (Cons b bs)
  from Cons.prems(2) obtain a rest where names: "names = a # rest" by (cases names) (auto simp: slash_def)
  show ?case
  proof (cases a)
    case Nil
    with Cons.prems(2) names have "b = 47" "concat (map (\<lambda>a. slash @ a) rest) = slash @ bs"
      by (cases rest, auto simp: slash_def)+
    with Cons.IH [of rest] Cons.prems(1) names Nil show ?thesis by simp
  next
    case (Cons c a')
    with Cons.prems names have "b = c" "c \<noteq> 47" "concat (map (\<lambda>a. slash @ a) (a' # rest)) = slash @ bs"
      by (auto simp: slash_def)
    with Cons.IH [of "a' # rest"] Cons.prems(1) names Cons show ?thesis by simp
  qed
qed

lemma find_child:
  assumes "valid_blob k blob" "dir_children H blob n = dn_entries node"
  shows "find (\<lambda>e. de_name e = a) (dn_entries node) = Some e \<longleftrightarrow> e \<in> set (dir_children H blob n) \<and> de_name e = a"
proof
  assume "e \<in> set (dir_children H blob n) \<and> de_name e = a"
  then have e: "e \<in> set (dn_entries node)" "de_name e = a" using assms(2) by auto
  then obtain e' where e': "find (\<lambda>e. de_name e = a) (dn_entries node) = Some e'"
    by (metis (mono_tags, lifting) find_None_iff not_Some_eq)
  with find_SomeD [OF this] dir_children_name_inj [OF assms(1), of e' H n e] e assms(2) have "e' = e" by simp
  with e' show "find (\<lambda>e. de_name e = a) (dn_entries node) = Some e" by simp
qed (use assms(2) find_SomeD in fastforce)

lemma resolve_components_walk:
  assumes "valid_blob k blob"
  shows "inode_by_number blob n = Some current \<Longrightarrow>
    resolve_components H blob path current names = Inr i \<longleftrightarrow> (\<exists>m. walk H blob n names m \<and> inode_by_number blob m = Some i)"
proof (induction names arbitrary: n current)
  case Nil
  then show ?case by auto
next
  case (Cons a names)
  show ?case
  proof (cases "\<exists>hash node. in_content_handle current = Directory hash \<and> dir_node_by_hash H blob hash = Some node")
    case False
    then have "dir_children H blob n = []"
      using Cons.prems by (auto simp: dir_children_def split: content_handle.split option.split)
    with False show ?thesis by (auto split: content_handle.splits option.splits)
  next
    case True
    then obtain hash node where h: "in_content_handle current = Directory hash" "dir_node_by_hash H blob hash = Some node"
      by blast
    have ch: "dir_children H blob n = dn_entries node" using Cons.prems h by (simp add: dir_children_def)
    note fc = find_child [OF assms ch]
    show ?thesis
    proof (cases "find (\<lambda>e. de_name e = a) (dn_entries node)")
      case None
      then have "\<not> (\<exists>e \<in> set (dir_children H blob n). de_name e = a)" using fc [of a] by auto
      with None h show ?thesis by auto
    next
      case (Some e)
      then have e: "e \<in> set (dir_children H blob n)" "de_name e = a" using fc by auto
      have uniq: "(\<exists>e' \<in> set (dir_children H blob n). de_name e' = a \<and> P e') \<longleftrightarrow> P e" for P
        using e dir_children_name_inj [OF assms] by metis
      have name: "a \<noteq> [] \<and> 0 \<notin> set a" using dir_children_valid [OF assms e(1)] e(2) by (auto simp: valid_dir_entry_def)
      have w: "walk H blob n (a # names) m \<longleftrightarrow> walk H blob (de_inode_number e) names m" for m by (simp add: uniq)
      show ?thesis
      proof (cases "inode_by_number blob (de_inode_number e)")
        case None
        then have "dir_children H blob (de_inode_number e) = []" by (simp add: dir_children_def)
        with None have "\<not> (walk H blob (de_inode_number e) names m \<and> inode_by_number blob m = Some i)" for m
          by (cases names) auto
        with None Some h name show ?thesis unfolding w by simp
      next
        case (Some c)
        with \<open>find _ _ = Some e\<close> h name Cons.IH [OF Some] show ?thesis unfolding w by simp
      qed
    qed
  qed
qed

text \<open>C6. Opening a file by path finds exactly the regular files of the directory tree: it returns an inode if and only
  if that inode is a regular file reached from the root along the components of the path, slashes at either end
  being ignored.\<close>

theorem resolve_file_iff:
  assumes "valid_blob k blob" "root_inode_number blob = Some r"
  shows "resolve_file H blob r path = Inr i \<longleftrightarrow>
    is_regular i \<and> (\<exists>n. reaches H blob (slash @ trim_slashes path) n \<and> inode_by_number blob n = Some i)"
proof -
  define t where "t = trim_slashes path"
  have names: "(\<exists>names. walk H blob r names n \<and> slash @ t = root_path names)
      \<longleftrightarrow> (if t = [] then n = r else walk H blob r (split_slash t) n)" for n
  proof (cases "t = []")
    case True
    then show ?thesis
      using root_path_slash walk_names [OF assms(1)] by (metis append_Nil2 walk.simps(1) root_path_def)
  next
    case False
    have "slash @ t = root_path names \<longleftrightarrow> names = split_slash t" if "walk H blob r names n" for names
    proof
      assume e: "slash @ t = root_path names"
      with False have "names \<noteq> []" by (auto simp: root_path_def)
      with e split_slash_unique [of names t] walk_names [OF assms(1) that] show "names = split_slash t"
        by (simp add: root_path_def)
    qed (simp add: root_path_def split_slash_concat)
    with False show ?thesis by auto
  qed
  have reach: "reaches H blob (slash @ t) n \<longleftrightarrow> (if t = [] then n = r else walk H blob r (split_slash t) n)" for n
    unfolding reaches_walk [OF assms(1)] assms(2) using names [of n] by auto
  show ?thesis
  proof (cases "inode_by_number blob r")
    case None
    then have "dir_children H blob r = []" by (simp add: dir_children_def)
    with None have "\<not> (reaches H blob (slash @ t) n \<and> inode_by_number blob n = Some i)" for n
      unfolding reach by (cases "split_slash t") auto
    with None show ?thesis by (simp add: resolve_file_def t_def [symmetric])
  next
    case (Some current)
    note rc = resolve_components_walk [OF assms(1) Some, of H path "split_slash t"]
    show ?thesis
    proof (cases "t = []")
      case True
      then show ?thesis
        unfolding t_def [symmetric] reach using Some by (auto simp: resolve_file_def t_def [symmetric])
    next
      case False
      then have "resolve_file H blob r path = Inr i
          \<longleftrightarrow> is_regular i \<and> resolve_components H blob path current (split_slash t) = Inr i"
        using Some by (auto simp: resolve_file_def t_def [symmetric] split: sum.splits if_splits)
      with False show ?thesis unfolding rc t_def [symmetric] reach by simp
    qed
  qed
qed

section \<open>An example image\<close>

text \<open>A directory tree with one file whose single slice is the drop of the example slab.\<close>

definition example_file :: inode where
  "example_file = (file_inode 2)\<lparr>in_content_handle := SliceMap [\<lparr>file_byte_start = 0, file_byte_end = 5,
     sl_drop_id = replicate 32 1, drop_byte_start = 0, drop_byte_len = 5\<rparr>]\<rparr>"

lemma example_file_content:
  "file_content (store_plaintext_for (registry_decompress [store_codec]) (\<lambda>_ _ _. Inl (BadMagic [])) example_store)
     example_file [1, 2, 3, 4, 5]"
  using example_store_plaintext
  by (auto simp: file_content_def example_file_def slices_hold_def intro!: exI [of _ "[[1, 2, 3, 4, 5]]"])

lemma example_collision_free: "no_frame_collision id example_store"
  by (simp add: no_frame_collision_def example_store_frames)



theorem resolve_file_iff_witness:
  "reaches toy_hash tree_blob [47, 97] 2 \<and> resolve_file toy_hash tree_blob 1 [47, 47, 97] = Inr (file_inode 2)"
proof -
  have r: "root_inode_number tree_blob = Some 1" by (simp add: blob_eval)
  have run: "resolve_file toy_hash tree_blob 1 [47, 47, 97] = Inr (file_inode 2)"
    by (simp add: resolve_file_def trim_slashes_def blob_eval is_regular_def S_IFREG_def)
  from run [unfolded resolve_file_iff [OF example_blobs_valid(1) r]]
  obtain n where n: "reaches toy_hash tree_blob (slash @ trim_slashes [47, 47, 97]) n"
    "inode_by_number tree_blob n = Some (file_inode 2)" by blast
  then have "n = 2" by (simp add: blob_eval split: if_splits)
  with n run show ?thesis by (simp add: slash_def trim_slashes_def)
qed

end
