(* ===== verification/Live_Tree.thy ===== *)
theory Live_Tree
  imports Image_Reader
begin

text \<open>
  The live tree walker and its sinks (\<open>limnifs-core/src/live_tree.rs\<close>), on a Unix target (\<open>cfg!(windows)\<close> is false).
  A sink is a record of its callbacks, each taking the sink's state and returning it with the outcome; the walk threads
  that state and the visited list. The recursion is on the depth of nested directories, with fuel: \<open>None\<close> is running out
  of it, and one more than the number of inodes is always enough, because a directory is entered once. A \<open>Path\<close> is
  its bytes, joined as \<open>PathBuf::push\<close> does.
\<close>

section \<open>Names and paths\<close>

definition cfg_windows :: bool where
  "cfg_windows = False"

definition validate_tree_name :: "bytes \<Rightarrow> name_reason + unit" where
  "validate_tree_name name =
     (if name = [] then Inl NameEmpty
      else if name = [46] then Inl NameDot
      else if name = [46, 46] then Inl NameDotDot
      else if hd name = 47 then Inl NameAbsolute
      else if 47 \<in> set name then Inl NameSeparator
      else if 0 \<in> set name then Inl NameNul
      else if cfg_windows \<and> 92 \<in> set name then Inl NameBackslash
      else Inr ())"

text \<open>\<open>Path::join\<close>: an absolute name replaces the path, otherwise a separator is added where one is missing.\<close>

definition path_push :: "bytes \<Rightarrow> bytes \<Rightarrow> bytes" where
  "path_push path name =
     (if name \<noteq> [] \<and> hd name = 47 then name
      else if path = [] \<or> last path = 47 then path @ name
      else path @ slash @ name)"

section \<open>The walk\<close>

record 's sink =
  on_directory_inode :: "bytes \<Rightarrow> inode \<Rightarrow> 's \<Rightarrow> unit outcome \<times> 's"
  on_regular_file :: "bytes \<Rightarrow> inode \<Rightarrow> 's \<Rightarrow> unit outcome \<times> 's"
  on_symlink_inode :: "bytes \<Rightarrow> inode \<Rightarrow> bytes \<Rightarrow> 's \<Rightarrow> unit outcome \<times> 's"
  on_other :: "bytes \<Rightarrow> inode \<Rightarrow> 's \<Rightarrow> unit outcome \<times> 's"

text \<open>The default of \<open>on_other\<close>.\<close>

definition ignore_other :: "bytes \<Rightarrow> inode \<Rightarrow> 's \<Rightarrow> unit outcome \<times> 's" where
  "ignore_other path inode s = (Inr (), s)"

text \<open>The callback for a child that is not a directory.\<close>

definition visit_leaf :: "'s sink \<Rightarrow> bytes \<Rightarrow> inode \<Rightarrow> 's \<Rightarrow> unit outcome \<times> 's" where
  "visit_leaf sink child_path child s =
     (case in_content_handle child of
        InlineData _ \<Rightarrow> on_regular_file sink child_path child s
      | SliceMap _ \<Rightarrow> on_regular_file sink child_path child s
      | Symlink target \<Rightarrow> on_symlink_inode sink child_path child target s
      | _ \<Rightarrow> on_other sink child_path child s)"

definition child_path_of :: "bytes \<Rightarrow> bytes \<Rightarrow> bytes" where
  "child_path_of dir_path name = (if dir_path = [] then name else path_push dir_path name)"

function (sequential) walk_dir :: "(bytes \<Rightarrow> bytes) \<Rightarrow> 's sink \<Rightarrow> metadata_blob \<Rightarrow> nat \<Rightarrow> inode \<Rightarrow> bytes \<Rightarrow> 's \<Rightarrow> u64 list
      \<Rightarrow> (unit outcome \<times> 's \<times> u64 list) option"
  and walk_entries :: "(bytes \<Rightarrow> bytes) \<Rightarrow> 's sink \<Rightarrow> metadata_blob \<Rightarrow> nat \<Rightarrow> bytes \<Rightarrow> bytes \<Rightarrow> dir_entry list \<Rightarrow> 's \<Rightarrow> u64 list
      \<Rightarrow> (unit outcome \<times> 's \<times> u64 list) option" where
  "walk_dir H sink blob 0 dir dir_path s visited = None"
| "walk_dir H sink blob (Suc fuel) dir dir_path s visited =
     (case in_content_handle dir of
        Directory hash \<Rightarrow>
          if in_number dir \<in> set visited then Some (Inr (), s, visited) else
          (case on_directory_inode sink dir_path dir s of
             (Inl e, s') \<Rightarrow> Some (Inl e, s', visited @ [in_number dir])
           | (Inr _, s') \<Rightarrow>
               (case dir_node_by_hash H blob hash of
                  None \<Rightarrow> Some (Inl (Corrupt (TreeReason (WalkNodeMissing (take 4 hash)))), s',
                            visited @ [in_number dir])
                | Some node \<Rightarrow>
                    walk_entries H sink blob fuel hash dir_path (dn_entries node) s' (visited @ [in_number dir])))
      | _ \<Rightarrow> Some (Inr (), s, visited))"
| "walk_entries H sink blob fuel hash dir_path [] s visited = Some (Inr (), s, visited)"
| "walk_entries H sink blob fuel hash dir_path (entry # entries) s visited =
     (case validate_tree_name (de_name entry) of
        Inl reason \<Rightarrow> Some (Inl (Corrupt (TreeReason (WalkBadName (take 4 hash) (de_name entry) reason))), s, visited)
      | Inr _ \<Rightarrow>
          (case inode_by_number blob (de_inode_number entry) of
             None \<Rightarrow> Some (Inl (Corrupt (TreeReason (WalkInodeMissing (de_inode_number entry)))), s, visited)
           | Some child \<Rightarrow>
               (case in_content_handle child of
                  Directory _ \<Rightarrow>
                    (case walk_dir H sink blob fuel child (child_path_of dir_path (de_name entry)) s visited of
                       None \<Rightarrow> None
                     | Some (Inl e, s', visited') \<Rightarrow> Some (Inl e, s', visited')
                     | Some (Inr _, s', visited') \<Rightarrow> walk_entries H sink blob fuel hash dir_path entries s' visited')
                | _ \<Rightarrow>
                    (case visit_leaf sink (child_path_of dir_path (de_name entry)) child s of
                       (Inl e, s') \<Rightarrow> Some (Inl e, s', visited)
                     | (Inr _, s') \<Rightarrow> walk_entries H sink blob fuel hash dir_path entries s' visited))))"
  by pat_completeness auto
termination
  by (relation "inv_image (less_than <*lex*> less_than)
       (\<lambda>x. case x of Inl (_, _, _, fuel, _) \<Rightarrow> (fuel, 0)
                    | Inr (_, _, _, fuel, _, _, entries, _, _) \<Rightarrow> (fuel, Suc (length entries)))") auto

definition walk_live_tree :: "(bytes \<Rightarrow> bytes) \<Rightarrow> nat \<Rightarrow> metadata_blob \<Rightarrow> u64 \<Rightarrow> 's sink \<Rightarrow> 's \<Rightarrow> (unit outcome \<times> 's) option" where
  "walk_live_tree H fuel blob root_number sink s =
     (case inode_by_number blob root_number of
        None \<Rightarrow> Some (Inl (Corrupt (TreeReason (WalkRootMissing root_number))), s)
      | Some root \<Rightarrow>
          (case walk_dir H sink blob fuel root [] s [] of
             None \<Rightarrow> None
           | Some (r, s', _) \<Rightarrow> Some (r, s')))"

section \<open>The plaintext of a file\<close>

text \<open>The slab source is its \<open>plaintext_for\<close>.\<close>

type_synonym source = "bytes \<Rightarrow> bytes outcome option"

definition decode_slice :: "source \<Rightarrow> slice_ref \<Rightarrow> bytes outcome" where
  "decode_slice store sl =
     (case store (sl_drop_id sl) of
        None \<Rightarrow> Inl (Corrupt (TreeReason (PlaintextDropMissing (take 4 (sl_drop_id sl)))))
      | Some (Inl e) \<Rightarrow> Inl (Corrupt (PlaintextDecode e))
      | Some (Inr plaintext) \<Rightarrow>
          (let start = unat (drop_byte_start sl); len = unat (drop_byte_len sl);
               end_pos = min (start + len) (length plaintext)
           in if start > length plaintext \<or> end_pos > length plaintext
              then Inl (Corrupt (TreeReason (PlaintextRange start end_pos (length plaintext))))
              else Inr (take (end_pos - start) (drop start plaintext))))"

definition DECODE_BATCH_SLICES :: nat where
  "DECODE_BATCH_SLICES = 64"

definition DECODE_PARALLEL_THRESHOLD :: nat where
  "DECODE_PARALLEL_THRESHOLD = 8"

text \<open>The streaming iterator: its state, and \<open>next\<close> as a function to the item and the new state.\<close>

record file_chunks =
  fc_inode :: inode
  fc_store :: "source option"
  fc_idx :: nat
  fc_inline :: "bytes option"
  fc_done :: bool

definition file_chunks_new :: "inode \<Rightarrow> source option \<Rightarrow> file_chunks" where
  "file_chunks_new inode store =
     (case in_content_handle inode of
        InlineData d \<Rightarrow> \<lparr>fc_inode = inode, fc_store = store, fc_idx = 0, fc_inline = Some d, fc_done = False\<rparr>
      | SliceMap _ \<Rightarrow> \<lparr>fc_inode = inode, fc_store = store, fc_idx = 0, fc_inline = None, fc_done = False\<rparr>
      | _ \<Rightarrow> \<lparr>fc_inode = inode, fc_store = store, fc_idx = 0, fc_inline = None, fc_done = True\<rparr>)"

definition file_chunks_next :: "file_chunks \<Rightarrow> bytes outcome option \<times> file_chunks" where
  "file_chunks_next it =
     (if fc_done it then (None, it) else
      case fc_inline it of
        Some d \<Rightarrow> (Some (Inr d), it\<lparr>fc_inline := None, fc_done := True\<rparr>)
      | None \<Rightarrow>
          (case in_content_handle (fc_inode it) of
             SliceMap slices \<Rightarrow>
               if fc_idx it \<ge> length slices then (None, it\<lparr>fc_done := True\<rparr>) else
               (case fc_store it of
                  None \<Rightarrow> (Some (Inl (Corrupt (TreeReason ChunksNoStore))), it\<lparr>fc_done := True\<rparr>)
                | Some store \<Rightarrow> (Some (decode_slice store (slices ! fc_idx it)), it\<lparr>fc_idx := Suc (fc_idx it)\<rparr>))
           | _ \<Rightarrow> (None, it\<lparr>fc_done := True\<rparr>)))"

text \<open>A rayon \<open>collect\<close> into a \<open>Result\<close> yields all values, or some error of the batch: which one depends on the
  schedule, so the choice is a parameter.\<close>

definition par_collect :: "(core_error list \<Rightarrow> core_error) \<Rightarrow> bytes outcome list \<Rightarrow> bytes list outcome" where
  "par_collect pick rs =
     (if filter isl rs = [] then Inr (map projr rs) else Inl (pick (map projl (filter isl rs))))"

fun plaintext_batches :: "(core_error list \<Rightarrow> core_error) \<Rightarrow> source \<Rightarrow> slice_ref list list \<Rightarrow> bytes \<Rightarrow> bytes outcome" where
  "plaintext_batches pick store [] out = Inr out"
| "plaintext_batches pick store (batch # batches) out =
     (case par_collect pick (map (decode_slice store) batch) of
        Inl e \<Rightarrow> Inl e
      | Inr parts \<Rightarrow> plaintext_batches pick store batches (out @ concat parts))"

fun plaintext_slices :: "source \<Rightarrow> slice_ref list \<Rightarrow> bytes \<Rightarrow> bytes outcome" where
  "plaintext_slices store [] out = Inr out"
| "plaintext_slices store (sl # sls) out =
     (case decode_slice store sl of Inl e \<Rightarrow> Inl e | Inr part \<Rightarrow> plaintext_slices store sls (out @ part))"

definition file_plaintext :: "(core_error list \<Rightarrow> core_error) \<Rightarrow> inode \<Rightarrow> source option \<Rightarrow> bytes outcome" where
  "file_plaintext pick inode slab_store =
     (case in_content_handle inode of
        InlineData d \<Rightarrow> Inr d
      | SliceMap slices \<Rightarrow>
          (case slab_store of
             None \<Rightarrow> Inl (Corrupt (TreeReason PlaintextNoStore))
           | Some store \<Rightarrow>
               if length slices \<ge> DECODE_PARALLEL_THRESHOLD
               then plaintext_batches pick store (batches_of DECODE_BATCH_SLICES slices) []
               else plaintext_slices store slices [])
      | _ \<Rightarrow> Inr [])"

section \<open>Sinks\<close>

definition no_op :: "'s \<Rightarrow> unit outcome \<times> 's" where
  "no_op s = (Inr (), s)"

text \<open>\<open>DropIdCollectorSink\<close>: the state is the set of drop ids.\<close>

definition collect_drops :: "inode \<Rightarrow> bytes set \<Rightarrow> bytes set" where
  "collect_drops inode drop_ids =
     (case in_content_handle inode of
        SliceMap slices \<Rightarrow> fold (\<lambda>sl ids. insert (sl_drop_id sl) ids) slices drop_ids
      | _ \<Rightarrow> drop_ids)"

definition drop_id_collector :: "bytes set sink" where
  "drop_id_collector =
     \<lparr>on_directory_inode = (\<lambda>_ _. no_op),
      on_regular_file = (\<lambda>_ inode drop_ids. (Inr (), collect_drops inode drop_ids)),
      on_symlink_inode = (\<lambda>_ _ _. no_op),
      on_other = ignore_other\<rparr>"

text \<open>The file system the extracting sinks work on; a result of \<open>False\<close> is an I/O error. \<open>create_file\<close> truncates,
  \<open>append_file\<close> is a write through the open handle, \<open>stamp\<close> is \<open>apply_unix_identity\<close>, whose errors are dropped.\<close>

record 'fs fs_ops =
  create_dir_all :: "bytes \<Rightarrow> 'fs \<Rightarrow> bool \<times> 'fs"
  make_symlink :: "bytes \<Rightarrow> bytes \<Rightarrow> 'fs \<Rightarrow> bool \<times> 'fs"
  hard_link :: "bytes \<Rightarrow> bytes \<Rightarrow> 'fs \<Rightarrow> bool \<times> 'fs"
  create_file :: "bytes \<Rightarrow> 'fs \<Rightarrow> bool \<times> 'fs"
  append_file :: "bytes \<Rightarrow> bytes \<Rightarrow> 'fs \<Rightarrow> bool \<times> 'fs"
  flush_file :: "bytes \<Rightarrow> 'fs \<Rightarrow> bool \<times> 'fs"
  stamp :: "bytes \<Rightarrow> u32 \<Rightarrow> u64 \<Rightarrow> 'fs \<Rightarrow> 'fs"

definition io_to_core :: "bool \<times> 'fs \<Rightarrow> unit outcome \<times> 'fs" where
  "io_to_core r = (if fst r then Inr () else Inl (Corrupt (TreeReason TreeIo)), snd r)"

record dir_identity =
  di_path :: bytes
  di_mode :: u32
  di_mtime_ns :: u64
  di_xattrs :: "xattr list"

record 'fs parallel_extract =
  px_root :: bytes
  px_tasks :: "(bytes \<times> inode) list"
  px_dirs :: "dir_identity list"
  px_links :: "(bytes \<times> bytes) list"
  px_seen_inodes :: "u64 \<rightharpoonup> bytes"
  px_dir_count :: nat
  px_fs :: 'fs

definition parallel_extract_new :: "bytes \<Rightarrow> 'fs \<Rightarrow> 'fs parallel_extract" where
  "parallel_extract_new root fs =
     \<lparr>px_root = root, px_tasks = [], px_dirs = [], px_links = [], px_seen_inodes = Map.empty, px_dir_count = 0,
      px_fs = fs\<rparr>"

definition dir_target :: "bytes \<Rightarrow> bytes \<Rightarrow> bytes" where
  "dir_target root abs_path = (if abs_path = [] then root else path_push root abs_path)"

definition px_on_directory :: "'fs fs_ops \<Rightarrow> bytes \<Rightarrow> 'fs parallel_extract \<Rightarrow> unit outcome \<times> 'fs parallel_extract" where
  "px_on_directory ops abs_path px =
     (case io_to_core (create_dir_all ops (dir_target (px_root px) abs_path) (px_fs px)) of
        (Inl e, fs) \<Rightarrow> (Inl e, px\<lparr>px_fs := fs\<rparr>)
      | (Inr _, fs) \<Rightarrow> (Inr (), px\<lparr>px_fs := fs, px_dir_count := Suc (px_dir_count px)\<rparr>))"

definition px_on_directory_inode :: "'fs fs_ops \<Rightarrow> bytes \<Rightarrow> inode \<Rightarrow> 'fs parallel_extract
    \<Rightarrow> unit outcome \<times> 'fs parallel_extract" where
  "px_on_directory_inode ops abs_path inode px =
     (case px_on_directory ops abs_path px of
        (Inl e, px') \<Rightarrow> (Inl e, px')
      | (Inr _, px') \<Rightarrow>
          (Inr (), px'\<lparr>px_dirs := px_dirs px' @ [\<lparr>di_path = dir_target (px_root px') abs_path, di_mode = in_mode inode,
             di_mtime_ns = in_mtime_ns inode, di_xattrs = in_xattrs inode\<rparr>]\<rparr>))"

definition px_on_regular_file :: "bytes \<Rightarrow> inode \<Rightarrow> 'fs parallel_extract \<Rightarrow> unit outcome \<times> 'fs parallel_extract" where
  "px_on_regular_file abs_path inode px =
     (let target = path_push (px_root px) abs_path in
      case px_seen_inodes px (in_number inode) of
        Some first \<Rightarrow> (Inr (), px\<lparr>px_links := px_links px @ [(target, first)]\<rparr>)
      | None \<Rightarrow> (Inr (), px\<lparr>px_seen_inodes := (px_seen_inodes px)(in_number inode \<mapsto> target),
                          px_tasks := px_tasks px @ [(target, inode)]\<rparr>))"

definition px_on_symlink :: "'fs fs_ops \<Rightarrow> bytes \<Rightarrow> inode \<Rightarrow> bytes \<Rightarrow> 'fs parallel_extract
    \<Rightarrow> unit outcome \<times> 'fs parallel_extract" where
  "px_on_symlink ops abs_path inode target px =
     (case io_to_core (make_symlink ops target (path_push (px_root px) abs_path) (px_fs px)) of
        (r, fs) \<Rightarrow> (r, px\<lparr>px_fs := fs\<rparr>))"

definition parallel_extract_sink :: "'fs fs_ops \<Rightarrow> 'fs parallel_extract sink" where
  "parallel_extract_sink ops =
     \<lparr>on_directory_inode = px_on_directory_inode ops, on_regular_file = px_on_regular_file,
      on_symlink_inode = px_on_symlink ops, on_other = ignore_other\<rparr>"

text \<open>\<open>FilesystemSink\<close>: files are written during the walk, chunk by chunk; a later name of an inode becomes a hard link,
  or a copy if linking fails.\<close>

record 'fs filesystem_sink =
  fk_root :: bytes
  fk_slab_store :: "source option"
  fk_dirs :: "dir_identity list"
  fk_seen_inodes :: "u64 \<rightharpoonup> bytes"
  fk_fs :: 'fs

definition filesystem_sink_new :: "bytes \<Rightarrow> source option \<Rightarrow> 'fs \<Rightarrow> 'fs filesystem_sink" where
  "filesystem_sink_new root slab_store fs =
     \<lparr>fk_root = root, fk_slab_store = slab_store, fk_dirs = [], fk_seen_inodes = Map.empty, fk_fs = fs\<rparr>"

definition filesystem_sink_finish :: "'fs fs_ops \<Rightarrow> 'fs filesystem_sink \<Rightarrow> 'fs filesystem_sink" where
  "filesystem_sink_finish ops fk =
     fk\<lparr>fk_fs := fold (\<lambda>d. stamp ops (di_path d) (di_mode d) (di_mtime_ns d)) (fk_dirs fk) (fk_fs fk)\<rparr>"

definition fk_on_directory_inode :: "'fs fs_ops \<Rightarrow> bytes \<Rightarrow> inode \<Rightarrow> 'fs filesystem_sink
    \<Rightarrow> unit outcome \<times> 'fs filesystem_sink" where
  "fk_on_directory_inode ops abs_path inode fk =
     (let path = dir_target (fk_root fk) abs_path in
      case io_to_core (create_dir_all ops path (fk_fs fk)) of
        (Inl e, fs) \<Rightarrow> (Inl e, fk\<lparr>fk_fs := fs\<rparr>)
      | (Inr _, fs) \<Rightarrow>
          (Inr (), fk\<lparr>fk_fs := fs, fk_dirs := fk_dirs fk @ [\<lparr>di_path = path, di_mode = in_mode inode,
             di_mtime_ns = in_mtime_ns inode, di_xattrs = in_xattrs inode\<rparr>]\<rparr>))"

text \<open>\<open>Path::parent\<close> of a path that ends in an ordinary component.\<close>

definition path_parent :: "bytes \<Rightarrow> bytes" where
  "path_parent path =
     (let pre = rev (dropWhile (\<lambda>b. b \<noteq> 47) (rev path));
          stripped = rev (dropWhile (\<lambda>b. b = 47) (rev pre))
      in if stripped = [] then (if pre = [] then [] else slash) else stripped)"

text \<open>What is left of an iteration; every item takes some of it.\<close>

definition chunks_left :: "file_chunks \<Rightarrow> nat" where
  "chunks_left it =
     (if fc_done it then 0 else
      case fc_inline it of
        Some _ \<Rightarrow> 1
      | None \<Rightarrow> (case in_content_handle (fc_inode it) of SliceMap slices \<Rightarrow> Suc (length slices - fc_idx it) | _ \<Rightarrow> 1))"

lemma chunks_left_next: "file_chunks_next it = (Some r, it') \<Longrightarrow> chunks_left it' < chunks_left it"
  by (auto simp: file_chunks_next_def chunks_left_def split: if_splits option.splits content_handle.splits)

text \<open>The \<open>for chunk in file_chunks(..)\<close> loop.\<close>

function write_chunks :: "'fs fs_ops \<Rightarrow> bytes \<Rightarrow> file_chunks \<Rightarrow> 'fs \<Rightarrow> unit outcome \<times> 'fs" where
  "write_chunks ops path it fs =
     (case file_chunks_next it of
        (None, _) \<Rightarrow> (Inr (), fs)
      | (Some (Inl e), _) \<Rightarrow> (Inl e, fs)
      | (Some (Inr chunk), it') \<Rightarrow>
          (case io_to_core (append_file ops path chunk fs) of
             (Inl e, fs') \<Rightarrow> (Inl e, fs')
           | (Inr _, fs') \<Rightarrow> write_chunks ops path it' fs'))"
  by auto
termination
  by (relation "measure (\<lambda>(_, _, it, _). chunks_left it)") (auto dest: chunks_left_next [OF sym])

declare write_chunks.simps [simp del]

definition fk_write_file :: "'fs fs_ops \<Rightarrow> bytes \<Rightarrow> inode \<Rightarrow> source option \<Rightarrow> 'fs \<Rightarrow> unit outcome \<times> 'fs" where
  "fk_write_file ops path inode store fs =
     (case io_to_core (create_file ops path fs) of
        (Inl e, fs) \<Rightarrow> (Inl e, fs)
      | (Inr _, fs) \<Rightarrow>
          (case write_chunks ops path (file_chunks_new inode store) fs of
             (Inl e, fs) \<Rightarrow> (Inl e, fs)
           | (Inr _, fs) \<Rightarrow>
               (case io_to_core (flush_file ops path fs) of
                  (Inl e, fs) \<Rightarrow> (Inl e, fs)
                | (Inr _, fs) \<Rightarrow> (Inr (), stamp ops path (in_mode inode) (in_mtime_ns inode) fs))))"

definition fk_on_regular_file :: "'fs fs_ops \<Rightarrow> bytes \<Rightarrow> inode \<Rightarrow> 'fs filesystem_sink
    \<Rightarrow> unit outcome \<times> 'fs filesystem_sink" where
  "fk_on_regular_file ops abs_path inode fk =
     (let path = path_push (fk_root fk) abs_path in
      case io_to_core (create_dir_all ops (path_parent path) (fk_fs fk)) of
        (Inl e, fs) \<Rightarrow> (Inl e, fk\<lparr>fk_fs := fs\<rparr>)
      | (Inr _, fs) \<Rightarrow>
          (case fk_seen_inodes fk (in_number inode) of
             Some first \<Rightarrow>
               (case hard_link ops first path fs of
                  (linked, fs') \<Rightarrow>
                    if linked then (Inr (), fk\<lparr>fk_fs := fs'\<rparr>)
                    else (case fk_write_file ops path inode (fk_slab_store fk) fs' of
                            (r, fs'') \<Rightarrow> (r, fk\<lparr>fk_fs := fs''\<rparr>)))
           | None \<Rightarrow>
               (case fk_write_file ops path inode (fk_slab_store fk) fs of
                  (r, fs') \<Rightarrow> (r, fk\<lparr>fk_fs := fs', fk_seen_inodes := (fk_seen_inodes fk)(in_number inode \<mapsto> path)\<rparr>))))"

definition fk_on_symlink :: "'fs fs_ops \<Rightarrow> bytes \<Rightarrow> inode \<Rightarrow> bytes \<Rightarrow> 'fs filesystem_sink
    \<Rightarrow> unit outcome \<times> 'fs filesystem_sink" where
  "fk_on_symlink ops abs_path inode target fk =
     (case io_to_core (make_symlink ops target (path_push (fk_root fk) abs_path) (fk_fs fk)) of
        (r, fs) \<Rightarrow> (r, fk\<lparr>fk_fs := fs\<rparr>))"

definition filesystem_sink :: "'fs fs_ops \<Rightarrow> 'fs filesystem_sink sink" where
  "filesystem_sink ops =
     \<lparr>on_directory_inode = fk_on_directory_inode ops, on_regular_file = fk_on_regular_file ops,
      on_symlink_inode = fk_on_symlink ops, on_other = ignore_other\<rparr>"

section \<open>The walk as a sequence of events\<close>

text \<open>What a walk reports does not depend on the sink: running the recording sink and then handing its events, in
  order, to another sink is walking with that sink.\<close>

datatype tree_event =
  EvDir bytes inode | EvFile bytes inode | EvLink bytes inode bytes | EvOther bytes inode

fun event_path :: "tree_event \<Rightarrow> bytes" where
  "event_path (EvDir p _) = p"
| "event_path (EvFile p _) = p"
| "event_path (EvLink p _ _) = p"
| "event_path (EvOther p _) = p"

definition recorder :: "tree_event list sink" where
  "recorder =
     \<lparr>on_directory_inode = (\<lambda>p i evs. (Inr (), evs @ [EvDir p i])),
      on_regular_file = (\<lambda>p i evs. (Inr (), evs @ [EvFile p i])),
      on_symlink_inode = (\<lambda>p i t evs. (Inr (), evs @ [EvLink p i t])),
      on_other = (\<lambda>p i evs. (Inr (), evs @ [EvOther p i]))\<rparr>"

fun deliver :: "'s sink \<Rightarrow> tree_event \<Rightarrow> 's \<Rightarrow> unit outcome \<times> 's" where
  "deliver sink (EvDir p i) s = on_directory_inode sink p i s"
| "deliver sink (EvFile p i) s = on_regular_file sink p i s"
| "deliver sink (EvLink p i t) s = on_symlink_inode sink p i t s"
| "deliver sink (EvOther p i) s = on_other sink p i s"

fun deliver_all :: "'s sink \<Rightarrow> tree_event list \<Rightarrow> 's \<Rightarrow> unit outcome \<times> 's" where
  "deliver_all sink [] s = (Inr (), s)"
| "deliver_all sink (ev # evs) s =
     (case deliver sink ev s of (Inl e, s') \<Rightarrow> (Inl e, s') | (Inr _, s') \<Rightarrow> deliver_all sink evs s')"

definition leaf_event :: "bytes \<Rightarrow> inode \<Rightarrow> tree_event" where
  "leaf_event p child =
     (case in_content_handle child of
        InlineData _ \<Rightarrow> EvFile p child
      | SliceMap _ \<Rightarrow> EvFile p child
      | Symlink target \<Rightarrow> EvLink p child target
      | _ \<Rightarrow> EvOther p child)"

lemma visit_leaf_deliver: "visit_leaf sink p child s = deliver sink (leaf_event p child) s"
  by (simp add: visit_leaf_def leaf_event_def split: content_handle.split)

lemma deliver_recorder [simp]: "deliver recorder ev evs = (Inr (), evs @ [ev])"
  by (cases ev) (simp_all add: recorder_def)

lemma recorder_directory [simp]: "on_directory_inode recorder p i evs = (Inr (), evs @ [EvDir p i])"
  by (simp add: recorder_def)

lemma deliver_all_append:
  "deliver_all sink (xs @ ys) s =
     (case deliver_all sink xs s of (Inl e, s') \<Rightarrow> (Inl e, s') | (Inr _, s') \<Rightarrow> deliver_all sink ys s')"
  by (induction xs arbitrary: s) (simp_all split: prod.split sum.split)

text \<open>An entry of a directory is a directory or a leaf.\<close>

definition is_dir_handle :: "inode \<Rightarrow> bool" where
  "is_dir_handle i \<longleftrightarrow> (\<exists>hash. in_content_handle i = Directory hash)"

lemma walk_dir_leaf: "\<not> is_dir_handle i \<Longrightarrow> walk_dir H sink blob (Suc fuel) i p s v = Some (Inr (), s, v)"
  by (auto simp: is_dir_handle_def split: content_handle.split)

lemma walk_entries_Cons:
  "walk_entries H sink blob fuel hash dir_path (entry # entries) s visited =
     (case validate_tree_name (de_name entry) of
        Inl reason \<Rightarrow> Some (Inl (Corrupt (TreeReason (WalkBadName (take 4 hash) (de_name entry) reason))), s, visited)
      | Inr _ \<Rightarrow>
          (case inode_by_number blob (de_inode_number entry) of
             None \<Rightarrow> Some (Inl (Corrupt (TreeReason (WalkInodeMissing (de_inode_number entry)))), s, visited)
           | Some child \<Rightarrow>
               (case (if is_dir_handle child
                      then walk_dir H sink blob fuel child (child_path_of dir_path (de_name entry)) s visited
                      else (case deliver sink (leaf_event (child_path_of dir_path (de_name entry)) child) s of
                              (r, s') \<Rightarrow> Some (r, s', visited))) of
                  None \<Rightarrow> None
                | Some (Inl e, s', visited') \<Rightarrow> Some (Inl e, s', visited')
                | Some (Inr _, s', visited') \<Rightarrow> walk_entries H sink blob fuel hash dir_path entries s' visited')))"
  by (auto simp: is_dir_handle_def visit_leaf_deliver split: content_handle.split sum.split option.split prod.split)

declare walk_entries.simps(2) [simp del]

text \<open>The induction principle of the walk: a property of directory walks and one of entry loops, alternating.\<close>

lemma walk_induct:
  assumes "\<And>dir p. P 0 dir p"
    and "\<And>fuel dir p. (\<And>hash es. Q fuel hash p es) \<Longrightarrow> P (Suc fuel) dir p"
    and "\<And>fuel hash p. Q fuel hash p []"
    and "\<And>fuel hash p e es. (\<And>dir q. P fuel dir q) \<Longrightarrow> Q fuel hash p es \<Longrightarrow> Q fuel hash p (e # es)"
  shows "P fuel dir p" and "Q fuel' hash q es"
proof -
  have both: "(\<forall>dir p. P fuel dir p) \<and> (\<forall>hash p es. Q fuel hash p es)" for fuel
  proof (induction fuel)
    case 0
    have "Q 0 hash p es" for hash p es by (induction es) (use assms(1,3,4) in auto)
    with assms(1) show ?case by blast
  next
    case (Suc fuel)
    then have P: "\<And>dir p. P (Suc fuel) dir p" using assms(2) by blast
    have "Q (Suc fuel) hash p es" for hash p es by (induction es) (use P assms(3,4) in auto)
    with P show ?case by blast
  qed
  from both show "P fuel dir p" and "Q fuel' hash q es" by blast+
qed

text \<open>Every walk extends the visited list by new inode numbers of the blob.\<close>

abbreviation numbers :: "metadata_blob \<Rightarrow> u64 set" where
  "numbers blob \<equiv> in_number ` set (mb_inodes blob)"

lemma inode_by_number_SomeD:
  "inode_by_number blob n = Some i \<Longrightarrow> i \<in> set (mb_inodes blob) \<and> in_number i = n"
  unfolding inode_by_number_def by (rule find_SomeD)

lemma walk_visited:
  "walk_dir H sink blob fuel dir p s v = Some (r, s', v') \<Longrightarrow> dir \<in> set (mb_inodes blob) \<Longrightarrow> distinct v \<Longrightarrow>
     distinct v' \<and> set v \<subseteq> set v' \<and> set v' \<subseteq> set v \<union> numbers blob"
  "walk_entries H sink blob fuel hash p es s v = Some (r, s', v') \<Longrightarrow> distinct v \<Longrightarrow>
     distinct v' \<and> set v \<subseteq> set v' \<and> set v' \<subseteq> set v \<union> numbers blob"
proof (induction fuel dir p and fuel hash p es arbitrary: s v r s' v' and s v r s' v' rule: walk_induct)
  case (2 fuel dir p)
  consider "v' = v" | "in_number dir \<notin> set v" "v' = v @ [in_number dir]"
    | hash es s1 where "in_number dir \<notin> set v"
      "walk_entries H sink blob fuel hash p es s1 (v @ [in_number dir]) = Some (r, s', v')"
    using 2(2) by (fastforce split: content_handle.splits if_splits prod.splits sum.splits option.splits)
  then show ?case
  proof cases
    case 3
    with 2(1) [OF 3(2)] 2(4) have "distinct v' \<and> set (v @ [in_number dir]) \<subseteq> set v'
      \<and> set v' \<subseteq> set (v @ [in_number dir]) \<union> numbers blob" by simp
    with 2(3) show ?thesis by auto
  qed (use 2 in auto)
next
  case (4 fuel hash p e es)
  consider "v' = v"
    | child q where "child \<in> set (mb_inodes blob)" "walk_dir H sink blob fuel child q s v = Some (r, s', v')"
    | child q r1 s1 v1 where "child \<in> set (mb_inodes blob)" "walk_dir H sink blob fuel child q s v = Some (r1, s1, v1)"
      "walk_entries H sink blob fuel hash p es s1 v1 = Some (r, s', v')"
    | s1 where "walk_entries H sink blob fuel hash p es s1 v = Some (r, s', v')"
    using 4(3) unfolding walk_entries_Cons
    by (fastforce split: if_splits prod.splits sum.splits option.splits dest: inode_by_number_SomeD)
  then show ?case
  proof cases
    case 2
    show ?thesis by (rule "4.IH"(1) [OF 2(2,1) 4(4)])
  next
    case 3
    from "4.IH"(1) [OF 3(2,1) 4(4)] have "distinct v1 \<and> set v \<subseteq> set v1 \<and> set v1 \<subseteq> set v \<union> numbers blob" .
    with "4.IH"(2) [OF 3(3)] show ?thesis by blast
  next
    case (4 s1)
    with "4.IH"(2) "4.prems"(2) show ?thesis by blast
  qed (use 4 in simp)
qed simp_all

text \<open>Fuel beyond the number of inodes not yet visited is enough.\<close>

lemma walk_total:
  "dir \<in> set (mb_inodes blob) \<Longrightarrow> distinct v \<Longrightarrow> card (numbers blob - set v) < fuel \<Longrightarrow>
     walk_dir H sink blob fuel dir p s v \<noteq> None"
  "distinct v \<Longrightarrow> card (numbers blob - set v) < fuel \<Longrightarrow> walk_entries H sink blob fuel hash p es s v \<noteq> None"
proof (induction fuel dir p and fuel hash p es arbitrary: s v and s v rule: walk_induct)
  case (2 fuel dir p)
  have "walk_entries H sink blob fuel hash p es s' (v @ [in_number dir]) \<noteq> None"
    if "in_number dir \<notin> set v" for hash es s'
  proof (rule 2(1))
    have "card (numbers blob - set (v @ [in_number dir])) < card (numbers blob - set v)"
      using 2(2) that by (intro psubset_card_mono) auto
    with 2(4) show "card (numbers blob - set (v @ [in_number dir])) < fuel" by simp
  qed (use 2(3) that in simp)
  then show ?case by (auto split: content_handle.split prod.split sum.split option.split)
next
  case (4 fuel hash p e es)
  have rest: "walk_entries H sink blob fuel hash p es s' v' \<noteq> None" if "distinct v'" "set v \<subseteq> set v'" for s' v'
  proof (rule "4.IH"(2) [OF that(1)])
    have "card (numbers blob - set v') \<le> card (numbers blob - set v)"
      using that(2) by (intro card_mono) auto
    with 4(4) show "card (numbers blob - set v') < fuel" by simp
  qed
  have "walk_entries H sink blob fuel hash p es s' v' \<noteq> None"
    if "child \<in> set (mb_inodes blob)" "walk_dir H sink blob fuel child q s v = Some (r, s', v')" for child q r s' v'
    using rest walk_visited(1) [OF that(2,1) 4(3)] by blast
  moreover have "walk_dir H sink blob fuel child q s v \<noteq> None" if "child \<in> set (mb_inodes blob)" for child q
    using that 4(3,4) by (rule "4.IH"(1))
  ultimately show ?case unfolding walk_entries_Cons using rest [OF 4(3) subset_refl]
    by (auto split: sum.split option.split prod.split dest!: inode_by_number_SomeD) (metis option.distinct(1))+
qed simp_all

text \<open>Walking with a sink is recording and delivering.\<close>

definition simulates :: "'s sink \<Rightarrow> unit outcome \<Rightarrow> tree_event list \<Rightarrow> u64 list
    \<Rightarrow> ('s \<Rightarrow> (unit outcome \<times> 's \<times> u64 list) option) \<Rightarrow> bool" where
  "simulates sink r new v' run \<longleftrightarrow>
     (\<forall>s. case deliver_all sink new s of
            (Inr _, s') \<Rightarrow> run s = Some (r, s', v')
          | (Inl e, s') \<Rightarrow> (\<exists>v''. run s = Some (Inl e, s', v'')))"

lemma simulates_Nil: "(\<And>s. run s = Some (r, s, v')) \<Longrightarrow> simulates sink r [] v' run"
  by (simp add: simulates_def)

lemma simulates_bind:
  assumes "simulates sink (Inr ()) xs v' run" and "simulates sink r ys v'' k'"
    and "\<And>s e s1 v1. run s = Some (Inl e, s1, v1) \<Longrightarrow> k s = Some (Inl e, s1, v1)"
    and "\<And>s s1. run s = Some (Inr (), s1, v') \<Longrightarrow> k s = k' s1"
  shows "simulates sink r (xs @ ys) v'' k"
  unfolding simulates_def
proof (intro allI)
  fix s
  obtain q s1 where q: "deliver_all sink xs s = (q, s1)" by fastforce
  show "case deliver_all sink (xs @ ys) s of (Inr _, s') \<Rightarrow> k s = Some (r, s', v'')
      | (Inl e, s') \<Rightarrow> \<exists>v. k s = Some (Inl e, s', v)"
  proof (cases q)
    case (Inl e)
    with assms(1) [unfolded simulates_def, rule_format, of s] q obtain v where "run s = Some (Inl e, s1, v)" by auto
    with assms(3) q Inl show ?thesis by (auto simp: deliver_all_append)
  next
    case (Inr u)
    with assms(1) [unfolded simulates_def, rule_format, of s] q have "run s = Some (Inr (), s1, v')" by simp
    with assms(4) have "k s = k' s1" by blast
    with assms(2) [unfolded simulates_def, rule_format, of s1] q Inr show ?thesis
      by (auto simp: deliver_all_append split: prod.splits sum.splits)
  qed
qed

lemma simulates_fail:
  assumes "simulates sink (Inl e) xs v' run" and "\<And>s e s1 v1. run s = Some (Inl e, s1, v1) \<Longrightarrow> k s = Some (Inl e, s1, v1)"
  shows "simulates sink (Inl e) xs v' k"
  unfolding simulates_def
proof (intro allI)
  fix s
  show "case deliver_all sink xs s of (Inr _, s') \<Rightarrow> k s = Some (Inl e, s', v')
      | (Inl e, s') \<Rightarrow> \<exists>v. k s = Some (Inl e, s', v)"
    using assms(1) [unfolded simulates_def, rule_format, of s] assms(2)
    by (auto split: prod.splits sum.splits)
qed

lemma simulates_deliver:
  "simulates sink (Inr ()) [ev] v (\<lambda>s. case deliver sink ev s of (r, s') \<Rightarrow> Some (r, s', v))"
  by (auto simp: simulates_def split: prod.split sum.split)

lemmas walk_dir_Suc = walk_dir.simps(2)

declare walk_dir.simps(2) [simp del]

lemma walk_sim:
  "walk_dir H recorder blob fuel dir p evs v = Some (r, evs', v') \<Longrightarrow>
     \<exists>new. evs' = evs @ new \<and> simulates sink r new v' (\<lambda>s. walk_dir H sink blob fuel dir p s v)"
  "walk_entries H recorder blob fuel hash p es evs v = Some (r, evs', v') \<Longrightarrow>
     \<exists>new. evs' = evs @ new \<and> simulates sink r new v' (\<lambda>s. walk_entries H sink blob fuel hash p es s v)"
proof (induction fuel dir p and fuel hash p es arbitrary: evs v r evs' v' and evs v r evs' v' rule: walk_induct)
  case (2 fuel dir p)
  show ?case
  proof (cases "is_dir_handle dir \<and> in_number dir \<notin> set v")
    case False
    then have skip: "walk_dir H sink blob (Suc fuel) dir p s v = Some (Inr (), s, v)" for s
      by (auto simp: is_dir_handle_def walk_dir_Suc split: content_handle.split)
    have "walk_dir H recorder blob (Suc fuel) dir p evs v = Some (Inr (), evs, v)"
      using False by (auto simp: is_dir_handle_def walk_dir_Suc split: content_handle.split)
    with 2(2) have "r = Inr ()" "evs' = evs" "v' = v" by simp_all
    then show ?thesis using skip by (intro exI [of _ "[]"] conjI simulates_Nil) simp_all
  next
    case True
    then obtain hash where h: "in_content_handle dir = Directory hash" "in_number dir \<notin> set v"
      by (auto simp: is_dir_handle_def)
    let ?v = "v @ [in_number dir]"
    have step: "simulates sink r ([EvDir p dir] @ ys) v' (\<lambda>s. walk_dir H sink blob (Suc fuel) dir p s v)"
      if "simulates sink r ys v' (\<lambda>s. case dir_node_by_hash H blob hash of
            None \<Rightarrow> Some (Inl (Corrupt (TreeReason (WalkNodeMissing (take 4 hash)))), s, ?v)
          | Some node \<Rightarrow> walk_entries H sink blob fuel hash p (dn_entries node) s ?v)" for ys
      by (rule simulates_bind [OF simulates_deliver [of sink "EvDir p dir" ?v] that])
        (auto simp: h walk_dir_Suc split: prod.splits)
    show ?thesis
    proof (cases "dir_node_by_hash H blob hash")
      case None
      with 2(2) h have "evs' = evs @ [EvDir p dir]" "r = Inl (Corrupt (TreeReason (WalkNodeMissing (take 4 hash))))" "v' = ?v"
        by (auto simp: walk_dir_Suc)
      then show ?thesis using step [of "[]"] None by (auto simp: simulates_Nil)
    next
      case (Some node)
      with 2(2) h have "walk_entries H recorder blob fuel hash p (dn_entries node) (evs @ [EvDir p dir]) ?v = Some (r, evs', v')"
        by (simp add: walk_dir_Suc)
      from 2(1) [OF this] obtain new where "evs' = (evs @ [EvDir p dir]) @ new"
        "simulates sink r new v' (\<lambda>s. walk_entries H sink blob fuel hash p (dn_entries node) s ?v)" by blast
      with step [of new] Some show ?thesis by (intro exI [of _ "[EvDir p dir] @ new"]) simp
    qed
  qed
next
  case 3
  then show ?case by (auto simp: simulates_Nil)
next
  case (4 fuel hash p e es)
  let ?q = "child_path_of p (de_name e)"
  show ?case
  proof (cases "(\<exists>u. validate_tree_name (de_name e) = Inr u) \<and> inode_by_number blob (de_inode_number e) \<noteq> None")
    case False
    then show ?thesis using 4(3)
      by (intro exI [of _ "[]"]) (auto simp: walk_entries_Cons intro!: simulates_Nil split: sum.splits option.splits)
  next
    case True
    then obtain u child where c: "validate_tree_name (de_name e) = Inr u"
      "inode_by_number blob (de_inode_number e) = Some child" by auto
    define run where "run s = (if is_dir_handle child then walk_dir H sink blob fuel child ?q s v
        else (case deliver sink (leaf_event ?q child) s of (r, s') \<Rightarrow> Some (r, s', v)))" for s
    have rec: "walk_entries H recorder blob fuel hash p (e # es) evs v =
        (case (if is_dir_handle child then walk_dir H recorder blob fuel child ?q evs v
               else Some (Inr (), evs @ [leaf_event ?q child], v)) of
           None \<Rightarrow> None
         | Some (Inl e, s', visited') \<Rightarrow> Some (Inl e, s', visited')
         | Some (Inr _, s', visited') \<Rightarrow> walk_entries H recorder blob fuel hash p es s' visited')"
      by (simp add: walk_entries_Cons c)
    have k: "walk_entries H sink blob fuel hash p (e # es) s v =
        (case run s of None \<Rightarrow> None
         | Some (Inl e, s', visited') \<Rightarrow> Some (Inl e, s', visited')
         | Some (Inr _, s', visited') \<Rightarrow> walk_entries H sink blob fuel hash p es s' visited')" for s
      by (simp add: walk_entries_Cons c run_def)
    obtain r1 evs1 v1 where r1: "(if is_dir_handle child then walk_dir H recorder blob fuel child ?q evs v
        else Some (Inr (), evs @ [leaf_event ?q child], v)) = Some (r1, evs1, v1)"
      using 4(3) rec by (cases "if is_dir_handle child then walk_dir H recorder blob fuel child ?q evs v
        else Some (Inr (), evs @ [leaf_event ?q child], v)") auto
    have "\<exists>new. evs1 = evs @ new \<and> simulates sink r1 new v1 run"
    proof (cases "is_dir_handle child")
      case True
      with r1 "4.IH"(1) [of child ?q evs v r1 evs1 v1] show ?thesis by (simp add: run_def [abs_def])
    next
      case False
      with r1 show ?thesis by (auto simp: run_def [abs_def] simulates_deliver)
    qed
    then obtain new1 where new1: "evs1 = evs @ new1" "simulates sink r1 new1 v1 run" by blast
    show ?thesis
    proof (cases r1)
      case (Inl err)
      with 4(3) rec r1 have "r = Inl err" "evs' = evs1" "v' = v1" by auto
      with new1 Inl show ?thesis by (intro exI [of _ new1]) (auto intro!: simulates_fail [of sink err new1 v1 run] simp: k)
    next
      case (Inr w)
      with 4(3) rec r1 have "walk_entries H recorder blob fuel hash p es evs1 v1 = Some (r, evs', v')" by auto
      from "4.IH"(2) [OF this] obtain new2 where new2: "evs' = evs1 @ new2"
        "simulates sink r new2 v' (\<lambda>s. walk_entries H sink blob fuel hash p es s v1)" by blast
      show ?thesis
        by (rule exI [of _ "new1 @ new2"], rule conjI, simp add: new1 new2,
            rule simulates_bind [OF _ new2(2), of new1 v1 run]) (use new1 Inr in \<open>auto simp: k\<close>)
    qed
  qed
qed simp_all

end
