(* ===== verification/Tree_Walk.thy ===== *)
theory Tree_Walk
  imports Live_Tree
begin

text \<open>
  What the walk of \<open>Live_Tree\<close> visits, against the directory graph of \<open>Path_Index\<close>: it returns for every sink, it succeeds
  exactly on trees whose reachable directories resolve, it reports every reachable directory once and every reachable
  leaf, and the paths it hands to a sink stay below the root. The drop collector and the extraction plan are read off
  the recorded events.
\<close>

section \<open>Events and the directory graph\<close>

fun event_inode :: "tree_event \<Rightarrow> inode" where
  "event_inode (EvDir _ i) = i"
| "event_inode (EvFile _ i) = i"
| "event_inode (EvLink _ i _) = i"
| "event_inode (EvOther _ i) = i"

fun is_dir_event :: "tree_event \<Rightarrow> bool" where
  "is_dir_event (EvDir _ _) = True"
| "is_dir_event _ = False"

definition dir_numbers :: "tree_event list \<Rightarrow> u64 list" where
  "dir_numbers evs = map (\<lambda>ev. in_number (event_inode ev)) (filter is_dir_event evs)"

definition leaf_inodes :: "tree_event list \<Rightarrow> inode set" where
  "leaf_inodes evs = event_inode ` set (filter (\<lambda>ev. \<not> is_dir_event ev) evs)"

lemma dir_numbers_append [simp]: "dir_numbers (xs @ ys) = dir_numbers xs @ dir_numbers ys"
  by (simp add: dir_numbers_def)

lemma leaf_inodes_append [simp]: "leaf_inodes (xs @ ys) = leaf_inodes xs \<union> leaf_inodes ys"
  by (auto simp: leaf_inodes_def)

lemma events_Cons [simp]:
  "dir_numbers (EvDir p i # evs) = in_number i # dir_numbers evs" "leaf_inodes (EvDir p i # evs) = leaf_inodes evs"
  "dir_numbers (leaf_event p i # evs) = dir_numbers evs" "leaf_inodes (leaf_event p i # evs) = insert i (leaf_inodes evs)"
  "dir_numbers [] = []" "leaf_inodes [] = {}"
  by (auto simp: dir_numbers_def leaf_inodes_def leaf_event_def split: content_handle.split)

text \<open>A directory resolves when its node is in the blob, and an entry when its name is legal and its inode is there.\<close>

definition node_present :: "(bytes \<Rightarrow> bytes) \<Rightarrow> metadata_blob \<Rightarrow> u64 \<Rightarrow> bool" where
  "node_present H blob m \<longleftrightarrow> (\<exists>i hash. inode_by_number blob m = Some i \<and> in_content_handle i = Directory hash
     \<and> dir_node_by_hash H blob hash \<noteq> None)"

definition entry_ok :: "metadata_blob \<Rightarrow> dir_entry \<Rightarrow> bool" where
  "entry_ok blob e \<longleftrightarrow> validate_tree_name (de_name e) = Inr () \<and> inode_by_number blob (de_inode_number e) \<noteq> None"

definition entry_done :: "metadata_blob \<Rightarrow> tree_event list \<Rightarrow> u64 list \<Rightarrow> dir_entry \<Rightarrow> bool" where
  "entry_done blob new v e \<longleftrightarrow> validate_tree_name (de_name e) = Inr () \<and>
     (\<exists>child. inode_by_number blob (de_inode_number e) = Some child \<and>
        (if is_dir_handle child then de_inode_number e \<in> set v else child \<in> leaf_inodes new))"

definition dir_done :: "(bytes \<Rightarrow> bytes) \<Rightarrow> metadata_blob \<Rightarrow> tree_event list \<Rightarrow> u64 list \<Rightarrow> u64 \<Rightarrow> bool" where
  "dir_done H blob new v m \<longleftrightarrow> node_present H blob m \<and> (\<forall>e \<in> set (dir_children H blob m). entry_done blob new v e)"

lemma entry_done_mono: "entry_done blob new v e \<Longrightarrow> entry_done blob (xs @ new @ ys) (v @ w) e"
  by (auto simp: entry_done_def)

lemma dir_done_mono: "dir_done H blob new v m \<Longrightarrow> dir_done H blob (xs @ new @ ys) (v @ w) m"
  by (auto simp: dir_done_def intro: entry_done_mono)

text \<open>The leaf is an entry of the directory.\<close>

definition leaf_of :: "(bytes \<Rightarrow> bytes) \<Rightarrow> metadata_blob \<Rightarrow> u64 \<Rightarrow> inode \<Rightarrow> bool" where
  "leaf_of H blob m i \<longleftrightarrow> \<not> is_dir_handle i \<and> (\<exists>e \<in> set (dir_children H blob m). inode_by_number blob (de_inode_number e) = Some i)"

lemma dir_children_node:
  "inode_by_number blob m = Some i \<Longrightarrow> in_content_handle i = Directory hash \<Longrightarrow> dir_node_by_hash H blob hash = Some node
    \<Longrightarrow> dir_children H blob m = dn_entries node"
  by (simp add: dir_children_def)

lemma child_edge: "e \<in> set (dir_children H blob m) \<Longrightarrow> (m, de_inode_number e) \<in> child_edges H blob"
  by (auto simp: child_edges_def)

section \<open>A successful walk\<close>

text \<open>The report of a walk started at one of the directories \<open>S\<close>, whose own leaves are \<open>L\<close>: the directories it entered
  are reachable from \<open>S\<close> and dealt with, and its leaves are \<open>L\<close> or entries of those directories.\<close>

definition report :: "(bytes \<Rightarrow> bytes) \<Rightarrow> metadata_blob \<Rightarrow> u64 set \<Rightarrow> inode set \<Rightarrow> tree_event list \<Rightarrow> u64 list \<Rightarrow> u64 list \<Rightarrow> bool" where
  "report H blob S L new v v' \<longleftrightarrow> v' = v @ dir_numbers new
     \<and> (\<forall>m \<in> set (dir_numbers new). dir_done H blob new v' m \<and> (\<exists>n \<in> S. (n, m) \<in> (child_edges H blob)\<^sup>*))
     \<and> (\<forall>i \<in> leaf_inodes new. i \<in> L \<or> (\<exists>m \<in> set (dir_numbers new). leaf_of H blob m i))"

definition entry_leaves :: "metadata_blob \<Rightarrow> dir_entry list \<Rightarrow> inode set" where
  "entry_leaves blob es = {i. \<not> is_dir_handle i \<and> (\<exists>e \<in> set es. inode_by_number blob (de_inode_number e) = Some i)}"

lemma report_Nil [simp]: "report H blob S L [] v v"
  by (simp add: report_def)

lemma report_append:
  assumes "report H blob S L xs v v1" "report H blob S' L' ys v1 v2"
  shows "report H blob (S \<union> S') (L \<union> L') (xs @ ys) v v2"
proof -
  have v: "v1 = v @ dir_numbers xs" "v2 = v1 @ dir_numbers ys" using assms by (simp_all add: report_def)
  have "dir_done H blob (xs @ ys) v2 m" if "dir_done H blob xs v1 m" for m
    using dir_done_mono [OF that, of "[]" ys "dir_numbers ys"] by (simp add: v)
  moreover have "dir_done H blob (xs @ ys) v2 m" if "dir_done H blob ys v2 m" for m
    using dir_done_mono [OF that, of xs "[]" "[]"] by simp
  ultimately show ?thesis using assms unfolding report_def by auto
qed

text \<open>Entering a directory whose entries have been reported.\<close>

lemma report_dir:
  assumes dir: "inode_by_number blob (in_number dir) = Some dir" "in_content_handle dir = Directory hash"
      "dir_node_by_hash H blob hash = Some node"
    and rep: "report H blob (de_inode_number ` set (dn_entries node)) (entry_leaves blob (dn_entries node)) new
      (v @ [in_number dir]) v'"
    and entries: "\<forall>e \<in> set (dn_entries node). entry_done blob new v' e"
  shows "report H blob {in_number dir} {} ([EvDir p dir] @ new) v v'"
proof -
  let ?new = "[EvDir p dir] @ new"
  have ch: "dir_children H blob (in_number dir) = dn_entries node" by (rule dir_children_node [OF dir])
  have up: "entry_done blob new v' e \<Longrightarrow> entry_done blob ?new v' e" "dir_done H blob new v' m \<Longrightarrow> dir_done H blob ?new v' m" for e m
    using entry_done_mono [of blob new v' e "[EvDir p dir]" "[]" "[]"] dir_done_mono [of H blob new v' m "[EvDir p dir]" "[]" "[]"]
    by simp_all
  have "dir_done H blob ?new v' (in_number dir)"
    unfolding dir_done_def ch using dir entries up(1) by (auto simp: node_present_def)
  moreover have "(in_number dir, m) \<in> (child_edges H blob)\<^sup>*" if "m \<in> set (dir_numbers new)" for m
  proof -
    from rep that obtain e where "e \<in> set (dn_entries node)" "(de_inode_number e, m) \<in> (child_edges H blob)\<^sup>*"
      unfolding report_def by blast
    with ch show ?thesis by (metis child_edge converse_rtrancl_into_rtrancl)
  qed
  moreover have "\<exists>m \<in> set (dir_numbers ?new). leaf_of H blob m i" if "i \<in> leaf_inodes new" for i
    using rep that unfolding report_def by (auto simp: leaf_of_def ch entry_leaves_def)
  ultimately show ?thesis using rep up(2) unfolding report_def by auto
qed

lemma walk_success:
  "walk_dir H recorder blob fuel dir p evs v = Some (Inr (), evs', v') \<Longrightarrow>
   inode_by_number blob (in_number dir) = Some dir \<Longrightarrow>
     \<exists>new. evs' = evs @ new \<and> report H blob {in_number dir} {} new v v' \<and> (is_dir_handle dir \<longrightarrow> in_number dir \<in> set v')"
  "walk_entries H recorder blob fuel hash p es evs v = Some (Inr (), evs', v') \<Longrightarrow>
     \<exists>new. evs' = evs @ new \<and> report H blob (de_inode_number ` set es) (entry_leaves blob es) new v v'
       \<and> (\<forall>e \<in> set es. entry_done blob new v' e)"
proof (induction fuel dir p and fuel hash p es arbitrary: evs v evs' v' and evs v evs' v' rule: walk_induct)
  case (2 fuel dir p)
  show ?case
  proof (cases "is_dir_handle dir \<and> in_number dir \<notin> set v")
    case False
    then have "walk_dir H recorder blob (Suc fuel) dir p evs v = Some (Inr (), evs, v)"
      by (auto simp: is_dir_handle_def walk_dir_Suc split: content_handle.split)
    with 2(2) False show ?thesis by (intro exI [of _ "[]"]) auto
  next
    case True
    then obtain hash where h: "in_content_handle dir = Directory hash" "in_number dir \<notin> set v"
      by (auto simp: is_dir_handle_def)
    from 2(2) h obtain node where node: "dir_node_by_hash H blob hash = Some node"
      and run: "walk_entries H recorder blob fuel hash p (dn_entries node) (evs @ [EvDir p dir]) (v @ [in_number dir])
        = Some (Inr (), evs', v')"
      by (auto simp: walk_dir_Suc split: option.splits)
    from 2(1) [OF run] obtain new where new: "evs' = (evs @ [EvDir p dir]) @ new"
      "report H blob (de_inode_number ` set (dn_entries node)) (entry_leaves blob (dn_entries node)) new (v @ [in_number dir]) v'"
      "\<forall>e \<in> set (dn_entries node). entry_done blob new v' e" by blast
    from new(2) have "in_number dir \<in> set v'" by (simp add: report_def)
    with report_dir [OF 2(3) h(1) node new(2,3), of p] new(1) show ?thesis
      by (intro exI [of _ "[EvDir p dir] @ new"]) simp
  qed
next
  case (4 fuel hash p e es)
  let ?q = "child_path_of p (de_name e)"
  from 4(3) obtain child where c: "validate_tree_name (de_name e) = Inr ()"
      "inode_by_number blob (de_inode_number e) = Some child"
    unfolding walk_entries_Cons by (auto split: sum.splits option.splits)
  then have n: "in_number child = de_inode_number e" by (auto dest: inode_by_number_SomeD)
  from 4(3) c obtain evs1 v1 where r1: "(if is_dir_handle child then walk_dir H recorder blob fuel child ?q evs v
        else Some (Inr (), evs @ [leaf_event ?q child], v)) = Some (Inr (), evs1, v1)"
      and r2: "walk_entries H recorder blob fuel hash p es evs1 v1 = Some (Inr (), evs', v')"
    unfolding walk_entries_Cons by (auto split: if_splits sum.splits option.splits)
  have "\<exists>new. evs1 = evs @ new \<and> report H blob {de_inode_number e} (entry_leaves blob [e]) new v v1 \<and> entry_done blob new v1 e"
  proof (cases "is_dir_handle child")
    case True
    with r1 have "walk_dir H recorder blob fuel child ?q evs v = Some (Inr (), evs1, v1)" by simp
    from "4.IH"(1) [OF this] c n True show ?thesis by (auto simp: entry_done_def report_def)
  next
    case False
    with r1 c show ?thesis
      by (intro exI [of _ "[leaf_event ?q child]"]) (auto simp: entry_done_def report_def entry_leaves_def)
  qed
  then obtain new1 where new1: "evs1 = evs @ new1"
      "report H blob {de_inode_number e} (entry_leaves blob [e]) new1 v v1" "entry_done blob new1 v1 e" by blast
  from "4.IH"(2) [OF r2] obtain new2 where new2: "evs' = evs1 @ new2"
      "report H blob (de_inode_number ` set es) (entry_leaves blob es) new2 v1 v'" "\<forall>e \<in> set es. entry_done blob new2 v' e" by blast
  have "entry_done blob (new1 @ new2) v' e"
    using entry_done_mono [OF new1(3), of "[]" new2 "dir_numbers new2"] new2(2) by (simp add: report_def)
  moreover have "entry_done blob (new1 @ new2) v' x" if "x \<in> set es" for x
    using entry_done_mono [of blob new2 v' x new1 "[]" "[]"] new2(3) that by simp
  moreover have "entry_leaves blob [e] \<union> entry_leaves blob es = entry_leaves blob (e # es)" by (auto simp: entry_leaves_def)
  ultimately show ?case
    using report_append [OF new1(2) new2(2)] new1(1) new2(1) by (intro exI [of _ "new1 @ new2"]) auto
qed auto

text \<open>A walk reports an error only where the tree does not resolve.\<close>

lemma walk_error:
  "walk_dir H recorder blob fuel dir p evs v = Some (Inl err, evs', v') \<Longrightarrow>
   inode_by_number blob (in_number dir) = Some dir \<Longrightarrow>
     \<exists>m. (in_number dir, m) \<in> (child_edges H blob)\<^sup>*
       \<and> ((\<exists>i. inode_by_number blob m = Some i \<and> is_dir_handle i \<and> \<not> node_present H blob m)
          \<or> (\<exists>e \<in> set (dir_children H blob m). \<not> entry_ok blob e))"
  "walk_entries H recorder blob fuel hash p es evs v = Some (Inl err, evs', v') \<Longrightarrow>
     (\<exists>e \<in> set es. \<not> entry_ok blob e) \<or>
     (\<exists>e \<in> set es. \<exists>m. (de_inode_number e, m) \<in> (child_edges H blob)\<^sup>*
       \<and> ((\<exists>i. inode_by_number blob m = Some i \<and> is_dir_handle i \<and> \<not> node_present H blob m)
          \<or> (\<exists>e \<in> set (dir_children H blob m). \<not> entry_ok blob e)))"
proof (induction fuel dir p and fuel hash p es arbitrary: evs v evs' v' and evs v evs' v' rule: walk_induct)
  case (2 fuel dir p)
  from 2(2) obtain hash where h: "in_content_handle dir = Directory hash" "in_number dir \<notin> set v"
    by (auto simp: walk_dir_Suc split: content_handle.splits if_splits)
  show ?case
  proof (cases "dir_node_by_hash H blob hash")
    case None
    with h 2(3) show ?thesis by (intro exI [of _ "in_number dir"]) (auto simp: node_present_def is_dir_handle_def)
  next
    case (Some node)
    have ch: "dir_children H blob (in_number dir) = dn_entries node" by (rule dir_children_node [OF 2(3) h(1) Some])
    from 2(2) h Some have "walk_entries H recorder blob fuel hash p (dn_entries node) (evs @ [EvDir p dir]) (v @ [in_number dir])
      = Some (Inl err, evs', v')" by (simp add: walk_dir_Suc)
    from 2(1) [OF this] show ?thesis
      unfolding ch [symmetric] by (metis child_edge converse_rtrancl_into_rtrancl rtrancl.rtrancl_refl)
  qed
next
  case (4 fuel hash p e es)
  show ?case
  proof (cases "entry_ok blob e")
    case True
    then obtain child where c: "validate_tree_name (de_name e) = Inr ()" "inode_by_number blob (de_inode_number e) = Some child"
      by (auto simp: entry_ok_def)
    then have n: "in_number child = de_inode_number e" by (auto dest: inode_by_number_SomeD)
    consider q where "walk_dir H recorder blob fuel child q evs v = Some (Inl err, evs', v')"
      | evs1 v1 where "walk_entries H recorder blob fuel hash p es evs1 v1 = Some (Inl err, evs', v')"
      using 4(3) c unfolding walk_entries_Cons by (auto split: if_splits sum.splits option.splits)
    then show ?thesis
    proof cases
      case 1
      from "4.IH"(1) [OF 1] c n show ?thesis by auto
    next
      case 2
      from "4.IH"(2) [OF 2] show ?thesis by auto
    qed
  qed simp
qed simp_all

section \<open>The reachable tree\<close>

definition live_dirs :: "(bytes \<Rightarrow> bytes) \<Rightarrow> metadata_blob \<Rightarrow> u64 \<Rightarrow> u64 set" where
  "live_dirs H blob root =
     {m. (root, m) \<in> (child_edges H blob)\<^sup>* \<and> (\<exists>i. inode_by_number blob m = Some i \<and> is_dir_handle i)}"

definition live_leaves :: "(bytes \<Rightarrow> bytes) \<Rightarrow> metadata_blob \<Rightarrow> u64 \<Rightarrow> inode set" where
  "live_leaves H blob root = {i. \<exists>m. (root, m) \<in> (child_edges H blob)\<^sup>* \<and> leaf_of H blob m i}"

definition resolves :: "(bytes \<Rightarrow> bytes) \<Rightarrow> metadata_blob \<Rightarrow> u64 \<Rightarrow> bool" where
  "resolves H blob root \<longleftrightarrow>
     (\<forall>m \<in> live_dirs H blob root. node_present H blob m \<and> (\<forall>e \<in> set (dir_children H blob m). entry_ok blob e))"

lemma dir_children_is_dir:
  "e \<in> set (dir_children H blob m) \<Longrightarrow> \<exists>i. inode_by_number blob m = Some i \<and> is_dir_handle i"
  by (cases "inode_by_number blob m"; cases "in_content_handle (the (inode_by_number blob m))")
    (simp_all add: dir_children_def is_dir_handle_def)

lemma resolvesD:
  "resolves H blob root \<Longrightarrow> (root, m) \<in> (child_edges H blob)\<^sup>* \<Longrightarrow> e \<in> set (dir_children H blob m) \<Longrightarrow> entry_ok blob e"
  using dir_children_is_dir [of e H blob m] by (auto simp: resolves_def live_dirs_def)

text \<open>A report from the root with the root entered covers everything reachable.\<close>

lemma report_covers:
  assumes rep: "report H blob {root} {} new [] v'" and root: "root \<in> set v'"
  shows "set (dir_numbers new) = live_dirs H blob root \<and> leaf_inodes new = live_leaves H blob root \<and> resolves H blob root"
proof -
  have v: "v' = dir_numbers new" using rep by (simp add: report_def)
  have dones: "dir_done H blob new v' m" and reach: "(root, m) \<in> (child_edges H blob)\<^sup>*" if "m \<in> set v'" for m
    using rep that unfolding report_def v by auto
  have entered: "m \<in> set v'"
    if "(root, m) \<in> (child_edges H blob)\<^sup>*" "inode_by_number blob m = Some i" "is_dir_handle i" for m i
    using that
  proof (induction arbitrary: i rule: rtrancl_induct)
    case (step m' m)
    from step(2) obtain e where e: "e \<in> set (dir_children H blob m')" "m = de_inode_number e"
      by (auto simp: child_edges_def)
    with step(3) dir_children_is_dir [OF e(1)] have "m' \<in> set v'" by blast
    from dones [OF this] e step(4,5) show ?case by (auto simp: dir_done_def entry_done_def)
  qed (rule root)
  have dirs: "set v' = live_dirs H blob root"
    using entered reach dones
    by (fastforce simp: live_dirs_def dir_done_def node_present_def is_dir_handle_def)
  moreover have "resolves H blob root"
    unfolding resolves_def dirs [symmetric] using dones by (auto simp: dir_done_def entry_done_def entry_ok_def)
  moreover have "leaf_inodes new = live_leaves H blob root"
  proof (intro equalityI subsetI)
    show "i \<in> live_leaves H blob root" if "i \<in> leaf_inodes new" for i
      using rep that reach unfolding report_def live_leaves_def v by blast
    show "i \<in> leaf_inodes new" if "i \<in> live_leaves H blob root" for i
    proof -
      from that obtain m e where m: "(root, m) \<in> (child_edges H blob)\<^sup>*" "\<not> is_dir_handle i"
        "e \<in> set (dir_children H blob m)" "inode_by_number blob (de_inode_number e) = Some i"
        by (auto simp: live_leaves_def leaf_of_def)
      with dir_children_is_dir [OF m(3)] entered have "m \<in> set v'" by blast
      from dones [OF this] m show ?thesis by (auto simp: dir_done_def entry_done_def)
    qed
  qed
  ultimately show ?thesis by (simp add: v)
qed

lemma card_numbers: "card (numbers blob - set []) \<le> length (mb_inodes blob)"
  using card_image_le [of "set (mb_inodes blob)" in_number] card_length [of "mb_inodes blob"] by simp

text \<open>Everything about a walk from a directory, for a sink: the events, what they cover, and their delivery.\<close>

lemma walk_live_tree_events:
  assumes root: "inode_by_number blob root = Some ri" "is_dir_handle ri" and fuel: "length (mb_inodes blob) < fuel"
  obtains r evs where
    "\<And>s. walk_live_tree H fuel blob root sink s
       = Some (case deliver_all sink evs s of (Inl e, s') \<Rightarrow> (Inl e, s') | (Inr _, s') \<Rightarrow> (r, s'))"
    "walk_live_tree H fuel blob root recorder [] = Some (r, evs)"
    "r = Inr () \<longleftrightarrow> resolves H blob root"
    "r = Inr () \<Longrightarrow> distinct (dir_numbers evs) \<and> set (dir_numbers evs) = live_dirs H blob root
       \<and> leaf_inodes evs = live_leaves H blob root"
proof -
  from root(1) have ri: "ri \<in> set (mb_inodes blob)" "in_number ri = root" by (auto dest: inode_by_number_SomeD)
  have "card (numbers blob - set []) < fuel" using card_numbers [of blob] fuel by simp
  from walk_total(1) [OF ri(1) _ this, of H recorder "[]" "[]"] obtain r evs v'
    where run: "walk_dir H recorder blob fuel ri [] [] [] = Some (r, evs, v')" by auto
  from walk_sim(1) [OF run, of sink] have sim: "simulates sink r evs v' (\<lambda>s. walk_dir H sink blob fuel ri [] s [])" by auto
  show thesis
  proof (rule that [of r evs])
    show "walk_live_tree H fuel blob root sink s
       = Some (case deliver_all sink evs s of (Inl e, s') \<Rightarrow> (Inl e, s') | (Inr _, s') \<Rightarrow> (r, s'))" for s
      using sim [unfolded simulates_def, rule_format, of s] root(1)
      by (auto simp: walk_live_tree_def split: prod.splits sum.splits)
    show "walk_live_tree H fuel blob root recorder [] = Some (r, evs)"
      using run root(1) by (simp add: walk_live_tree_def)
    have ok: "distinct (dir_numbers evs) \<and> set (dir_numbers evs) = live_dirs H blob root
        \<and> leaf_inodes evs = live_leaves H blob root \<and> resolves H blob root" if "r = Inr ()"
    proof -
      from walk_success(1) [OF run [unfolded that]] root ri have "report H blob {root} {} evs [] v'" "root \<in> set v'" by auto
      with report_covers [OF this] walk_visited(1) [OF run ri(1)] show ?thesis by (simp add: report_def)
    qed
    show "r = Inr () \<longleftrightarrow> resolves H blob root"
    proof
      assume res: "resolves H blob root"
      show "r = Inr ()"
      proof (cases r)
        case (Inl err)
        from walk_error(1) [OF run [unfolded Inl]] root ri obtain m where "(root, m) \<in> (child_edges H blob)\<^sup>*"
          "(\<exists>i. inode_by_number blob m = Some i \<and> is_dir_handle i \<and> \<not> node_present H blob m)
            \<or> (\<exists>e \<in> set (dir_children H blob m). \<not> entry_ok blob e)" by auto
        with res resolvesD [OF res] show ?thesis by (auto simp: resolves_def live_dirs_def)
      qed simp
    qed (use ok in blast)
    show "r = Inr () \<Longrightarrow> distinct (dir_numbers evs) \<and> set (dir_numbers evs) = live_dirs H blob root
       \<and> leaf_inodes evs = live_leaves H blob root" using ok by blast
  qed
qed

section \<open>Paths\<close>

fun join_names :: "bytes list \<Rightarrow> bytes" where
  "join_names [] = []"
| "join_names [n] = n"
| "join_names (n # ns) = n @ slash @ join_names ns"

definition safe_name :: "bytes \<Rightarrow> bool" where
  "safe_name n \<longleftrightarrow> n \<noteq> [] \<and> n \<noteq> [46] \<and> n \<noteq> [46, 46] \<and> 47 \<notin> set n \<and> 0 \<notin> set n"

lemma validate_tree_name_safe: "validate_tree_name n = Inr () \<Longrightarrow> safe_name n"
  by (auto simp: validate_tree_name_def safe_name_def split: if_splits)

lemma join_names_snoc: "ns \<noteq> [] \<Longrightarrow> join_names (ns @ [n]) = join_names ns @ slash @ n"
  by (induction ns rule: join_names.induct) auto

lemma join_names_eq_Nil: "\<forall>n \<in> set ns. safe_name n \<Longrightarrow> join_names ns = [] \<longleftrightarrow> ns = []"
  by (induction ns rule: join_names.induct) (auto simp: safe_name_def slash_def)

lemma hd_join_names: "\<forall>n \<in> set ns. safe_name n \<Longrightarrow> ns \<noteq> [] \<Longrightarrow> hd (join_names ns) \<noteq> 47"
  by (induction ns rule: join_names.induct) (auto simp: safe_name_def hd_append dest: hd_in_set)

lemma last_join_names: "\<forall>n \<in> set ns. safe_name n \<Longrightarrow> ns \<noteq> [] \<Longrightarrow> last (join_names ns) \<noteq> 47"
proof (induction ns rule: join_names.induct)
  case (3 n m ns)
  then have "join_names (m # ns) \<noteq> []" by (subst join_names_eq_Nil) auto
  with 3 show ?case by (simp add: slash_def)
qed (auto simp: safe_name_def dest: last_in_set)

definition safe_path :: "bytes \<Rightarrow> bool" where
  "safe_path p \<longleftrightarrow> (\<exists>ns. (\<forall>n \<in> set ns. safe_name n) \<and> p = join_names ns)"

lemma safe_path_Nil: "safe_path []"
  unfolding safe_path_def by (rule exI [of _ "[]"]) simp

lemma safe_path_child:
  assumes "safe_path p" "validate_tree_name n = Inr ()"
  shows "safe_path (child_path_of p n)"
proof -
  from assms(1) obtain ns where ns: "\<forall>n \<in> set ns. safe_name n" "p = join_names ns" unfolding safe_path_def by blast
  have n: "safe_name n" using assms(2) by (rule validate_tree_name_safe)
  then have "n \<noteq> [] \<and> hd n \<noteq> 47" by (auto simp: safe_name_def dest: hd_in_set)
  then have "child_path_of p n = join_names (ns @ [n])"
    using join_names_eq_Nil [OF ns(1)] last_join_names [OF ns(1)] ns(2)
    by (cases "ns = []") (simp_all add: child_path_of_def path_push_def join_names_snoc)
  with ns(1) n show ?thesis unfolding safe_path_def by (intro exI [of _ "ns @ [n]"]) auto
qed

text \<open>Events that a walk can emit: a leaf's event says what its handle is.\<close>

definition event_ok :: "tree_event \<Rightarrow> bool" where
  "event_ok ev \<longleftrightarrow>
     (if is_dir_event ev then is_dir_handle (event_inode ev)
      else \<not> is_dir_handle (event_inode ev) \<and> leaf_event (event_path ev) (event_inode ev) = ev)"

lemma leaf_event_sel [simp]:
  "event_path (leaf_event p i) = p" "event_inode (leaf_event p i) = i" "\<not> is_dir_event (leaf_event p i)"
  by (simp_all add: leaf_event_def split: content_handle.split)

lemma event_ok_leaf: "\<not> is_dir_handle i \<Longrightarrow> event_ok (leaf_event p i)"
  by (simp add: event_ok_def)

definition event_good :: "tree_event \<Rightarrow> bool" where
  "event_good ev \<longleftrightarrow> event_ok ev \<and> safe_path (event_path ev)"

lemma event_good_leaf: "\<not> is_dir_handle i \<Longrightarrow> safe_path p \<Longrightarrow> event_good (leaf_event p i)"
  by (simp add: event_good_def event_ok_leaf)

lemma walk_events_good:
  "walk_dir H recorder blob fuel dir p evs v = Some (r, evs', v') \<Longrightarrow> safe_path p \<Longrightarrow>
     \<forall>ev \<in> set evs. event_good ev \<Longrightarrow> \<forall>ev \<in> set evs'. event_good ev"
  "walk_entries H recorder blob fuel hash p es evs v = Some (r, evs', v') \<Longrightarrow> safe_path p \<Longrightarrow>
     \<forall>ev \<in> set evs. event_good ev \<Longrightarrow> \<forall>ev \<in> set evs'. event_good ev"
proof (induction fuel dir p and fuel hash p es arbitrary: evs v r evs' v' and evs v r evs' v' rule: walk_induct)
  case (2 fuel dir p)
  have dir: "event_good (EvDir p dir)" if "is_dir_handle dir" using that 2(3) by (simp add: event_good_def event_ok_def)
  consider "evs' = evs" | "is_dir_handle dir" "evs' = evs @ [EvDir p dir]"
    | hash es v1 where "is_dir_handle dir" "walk_entries H recorder blob fuel hash p es (evs @ [EvDir p dir]) v1 = Some (r, evs', v')"
    using 2(2) by (auto simp: walk_dir_Suc is_dir_handle_def split: content_handle.splits if_splits option.splits)
  then show ?case
  proof cases
    case 3
    from 2(1) [OF 3(2) 2(3)] 2(4) dir [OF 3(1)] show ?thesis by simp
  qed (use 2(4) dir in auto)
next
  case (4 fuel hash p e es)
  let ?q = "child_path_of p (de_name e)"
  consider "evs' = evs"
    | child where "safe_path ?q" "walk_dir H recorder blob fuel child ?q evs v = Some (r, evs', v')"
    | child r1 evs1 v1 where "safe_path ?q" "walk_dir H recorder blob fuel child ?q evs v = Some (r1, evs1, v1)"
      "walk_entries H recorder blob fuel hash p es evs1 v1 = Some (r, evs', v')"
    | child where "\<not> is_dir_handle child" "safe_path ?q"
      "walk_entries H recorder blob fuel hash p es (evs @ [leaf_event ?q child]) v = Some (r, evs', v')"
    using 4(3) safe_path_child [OF 4(4)] unfolding walk_entries_Cons
    by (auto split: if_splits sum.splits option.splits)
  then show ?case
  proof cases
    case 1
    with 4(5) show ?thesis by simp
  next
    case 2
    show ?thesis by (rule "4.IH"(1) [OF 2(2,1) 4(5)])
  next
    case 3
    show ?thesis by (rule "4.IH"(2) [OF 3(3) 4(4) "4.IH"(1) [OF 3(2,1) 4(5)]])
  next
    case (4 child)
    then show ?thesis using "4.IH"(2) [OF 4(3)] "4.prems"(2,3) event_good_leaf by simp
  qed
qed simp_all

text \<open>Below the root of an extraction, a safe path stays there.\<close>

lemma safe_path_push:
  assumes "safe_path p"
  shows "take (length root) (path_push root p) = root"
proof -
  from assms obtain ns where ns: "\<forall>n \<in> set ns. safe_name n" "p = join_names ns" unfolding safe_path_def by blast
  from hd_join_names [OF ns(1)] ns(2) have "p \<noteq> [] \<Longrightarrow> hd p \<noteq> 47" by fastforce
  then show ?thesis by (auto simp: path_push_def)
qed

section \<open>Sinks over the events\<close>

definition drop_ids_of :: "inode \<Rightarrow> bytes set" where
  "drop_ids_of i = (case in_content_handle i of SliceMap slices \<Rightarrow> sl_drop_id ` set slices | _ \<Rightarrow> {})"

lemma fold_insert_image: "fold (\<lambda>x. insert (f x)) xs S = S \<union> f ` set xs"
  by (induction xs arbitrary: S) auto

lemma collect_drops_eq: "collect_drops i S = S \<union> drop_ids_of i"
  by (auto simp: collect_drops_def drop_ids_of_def fold_insert_image split: content_handle.split)

lemma deliver_collector:
  assumes "event_ok ev"
  shows "deliver drop_id_collector ev S = (Inr (), S \<union> (if is_dir_event ev then {} else drop_ids_of (event_inode ev)))"
proof (cases "is_dir_event ev")
  case True
  then show ?thesis by (cases ev) (simp_all add: drop_id_collector_def no_op_def)
next
  case False
  have "deliver drop_id_collector (leaf_event p i) S = (Inr (), S \<union> drop_ids_of i)" for p i
    by (simp add: leaf_event_def drop_id_collector_def no_op_def ignore_other_def collect_drops_eq drop_ids_of_def
        split: content_handle.split)
  from this [of "event_path ev" "event_inode ev"] assms False show ?thesis by (simp add: event_ok_def)
qed

lemma deliver_all_collector:
  "\<forall>ev \<in> set evs. event_ok ev \<Longrightarrow>
     deliver_all drop_id_collector evs S = (Inr (), S \<union> (\<Union>i \<in> leaf_inodes evs. drop_ids_of i))"
proof (induction evs arbitrary: S)
  case (Cons ev evs)
  then show ?case by (cases "is_dir_event ev") (auto simp: deliver_collector leaf_inodes_def)
qed simp

lemma recorded_events_good:
  "walk_live_tree H fuel blob root recorder [] = Some (r, evs) \<Longrightarrow> \<forall>ev \<in> set evs. event_good ev"
  using walk_events_good(1) [where evs = "[]" and p = "[]", OF _ safe_path_Nil]
  by (fastforce simp: walk_live_tree_def split: option.splits)

section \<open>The walker's properties\<close>

text \<open>C17. The walk from a root directory returns for every sink and every blob, cyclic or not, given fuel beyond the number of
  inodes; it hands the sink a fixed sequence of events, stopping at the sink's first error. The sequence is complete exactly
  when every reachable directory resolves, and then it names every reachable directory once, before its content, and the
  reachable leaves.\<close>

theorem walk_visits_reachable:
  assumes "inode_by_number blob root = Some ri" and "is_dir_handle ri" and "length (mb_inodes blob) < fuel"
  shows "\<exists>r evs. (\<forall>s. walk_live_tree H fuel blob root sink s
        = Some (case deliver_all sink evs s of (Inl e, s') \<Rightarrow> (Inl e, s') | (Inr _, s') \<Rightarrow> (r, s')))
    \<and> (r = Inr () \<longleftrightarrow> resolves H blob root)
    \<and> (r = Inr () \<longrightarrow> distinct (dir_numbers evs) \<and> set (dir_numbers evs) = live_dirs H blob root
         \<and> leaf_inodes evs = live_leaves H blob root)"
proof -
  obtain r evs where "\<And>s. walk_live_tree H fuel blob root sink s
       = Some (case deliver_all sink evs s of (Inl e, s') \<Rightarrow> (Inl e, s') | (Inr _, s') \<Rightarrow> (r, s'))"
    "r = Inr () \<longleftrightarrow> resolves H blob root"
    "r = Inr () \<Longrightarrow> distinct (dir_numbers evs) \<and> set (dir_numbers evs) = live_dirs H blob root
       \<and> leaf_inodes evs = live_leaves H blob root"
    by (rule walk_live_tree_events [OF assms, where H = H and sink = sink]) blast
  then show ?thesis by blast
qed

theorem walk_visits_reachable_witness:
  "\<exists>r evs. (\<forall>s. walk_live_tree toy_hash 3 cyclic_blob 1 drop_id_collector s
        = Some (case deliver_all drop_id_collector evs s of (Inl e, s') \<Rightarrow> (Inl e, s') | (Inr _, s') \<Rightarrow> (r, s')))
    \<and> (r = Inr () \<longleftrightarrow> resolves toy_hash cyclic_blob 1)
    \<and> (r = Inr () \<longrightarrow> distinct (dir_numbers evs) \<and> set (dir_numbers evs) = live_dirs toy_hash cyclic_blob 1
         \<and> leaf_inodes evs = live_leaves toy_hash cyclic_blob 1)"
  by (rule walk_visits_reachable [of _ _ "dir_inode 1"])
    (simp_all add: cyclic_blob_def inode_by_number_def dir_inode_def one_dir_inode_def is_dir_handle_def)

text \<open>C18. Every path a walk hands to a sink, on any blob and also before an error, is empty or slash-separated names none of
  which is empty, a dot, two dots, or contains a slash or a NUL; joined to an extraction root it has the root as its
  prefix.\<close>

theorem walk_paths_safe:
  assumes "inode_by_number blob root = Some ri" and "is_dir_handle ri" and "length (mb_inodes blob) < fuel"
  shows "\<exists>r evs. (\<forall>s. walk_live_tree H fuel blob root sink s
        = Some (case deliver_all sink evs s of (Inl e, s') \<Rightarrow> (Inl e, s') | (Inr _, s') \<Rightarrow> (r, s')))
    \<and> (\<forall>ev \<in> set evs. safe_path (event_path ev)
         \<and> (\<forall>target. take (length target) (path_push target (event_path ev)) = target))"
proof -
  obtain r evs where "\<And>s. walk_live_tree H fuel blob root sink s
       = Some (case deliver_all sink evs s of (Inl e, s') \<Rightarrow> (Inl e, s') | (Inr _, s') \<Rightarrow> (r, s'))"
    and rec: "walk_live_tree H fuel blob root recorder [] = Some (r, evs)"
    by (rule walk_live_tree_events [OF assms, where H = H and sink = sink]) blast
  moreover have "\<forall>ev \<in> set evs. safe_path (event_path ev)"
    using recorded_events_good [OF rec] by (simp add: event_good_def)
  ultimately show ?thesis using safe_path_push by blast
qed

theorem walk_paths_safe_witness:
  "\<exists>r evs. (\<forall>s. walk_live_tree toy_hash 3 tree_blob 1 drop_id_collector s
        = Some (case deliver_all drop_id_collector evs s of (Inl e, s') \<Rightarrow> (Inl e, s') | (Inr _, s') \<Rightarrow> (r, s')))
    \<and> (\<forall>ev \<in> set evs. safe_path (event_path ev)
         \<and> (\<forall>target. take (length target) (path_push target (event_path ev)) = target))"
  by (rule walk_paths_safe [of _ _ "dir_inode 1"])
    (simp_all add: tree_blob_def inode_by_number_def dir_inode_def one_dir_inode_def is_dir_handle_def)

text \<open>C19. The collector of referenced drops, the liveness oracle of compaction and turnover: on a tree that resolves it returns
  the drops of exactly the reachable files, and on any other tree it returns an error.\<close>

theorem drop_collector_exact:
  assumes "inode_by_number blob root = Some ri" and "is_dir_handle ri" and "length (mb_inodes blob) < fuel"
  shows "\<exists>r ids. walk_live_tree H fuel blob root drop_id_collector {} = Some (r, ids)
    \<and> (r = Inr () \<longleftrightarrow> resolves H blob root)
    \<and> (r = Inr () \<longrightarrow> ids = (\<Union>i \<in> live_leaves H blob root. drop_ids_of i))"
proof -
  obtain r evs where ev: "\<And>s. walk_live_tree H fuel blob root drop_id_collector s
       = Some (case deliver_all drop_id_collector evs s of (Inl e, s') \<Rightarrow> (Inl e, s') | (Inr _, s') \<Rightarrow> (r, s'))"
    "walk_live_tree H fuel blob root recorder [] = Some (r, evs)" "r = Inr () \<longleftrightarrow> resolves H blob root"
    "r = Inr () \<Longrightarrow> leaf_inodes evs = live_leaves H blob root"
    by (rule walk_live_tree_events [OF assms, where H = H and sink = drop_id_collector]) blast
  from recorded_events_good [OF ev(2)] have "\<forall>ev \<in> set evs. event_ok ev" by (simp add: event_good_def)
  from ev(1) [of "{}", unfolded deliver_all_collector [OF this]]
  have "walk_live_tree H fuel blob root drop_id_collector {} = Some (r, \<Union>i \<in> leaf_inodes evs. drop_ids_of i)" by simp
  with ev(3,4) show ?thesis by blast
qed

theorem drop_collector_exact_witness:
  "\<exists>r ids. walk_live_tree toy_hash 3 tree_blob 1 drop_id_collector {} = Some (r, ids)
    \<and> (r = Inr () \<longleftrightarrow> resolves toy_hash tree_blob 1)
    \<and> (r = Inr () \<longrightarrow> ids = (\<Union>i \<in> live_leaves toy_hash tree_blob 1. drop_ids_of i))"
  by (rule drop_collector_exact [of _ _ "dir_inode 1"])
    (simp_all add: tree_blob_def inode_by_number_def dir_inode_def one_dir_inode_def is_dir_handle_def)

end
