(* ===== verification/Tree_Extract.thy ===== *)
theory Tree_Extract
  imports Tree_Walk
begin

text \<open>
  What the extracting sinks of \<open>limnifs-core/src/live_tree.rs\<close> leave behind: the streamed write of a file is its plaintext,
  the batched decode is the sequential one, and the plan of the parallel extractor has one task per file.
\<close>

section \<open>Plaintext\<close>

lemma par_collect_Inr: "par_collect pick rs = Inr ps \<longleftrightarrow> rs = map Inr ps"
proof
  assume "par_collect pick rs = Inr ps"
  then show "rs = map Inr ps"
    by (auto simp: par_collect_def filter_empty_conv isl_def split: if_splits intro!: nth_equalityI)
qed (simp add: par_collect_def comp_def)

lemma par_collect_error: "par_collect pick rs = Inl e \<Longrightarrow> \<exists>r \<in> set rs. isl r"
  by (auto simp: par_collect_def filter_empty_conv split: if_splits)

lemma plaintext_slices_append:
  "plaintext_slices store (xs @ ys) out =
     (case plaintext_slices store xs out of Inl e \<Rightarrow> Inl e | Inr out' \<Rightarrow> plaintext_slices store ys out')"
  by (induction xs arbitrary: out) (auto split: sum.split)

lemma plaintext_slices_parts:
  "map (decode_slice store) xs = map Inr ps \<Longrightarrow> plaintext_slices store xs out = Inr (out @ concat ps)"
  by (induction xs arbitrary: ps out) auto

lemma plaintext_slices_error:
  "\<exists>r \<in> set (map (decode_slice store) xs). isl r \<Longrightarrow> \<exists>e. plaintext_slices store xs out = Inl e"
  by (induction xs arbitrary: out) (auto simp: isl_def split: sum.split)

lemma batches_slices:
  "plaintext_batches pick store bss out = Inr bs \<longleftrightarrow> plaintext_slices store (concat bss) out = Inr bs"
proof (induction bss arbitrary: out)
  case (Cons b bss)
  show ?case
  proof (cases "par_collect pick (map (decode_slice store) b)")
    case (Inl e)
    from par_collect_error [OF Inl] obtain e' where "plaintext_slices store b out = Inl e'"
      using plaintext_slices_error [of store b out] by auto
    with Inl show ?thesis by (simp add: plaintext_slices_append)
  next
    case (Inr ps)
    then have "map (decode_slice store) b = map Inr ps" by (simp only: par_collect_Inr)
    from plaintext_slices_parts [OF this, of out] Inr Cons show ?thesis
      by (simp add: plaintext_slices_append)
  qed
qed simp

lemma concat_batches_of: "0 < n \<Longrightarrow> concat (batches_of n xs) = xs"
proof (induction n xs rule: batches_of.induct)
  case (1 n xs)
  then show ?case by (subst batches_of.simps) simp
qed

text \<open>The sequential decode, the reference.\<close>

definition sequential_plaintext :: "inode \<Rightarrow> source \<Rightarrow> bytes outcome" where
  "sequential_plaintext inode store =
     (case in_content_handle inode of
        InlineData d \<Rightarrow> Inr d | SliceMap slices \<Rightarrow> plaintext_slices store slices [] | _ \<Rightarrow> Inr [])"

lemma file_plaintext_sequential:
  "file_plaintext pick inode (Some store) = Inr bs \<longleftrightarrow> sequential_plaintext inode store = Inr bs"
  by (simp add: file_plaintext_def sequential_plaintext_def batches_slices concat_batches_of DECODE_BATCH_SLICES_def
      split: content_handle.split)

section \<open>Streaming\<close>

text \<open>What the sink relies on of the file system: creating truncates, writing appends, and the other operations leave
  file contents alone.\<close>

definition fs_laws :: "'fs fs_ops \<Rightarrow> ('fs \<Rightarrow> bytes \<rightharpoonup> bytes) \<Rightarrow> bool" where
  "fs_laws ops contents \<longleftrightarrow>
     (\<forall>p fs fs'. create_file ops p fs = (True, fs') \<longrightarrow> contents fs' = (contents fs)(p \<mapsto> []))
     \<and> (\<forall>p d fs fs' old. append_file ops p d fs = (True, fs') \<longrightarrow> contents fs p = Some old \<longrightarrow>
          contents fs' = (contents fs)(p \<mapsto> old @ d))
     \<and> (\<forall>p fs fs'. flush_file ops p fs = (True, fs') \<longrightarrow> contents fs' = contents fs)
     \<and> (\<forall>p m t fs. contents (stamp ops p m t fs) = contents fs)"

lemma io_to_core_Inr: "io_to_core r = (Inr u, fs) \<longleftrightarrow> r = (True, fs)"
  by (cases r) (auto simp: io_to_core_def)

lemma write_chunks_step:
  assumes "write_chunks ops path it fs = (Inr (), fs')"
  shows "(\<exists>it'. file_chunks_next it = (None, it') \<and> fs' = fs)
    \<or> (\<exists>chunk it' fs1. file_chunks_next it = (Some (Inr chunk), it') \<and> append_file ops path chunk fs = (True, fs1)
         \<and> write_chunks ops path it' fs1 = (Inr (), fs'))"
  using assms by (subst (asm) write_chunks.simps)
    (auto split: prod.splits option.splits sum.splits simp: io_to_core_Inr)

text \<open>The slices not yet streamed are appended in order.\<close>

lemma write_chunks_slices:
  assumes laws: "fs_laws ops contents" and inode: "in_content_handle inode = SliceMap slices"
  shows "write_chunks ops path \<lparr>fc_inode = inode, fc_store = Some store, fc_idx = k, fc_inline = None, fc_done = False\<rparr> fs
      = (Inr (), fs') \<Longrightarrow> contents fs path = Some acc \<Longrightarrow>
    \<exists>bs. plaintext_slices store (drop k slices) acc = Inr bs \<and> contents fs' = (contents fs)(path \<mapsto> bs)"
proof (induction "length slices - k" arbitrary: k fs acc)
  case 0
  let ?it = "\<lparr>fc_inode = inode, fc_store = Some store, fc_idx = k, fc_inline = None, fc_done = False\<rparr>"
  from 0 inode have "file_chunks_next ?it = (None, ?it\<lparr>fc_done := True\<rparr>)" by (simp add: file_chunks_next_def)
  with write_chunks_step [OF 0(2)] have "fs' = fs" by auto
  with 0 show ?case by (auto simp: fun_upd_idem)
next
  case (Suc n)
  let ?it = "\<lambda>k. \<lparr>fc_inode = inode, fc_store = Some store, fc_idx = k, fc_inline = None, fc_done = False\<rparr>"
  from Suc(2) have k: "k < length slices" by simp
  then have "file_chunks_next (?it k) = (Some (decode_slice store (slices ! k)), ?it (Suc k))"
    using inode by (simp add: file_chunks_next_def)
  with write_chunks_step [OF Suc(3)] obtain chunk fs1 where c: "decode_slice store (slices ! k) = Inr chunk"
    "append_file ops path chunk fs = (True, fs1)" "write_chunks ops path (?it (Suc k)) fs1 = (Inr (), fs')" by auto
  from laws c(2) Suc(4) have fs1: "contents fs1 = (contents fs)(path \<mapsto> acc @ chunk)" by (auto simp: fs_laws_def)
  have "n = length slices - Suc k" using Suc(2) by simp
  from Suc(1) [OF this c(3), of "acc @ chunk"] fs1 obtain bs
    where "plaintext_slices store (drop (Suc k) slices) (acc @ chunk) = Inr bs" "contents fs' = (contents fs)(path \<mapsto> bs)" by auto
  with c(1) k show ?case by (auto simp: Cons_nth_drop_Suc [symmetric])
qed

lemma write_chunks_file:
  assumes laws: "fs_laws ops contents" and run: "write_chunks ops path (file_chunks_new inode (Some store)) fs = (Inr (), fs')"
    and "contents fs path = Some []"
  shows "\<exists>bs. sequential_plaintext inode store = Inr bs \<and> contents fs' = (contents fs)(path \<mapsto> bs)"
proof (cases "in_content_handle inode")
  case (InlineData d)
  let ?it = "\<lparr>fc_inode = inode, fc_store = Some store, fc_idx = 0, fc_inline = Some d, fc_done = False\<rparr>"
  have "file_chunks_next ?it = (Some (Inr d), ?it\<lparr>fc_inline := None, fc_done := True\<rparr>)" by (simp add: file_chunks_next_def)
  with write_chunks_step [OF run] InlineData obtain fs1 where 1: "append_file ops path d fs = (True, fs1)"
    "write_chunks ops path (?it\<lparr>fc_inline := None, fc_done := True\<rparr>) fs1 = (Inr (), fs')"
    by (auto simp: file_chunks_new_def)
  from write_chunks_step [OF 1(2)] have "fs' = fs1" by (auto simp: file_chunks_next_def)
  with 1(1) laws assms(3) InlineData show ?thesis by (auto simp: fs_laws_def sequential_plaintext_def)
next
  case (SliceMap slices)
  with run write_chunks_slices [OF laws SliceMap, of path store 0 fs fs' "[]"] assms(3) show ?thesis
    by (simp add: file_chunks_new_def sequential_plaintext_def)
qed (use write_chunks_step [OF run] assms(3) in
    \<open>auto simp: file_chunks_new_def file_chunks_next_def sequential_plaintext_def fun_upd_idem\<close>)


text \<open>A file system that is a map, on which every operation succeeds.\<close>

definition map_fs :: "(bytes \<rightharpoonup> bytes) fs_ops" where
  "map_fs = \<lparr>create_dir_all = (\<lambda>_ fs. (True, fs)), make_symlink = (\<lambda>_ _ fs. (True, fs)),
     hard_link = (\<lambda>p q fs. (True, fs(q := fs p))), create_file = (\<lambda>p fs. (True, fs(p \<mapsto> []))),
     append_file = (\<lambda>p d fs. (True, fs(p \<mapsto> (case fs p of None \<Rightarrow> d | Some old \<Rightarrow> old @ d)))),
     flush_file = (\<lambda>_ fs. (True, fs)), stamp = (\<lambda>_ _ _ fs. fs)\<rparr>"

lemma map_fs_laws: "fs_laws map_fs (\<lambda>fs. fs)"
  by (auto simp: fs_laws_def map_fs_def)

lemma map_fs_writes_inline:
  "fk_write_file map_fs [47, 120] (file_inode 2) (Some (\<lambda>_. None)) Map.empty = (Inr (), [[47, 120] \<mapsto> [104, 105]])"
  by (simp add: fk_write_file_def map_fs_def io_to_core_def file_chunks_new_def file_inode_def write_chunks.simps
      file_chunks_next_def)


section \<open>The parallel extraction plan\<close>

definition is_file_handle :: "inode \<Rightarrow> bool" where
  "is_file_handle i \<longleftrightarrow> (case in_content_handle i of InlineData _ \<Rightarrow> True | SliceMap _ \<Rightarrow> True | _ \<Rightarrow> False)"

definition task_numbers :: "'fs parallel_extract \<Rightarrow> u64 list" where
  "task_numbers px = map (\<lambda>t. in_number (snd t)) (px_tasks px)"

text \<open>Every task is the first occurrence of its inode, and every link goes to a task.\<close>

definition plan_ok :: "'fs parallel_extract \<Rightarrow> bool" where
  "plan_ok px \<longleftrightarrow> distinct (task_numbers px) \<and> dom (px_seen_inodes px) = set (task_numbers px)
     \<and> (\<forall>n q. px_seen_inodes px n = Some q \<longrightarrow> q \<in> fst ` set (px_tasks px))
     \<and> (\<forall>l \<in> set (px_links px). snd l \<in> fst ` set (px_tasks px))"

definition file_numbers :: "tree_event list \<Rightarrow> u64 set" where
  "file_numbers evs = in_number ` {i \<in> leaf_inodes evs. is_file_handle i}"

lemma plan_file:
  assumes "plan_ok px" "px_on_regular_file p i px = (r, px')"
  shows "plan_ok px' \<and> set (task_numbers px') = insert (in_number i) (set (task_numbers px))
    \<and> px_dir_count px' = px_dir_count px \<and> px_root px' = px_root px
    \<and> path_push (px_root px) p \<in> fst ` set (px_tasks px') \<union> fst ` set (px_links px')"
proof (cases "px_seen_inodes px (in_number i)")
  case None
  then have new: "in_number i \<notin> set (task_numbers px)" using assms(1) by (auto simp: plan_ok_def)
  have px': "px' = px\<lparr>px_seen_inodes := (px_seen_inodes px)(in_number i \<mapsto> path_push (px_root px) p),
      px_tasks := px_tasks px @ [(path_push (px_root px) p, i)]\<rparr>"
    using None assms(2) by (simp add: px_on_regular_file_def Let_def)
  have tasks: "task_numbers px' = task_numbers px @ [in_number i]" by (simp add: px' task_numbers_def)
  have "plan_ok px'"
    using assms(1) new unfolding plan_ok_def tasks by (simp add: px')
  then show ?thesis by (simp add: px' tasks [unfolded px'])
next
  case (Some first)
  then have "in_number i \<in> set (task_numbers px)" "first \<in> fst ` set (px_tasks px)"
    using assms(1) by (auto simp: plan_ok_def)
  moreover have px': "px' = px\<lparr>px_links := px_links px @ [(path_push (px_root px) p, first)]\<rparr>"
    using Some assms(2) by (simp add: px_on_regular_file_def Let_def)
  moreover have tasks: "task_numbers px' = task_numbers px" by (simp add: px' task_numbers_def)
  moreover have "plan_ok px'"
    using assms(1) calculation(2) unfolding plan_ok_def tasks by (simp add: px')
  ultimately show ?thesis by (simp add: insert_absorb)
qed

lemma plan_frame:
  "px_tasks px' = px_tasks px \<Longrightarrow> px_seen_inodes px' = px_seen_inodes px \<Longrightarrow> px_links px' = px_links px \<Longrightarrow>
     plan_ok px' = plan_ok px \<and> task_numbers px' = task_numbers px"
  by (simp add: plan_ok_def task_numbers_def)

lemma plan_deliver:
  assumes "plan_ok px" "deliver (parallel_extract_sink ops) ev px = (Inr (), px')"
  shows "plan_ok px' \<and> px_root px' = px_root px
    \<and> set (task_numbers px') = set (task_numbers px) \<union> (case ev of EvFile _ i \<Rightarrow> {in_number i} | _ \<Rightarrow> {})
    \<and> px_dir_count px' = px_dir_count px + (if is_dir_event ev then 1 else 0)"
proof (cases "\<exists>p i. ev = EvFile p i")
  case True
  then obtain p i where "ev = EvFile p i" by blast
  with plan_file [OF assms(1), of p i "Inr ()" px'] assms(2) show ?thesis by (simp add: parallel_extract_sink_def)
next
  case False
  then have "px_tasks px' = px_tasks px \<and> px_seen_inodes px' = px_seen_inodes px \<and> px_links px' = px_links px
      \<and> px_root px' = px_root px \<and> px_dir_count px' = px_dir_count px + (if is_dir_event ev then 1 else 0)"
    using assms(2)
    by (cases ev) (auto simp: parallel_extract_sink_def px_on_directory_inode_def px_on_directory_def px_on_symlink_def
        ignore_other_def io_to_core_Inr split: prod.splits sum.splits)
  with plan_frame [of px' px] assms(1) False show ?thesis by (cases ev) auto
qed

lemma leaf_event_file_iff: "\<not> is_dir_handle i \<Longrightarrow> (\<exists>q. leaf_event p i = EvFile q i) \<longleftrightarrow> is_file_handle i"
  by (simp add: leaf_event_def is_file_handle_def split: content_handle.split)

lemma event_okD:
  "event_ok ev \<Longrightarrow> \<not> is_dir_event ev \<Longrightarrow> \<not> is_dir_handle (event_inode ev) \<and> leaf_event (event_path ev) (event_inode ev) = ev"
  by (simp add: event_ok_def)

lemma event_ok_file_numbers:
  assumes "event_ok ev"
  shows "file_numbers [ev] = (case ev of EvFile _ i \<Rightarrow> {in_number i} | _ \<Rightarrow> {})"
proof -
  have "is_file_handle (event_inode ev) \<longleftrightarrow> (\<exists>p. ev = EvFile p (event_inode ev))" if "\<not> is_dir_event ev"
    using event_okD [OF assms that] leaf_event_file_iff [of "event_inode ev" "event_path ev"] by simp
  then show ?thesis by (cases ev) (simp_all add: file_numbers_def leaf_inodes_def Collect_conv_if)
qed

lemma plan_deliver_all:
  "deliver_all (parallel_extract_sink ops) evs px = (Inr (), px') \<Longrightarrow> plan_ok px \<Longrightarrow> \<forall>ev \<in> set evs. event_ok ev \<Longrightarrow>
     plan_ok px' \<and> px_root px' = px_root px \<and> set (task_numbers px') = set (task_numbers px) \<union> file_numbers evs
     \<and> px_dir_count px' = px_dir_count px + length (dir_numbers evs)"
proof (induction evs arbitrary: px)
  case Nil
  then show ?case by (simp add: file_numbers_def)
next
  case (Cons ev evs)
  from Cons.prems(1) obtain px1 where 1: "deliver (parallel_extract_sink ops) ev px = (Inr (), px1)"
    "deliver_all (parallel_extract_sink ops) evs px1 = (Inr (), px')" by (auto split: prod.splits sum.splits)
  note step = plan_deliver [OF Cons.prems(2) 1(1)]
  have "file_numbers (ev # evs) = file_numbers [ev] \<union> file_numbers evs"
    by (auto simp: file_numbers_def leaf_inodes_def)
  moreover have "file_numbers [ev] = (case ev of EvFile _ i \<Rightarrow> {in_number i} | _ \<Rightarrow> {})"
    using Cons.prems(3) by (intro event_ok_file_numbers) simp
  moreover have "length (dir_numbers (ev # evs)) = (if is_dir_event ev then 1 else 0) + length (dir_numbers evs)"
    by (simp add: dir_numbers_def)
  ultimately show ?case using Cons.IH [OF 1(2)] step Cons.prems(3) by auto
qed


lemma tree_blob_lookups:
  "inode_by_number tree_blob 1 = Some (dir_inode 1)" "inode_by_number tree_blob 2 = Some (file_inode 2)"
  "in_content_handle (dir_inode 1) = Directory (toy_hash [1, 1, 0, 0, 0, 1, 0, 0, 0, 97, 2, 0, 0, 0, 0, 0, 0, 0, 2])"
  "dir_node_by_hash toy_hash tree_blob (toy_hash [1, 1, 0, 0, 0, 1, 0, 0, 0, 97, 2, 0, 0, 0, 0, 0, 0, 0, 2]) = Some node_a"
  by (simp_all add: blob_eval)

lemma inode_numbers [simp]: "in_number (dir_inode n) = n" "in_number (file_inode n) = n"
  "in_content_handle (file_inode n) = InlineData [104, 105]"
  by (simp_all add: dir_inode_def file_inode_def one_dir_inode_def)

lemma tree_blob_plan:
  "walk_live_tree toy_hash (Suc (Suc (Suc 0))) tree_blob 1 (parallel_extract_sink map_fs) (parallel_extract_new [47] Map.empty)
    = Some (Inr (), \<lparr>px_root = [47], px_tasks = [([47, 97], file_inode 2)],
        px_dirs = [\<lparr>di_path = [47], di_mode = in_mode (dir_inode 1), di_mtime_ns = in_mtime_ns (dir_inode 1),
          di_xattrs = in_xattrs (dir_inode 1)\<rparr>],
        px_links = [], px_seen_inodes = [2 \<mapsto> [47, 97]], px_dir_count = 1, px_fs = Map.empty\<rparr>)"
  by (simp add: walk_live_tree_def walk_dir.simps walk_entries.simps tree_blob_lookups node_a_def entry_a_def
      validate_tree_name_def parallel_extract_sink_def parallel_extract_new_def px_on_directory_inode_def px_on_directory_def
      map_fs_def io_to_core_def dir_target_def visit_leaf_def px_on_regular_file_def child_path_of_def path_push_def
      cfg_windows_def Let_def)


end
