(* ===== verification/Epoch.thy ===== *)
theory Epoch
  imports Format
begin

text \<open>
  The epoch files of writable images (\<open>limnifs-core/src/epoch/\<close>): the fixed header, the operations section, the
  drops section, and \<open>build\<close>, \<open>to_bytes\<close> and \<open>from_bytes\<close> over them. The hash is a parameter \<open>H\<close>. A writer's
  \<open>expect\<close> on a length is \<open>None\<close>; the slice of \<open>from_bytes\<close> that could be out of range is an outer option.
\<close>

section \<open>The header\<close>

definition EPOCH_FORMAT_VERSION :: u16 where
  "EPOCH_FORMAT_VERSION = 1"

definition EPOCH_MAGIC :: u32 where
  "EPOCH_MAGIC = 0x4C494D45"

definition EPOCH_HEADER_SIZE :: nat where
  "EPOCH_HEADER_SIZE = 200"

datatype epoch_flags = EpochFlags u16

primrec epoch_flags_as_u16 :: "epoch_flags \<Rightarrow> u16" where
  "epoch_flags_as_u16 (EpochFlags raw) = raw"

definition epoch_flags_from_u16 :: "u16 \<Rightarrow> epoch_flags" where
  "epoch_flags_from_u16 raw = EpochFlags raw"

definition epoch_flags_empty :: epoch_flags where
  "epoch_flags_empty = EpochFlags 0"

primrec epoch_flags_signed :: "epoch_flags \<Rightarrow> epoch_flags" where
  "epoch_flags_signed (EpochFlags raw) = EpochFlags (or raw 0x0001)"

primrec epoch_flags_timestamped :: "epoch_flags \<Rightarrow> epoch_flags" where
  "epoch_flags_timestamped (EpochFlags raw) = EpochFlags (or raw 0x0002)"

primrec epoch_flags_sealed :: "epoch_flags \<Rightarrow> epoch_flags" where
  "epoch_flags_sealed (EpochFlags raw) = EpochFlags (or raw 0x0004)"

record epoch_header =
  eh_version :: u16
  eh_flags :: epoch_flags
  eh_parent_epoch_id :: bytes
  eh_base_image_root :: bytes
  eh_epoch_sequence :: u64
  eh_ops_hash :: bytes
  eh_drops_hash :: bytes
  eh_own_epoch_id :: bytes
  eh_timestamp_unix :: u64

definition epoch_header_default :: epoch_header where
  "epoch_header_default =
     \<lparr>eh_version = EPOCH_FORMAT_VERSION, eh_flags = epoch_flags_empty, eh_parent_epoch_id = replicate 32 0,
      eh_base_image_root = replicate 32 0, eh_epoch_sequence = 0, eh_ops_hash = replicate 32 0,
      eh_drops_hash = replicate 32 0, eh_own_epoch_id = replicate 32 0, eh_timestamp_unix = 0\<rparr>"

text \<open>The header's fields before and after \<open>own_epoch_id\<close>, in wire order.\<close>

definition write_epoch_header :: "epoch_header \<Rightarrow> bytes" where
  "write_epoch_header header =
     u32_to_le_bytes EPOCH_MAGIC @ u16_to_le_bytes (eh_version header)
     @ u16_to_le_bytes (epoch_flags_as_u16 (eh_flags header))
     @ eh_parent_epoch_id header @ eh_base_image_root header @ u64_to_le_bytes (eh_epoch_sequence header)
     @ eh_ops_hash header @ eh_drops_hash header @ eh_own_epoch_id header
     @ u64_to_le_bytes (eh_timestamp_unix header) @ replicate 16 0"

text \<open>\<open>map_err\<close> with the message that names the place and quotes the cursor's error.\<close>

definition at_place :: "epoch_place \<Rightarrow> core_error \<Rightarrow> core_error" where
  "at_place place e = Corrupt (EpochTruncated place e)"

abbreviation header_field :: "string \<Rightarrow> 'a parser \<Rightarrow> 'a parser" where
  "header_field label \<equiv> pmap_err (at_place (EpochHeaderField label))"

definition parse_epoch_header :: "epoch_header parser" where
  "parse_epoch_header =
     pbind (header_field ''magic'' read_u32_le) (\<lambda>magic.
     if magic \<noteq> EPOCH_MAGIC then perr (Corrupt (EpochReason (EpochBadMagic magic))) else
     pbind (header_field ''version'' read_u16_le) (\<lambda>version.
     if version > EPOCH_FORMAT_VERSION then perr (Corrupt (EpochReason (EpochVersion version))) else
     pbind (header_field ''flags'' read_u16_le) (\<lambda>flags_raw.
     pbind (header_field ''parent_epoch_id'' (read_n 32)) (\<lambda>parent_epoch_id.
     pbind (header_field ''base_image_root'' (read_n 32)) (\<lambda>base_image_root.
     pbind (header_field ''epoch_sequence'' read_u64_le) (\<lambda>epoch_sequence.
     pbind (header_field ''ops_hash'' (read_n 32)) (\<lambda>ops_hash.
     pbind (header_field ''drops_hash'' (read_n 32)) (\<lambda>drops_hash.
     pbind (header_field ''own_epoch_id'' (read_n 32)) (\<lambda>own_epoch_id.
     pbind (header_field ''timestamp'' read_u64_le) (\<lambda>timestamp_unix.
     pbind (header_field ''end of reserved'' (skip 16)) (\<lambda>_.
     pret \<lparr>eh_version = version, eh_flags = epoch_flags_from_u16 flags_raw,
           eh_parent_epoch_id = parent_epoch_id, eh_base_image_root = base_image_root,
           eh_epoch_sequence = epoch_sequence, eh_ops_hash = ops_hash, eh_drops_hash = drops_hash,
           eh_own_epoch_id = own_epoch_id, eh_timestamp_unix = timestamp_unix\<rparr>)))))))))))"

section \<open>The operations\<close>

datatype epoch_op_kind = KAdd | KRemove | KModify | KChmod | KRename | KMkdir | KRmdir

definition epoch_op_kind_from_u8 :: "u8 \<Rightarrow> epoch_op_kind outcome" where
  "epoch_op_kind_from_u8 raw =
     (if raw = 0x00 then Inr KAdd else if raw = 0x01 then Inr KRemove else if raw = 0x02 then Inr KModify
      else if raw = 0x03 then Inr KChmod else if raw = 0x04 then Inr KRename else if raw = 0x05 then Inr KMkdir
      else if raw = 0x06 then Inr KRmdir else Inl (Corrupt (EpochReason (EpochUnknownOpcode raw))))"

text \<open>The discriminants of the \<open>repr(u8)\<close> enum, which \<open>kind() as u8\<close> writes.\<close>

fun epoch_op_kind_as_u8 :: "epoch_op_kind \<Rightarrow> u8" where
  "epoch_op_kind_as_u8 KAdd = 0x00"
| "epoch_op_kind_as_u8 KRemove = 0x01"
| "epoch_op_kind_as_u8 KModify = 0x02"
| "epoch_op_kind_as_u8 KChmod = 0x03"
| "epoch_op_kind_as_u8 KRename = 0x04"
| "epoch_op_kind_as_u8 KMkdir = 0x05"
| "epoch_op_kind_as_u8 KRmdir = 0x06"

text \<open>The fields of each variant in the source's order: path, drop id, length, mode, modification time.\<close>

datatype epoch_op =
  EpochAdd bytes bytes u64 u32 u64
| EpochRemove bytes
| EpochModify bytes bytes u64 u64
| EpochChmod bytes u32
| EpochRename bytes bytes
| EpochMkdir bytes u32
| EpochRmdir bytes

fun epoch_op_kind_of :: "epoch_op \<Rightarrow> epoch_op_kind" where
  "epoch_op_kind_of (EpochAdd _ _ _ _ _) = KAdd"
| "epoch_op_kind_of (EpochRemove _) = KRemove"
| "epoch_op_kind_of (EpochModify _ _ _ _) = KModify"
| "epoch_op_kind_of (EpochChmod _ _) = KChmod"
| "epoch_op_kind_of (EpochRename _ _) = KRename"
| "epoch_op_kind_of (EpochMkdir _ _) = KMkdir"
| "epoch_op_kind_of (EpochRmdir _) = KRmdir"

definition write_path :: "bytes \<Rightarrow> bytes option" where
  "write_path path = do {
     len \<leftarrow> u32_try_from (length path);
     Some (u32_to_le_bytes len @ path)
   }"

fun write_op_fields :: "epoch_op \<Rightarrow> bytes option" where
  "write_op_fields (EpochAdd path drop_id len mode mtime) = do {
     p \<leftarrow> write_path path;
     Some (p @ drop_id @ u64_to_le_bytes len @ u32_to_le_bytes mode @ u64_to_le_bytes mtime)
   }"
| "write_op_fields (EpochRemove path) = write_path path"
| "write_op_fields (EpochModify path drop_id len mtime) = do {
     p \<leftarrow> write_path path;
     Some (p @ drop_id @ u64_to_le_bytes len @ u64_to_le_bytes mtime)
   }"
| "write_op_fields (EpochChmod path mode) = do { p \<leftarrow> write_path path; Some (p @ u32_to_le_bytes mode) }"
| "write_op_fields (EpochRename from_path to_path) = do {
     p \<leftarrow> write_path from_path;
     q \<leftarrow> write_path to_path;
     Some (p @ q)
   }"
| "write_op_fields (EpochMkdir path mode) = do { p \<leftarrow> write_path path; Some (p @ u32_to_le_bytes mode) }"
| "write_op_fields (EpochRmdir path) = write_path path"

definition write_one_op :: "epoch_op \<Rightarrow> bytes option" where
  "write_one_op op = do {
     fields \<leftarrow> write_op_fields op;
     Some (epoch_op_kind_as_u8 (epoch_op_kind_of op) # fields)
   }"

definition write_op_section :: "epoch_op list \<Rightarrow> bytes option" where
  "write_op_section ops = do {
     count \<leftarrow> u32_try_from (length ops);
     body \<leftarrow> concat_opt (map write_one_op ops);
     Some (u32_to_le_bytes count @ body)
   }"

abbreviation op_field :: "nat \<Rightarrow> string \<Rightarrow> 'a parser \<Rightarrow> 'a parser" where
  "op_field index label \<equiv> pmap_err (at_place (EpochOpField index label))"

definition read_path :: "nat \<Rightarrow> bytes parser" where
  "read_path index =
     pbind (op_field index ''path length'' read_u32_le) (\<lambda>len.
     pbind (op_field index ''path'' (read_n (unat len))) (\<lambda>path.
     if \<not> utf8_valid path then perr (Corrupt (EpochReason (EpochPathNotUtf8 index))) else pret path))"

fun parse_one_op :: "epoch_op_kind \<Rightarrow> nat \<Rightarrow> epoch_op parser" where
  "parse_one_op KAdd index =
     pbind (read_path index) (\<lambda>path.
     pbind (op_field index ''drop_id'' (read_n 32)) (\<lambda>drop_id.
     pbind (op_field index ''len'' read_u64_le) (\<lambda>len.
     pbind (op_field index ''mode'' read_u32_le) (\<lambda>mode.
     pbind (op_field index ''mtime'' read_u64_le) (\<lambda>mtime.
     pret (EpochAdd path drop_id len mode mtime))))))"
| "parse_one_op KRemove index = pbind (read_path index) (\<lambda>path. pret (EpochRemove path))"
| "parse_one_op KModify index =
     pbind (read_path index) (\<lambda>path.
     pbind (op_field index ''drop_id'' (read_n 32)) (\<lambda>drop_id.
     pbind (op_field index ''len'' read_u64_le) (\<lambda>len.
     pbind (op_field index ''mtime'' read_u64_le) (\<lambda>mtime.
     pret (EpochModify path drop_id len mtime)))))"
| "parse_one_op KChmod index =
     pbind (read_path index) (\<lambda>path.
     pbind (op_field index ''mode'' read_u32_le) (\<lambda>mode. pret (EpochChmod path mode)))"
| "parse_one_op KRename index =
     pbind (read_path index) (\<lambda>from_path.
     pbind (read_path index) (\<lambda>to_path. pret (EpochRename from_path to_path)))"
| "parse_one_op KMkdir index =
     pbind (read_path index) (\<lambda>path.
     pbind (op_field index ''mode'' read_u32_le) (\<lambda>mode. pret (EpochMkdir path mode)))"
| "parse_one_op KRmdir index = pbind (read_path index) (\<lambda>path. pret (EpochRmdir path))"

definition parse_op_entry :: "nat \<Rightarrow> epoch_op list \<Rightarrow> epoch_op parser" where
  "parse_op_entry i ops =
     pbind (op_field i ''opcode'' read_u8) (\<lambda>opcode.
     pbind (plift (epoch_op_kind_from_u8 opcode)) (\<lambda>kind. parse_one_op kind i))"

definition parse_op_section :: "epoch_op list parser" where
  "parse_op_section =
     pbind (pmap_err (at_place EpochOpsCount) read_u32_le) (\<lambda>count.
     ploop parse_op_entry 0 (unat count) [])"

section \<open>The drops\<close>

record epoch_drop =
  ed_drop_id :: bytes
  ed_codec :: u8
  ed_plaintext_len :: u32
  ed_payload :: bytes

definition write_one_drop :: "epoch_drop \<Rightarrow> bytes option" where
  "write_one_drop d = do {
     payload_len \<leftarrow> u32_try_from (length (ed_payload d));
     Some (ed_drop_id d @ [ed_codec d] @ u32_to_le_bytes (ed_plaintext_len d)
       @ u32_to_le_bytes payload_len @ ed_payload d)
   }"

definition write_drop_section :: "epoch_drop list \<Rightarrow> bytes option" where
  "write_drop_section drops = do {
     count \<leftarrow> u32_try_from (length drops);
     body \<leftarrow> concat_opt (map write_one_drop drops);
     Some (u32_to_le_bytes count @ body)
   }"

abbreviation drop_field :: "nat \<Rightarrow> string \<Rightarrow> 'a parser \<Rightarrow> 'a parser" where
  "drop_field index label \<equiv> pmap_err (at_place (EpochDropField index label))"

definition parse_one_drop :: "nat \<Rightarrow> epoch_drop list \<Rightarrow> epoch_drop parser" where
  "parse_one_drop index drops =
     pbind (drop_field index ''drop_id'' (read_n 32)) (\<lambda>drop_id.
     pbind (drop_field index ''codec'' read_u8) (\<lambda>codec.
     pbind (drop_field index ''plaintext_len'' read_u32_le) (\<lambda>plaintext_len.
     pbind (drop_field index ''payload_len'' read_u32_le) (\<lambda>payload_len.
     pbind (drop_field index ''payload'' (read_n (unat payload_len))) (\<lambda>payload.
     pret \<lparr>ed_drop_id = drop_id, ed_codec = codec, ed_plaintext_len = plaintext_len, ed_payload = payload\<rparr>)))))"

definition parse_drop_section :: "epoch_drop list parser" where
  "parse_drop_section =
     pbind (pmap_err (at_place EpochDropsCount) read_u32_le) (\<lambda>count.
     ploop parse_one_drop 0 (unat count) [])"

section \<open>Whole epochs\<close>

record epoch =
  ep_header :: epoch_header
  ep_ops :: "epoch_op list"
  ep_drops :: "epoch_drop list"

definition compute_epoch_id :: "(bytes \<Rightarrow> bytes) \<Rightarrow> bytes \<Rightarrow> bytes" where
  "compute_epoch_id H epoch_bytes = H epoch_bytes"

definition hash_epoch_section :: "(bytes \<Rightarrow> bytes) \<Rightarrow> bytes \<Rightarrow> bytes" where
  "hash_epoch_section H bs = H bs"

definition epoch_to_bytes :: "epoch \<Rightarrow> bytes option" where
  "epoch_to_bytes e = do {
     ops_section \<leftarrow> write_op_section (ep_ops e);
     drops_section \<leftarrow> write_drop_section (ep_drops e);
     Some (write_epoch_header (ep_header e) @ ops_section @ drops_section)
   }"

definition epoch_id :: "(bytes \<Rightarrow> bytes) \<Rightarrow> epoch \<Rightarrow> bytes option" where
  "epoch_id H e = do { bs \<leftarrow> epoch_to_bytes e; Some (compute_epoch_id H bs) }"

definition epoch_build :: "(bytes \<Rightarrow> bytes) \<Rightarrow> epoch_header \<Rightarrow> epoch_op list \<Rightarrow> epoch_drop list \<Rightarrow> epoch option" where
  "epoch_build H header ops drops = do {
     ops_section \<leftarrow> write_op_section ops;
     drops_section \<leftarrow> write_drop_section drops;
     let header = header\<lparr>eh_ops_hash := hash_epoch_section H ops_section,
                         eh_drops_hash := hash_epoch_section H drops_section,
                         eh_own_epoch_id := replicate 32 0\<rparr>;
         bs = write_epoch_header header @ ops_section @ drops_section
     in Some \<lparr>ep_header = header\<lparr>eh_own_epoch_id := compute_epoch_id H bs\<rparr>, ep_ops = ops, ep_drops = drops\<rparr>
   }"

text \<open>\<open>tmp[offset..offset + 32].copy_from_slice(&[0u8; 32])\<close> with \<open>offset\<close> the position of \<open>own_epoch_id\<close>; the
  slice expression panics when the buffer ends before the field does.\<close>

definition own_id_offset :: nat where
  "own_id_offset = 4 + 2 + 2 + 32 + 32 + 8 + 32 + 32"

definition zero_own_id :: "bytes \<Rightarrow> bytes option" where
  "zero_own_id bs =
     (if own_id_offset + 32 \<le> length bs
      then Some (take own_id_offset bs @ replicate 32 0 @ drop (own_id_offset + 32) bs) else None)"

definition epoch_from_bytes :: "(bytes \<Rightarrow> bytes) \<Rightarrow> bytes \<Rightarrow> epoch outcome option" where
  "epoch_from_bytes H bs =
     (case parse_epoch_header (cursor_new bs) of
        Inl e \<Rightarrow> Some (Inl e)
      | Inr (header, cursor) \<Rightarrow> do {
          tmp \<leftarrow> zero_own_id bs;
          let recomputed = compute_epoch_id H tmp in
          if recomputed \<noteq> eh_own_epoch_id header
          then Some (Inl (Corrupt (EpochReason (EpochIdMismatch (eh_own_epoch_id header) recomputed))))
          else Some (case pbind parse_op_section (\<lambda>ops. pbind parse_drop_section (\<lambda>drops.
                       pret \<lparr>ep_header = header, ep_ops = ops, ep_drops = drops\<rparr>)) cursor of
                       Inl e \<Rightarrow> Inl e | Inr (e, _) \<Rightarrow> Inr e)
        })"

section \<open>The header's layout\<close>

text \<open>The parser skips the reserved bytes without looking at them, so the layout it accepts has them as a
  parameter; the writer's is the one with zeros.\<close>

definition epoch_header_wire :: "epoch_header \<Rightarrow> bytes \<Rightarrow> bytes" where
  "epoch_header_wire h reserved =
     u32_to_le_bytes EPOCH_MAGIC @ u16_to_le_bytes (eh_version h) @ u16_to_le_bytes (epoch_flags_as_u16 (eh_flags h))
     @ eh_parent_epoch_id h @ eh_base_image_root h @ u64_to_le_bytes (eh_epoch_sequence h)
     @ eh_ops_hash h @ eh_drops_hash h @ eh_own_epoch_id h
     @ u64_to_le_bytes (eh_timestamp_unix h) @ reserved"

lemma write_epoch_header_wire: "write_epoch_header h = epoch_header_wire h (replicate 16 0)"
  by (simp add: write_epoch_header_def epoch_header_wire_def)

definition valid_epoch_header :: "epoch_header \<Rightarrow> bool" where
  "valid_epoch_header h \<longleftrightarrow>
     eh_version h \<le> EPOCH_FORMAT_VERSION \<and> length (eh_parent_epoch_id h) = 32
     \<and> length (eh_base_image_root h) = 32 \<and> length (eh_ops_hash h) = 32 \<and> length (eh_drops_hash h) = 32
     \<and> length (eh_own_epoch_id h) = 32"

lemma flags_round_trip [simp]: "epoch_flags_from_u16 (epoch_flags_as_u16 f) = f"
  "epoch_flags_as_u16 (epoch_flags_from_u16 raw) = raw"
  by (cases f, simp_all add: epoch_flags_from_u16_def)

lemma parses_skip_bind [wire_enc]:
  "length bs = n \<Longrightarrow> parses (f ()) rest w \<Longrightarrow> parses (pbind (skip n) f) (bs @ rest) w"
  unfolding skip_def by (rule parses_bind [of _ bs "()"]) (rule wire_enc | simp)+

lemma parses_skip_last [wire_enc]: "length bs = n \<Longrightarrow> parses (f ()) [] w \<Longrightarrow> parses (pbind (skip n) f) bs w"
  using parses_skip_bind [of bs n f "[]" w] by simp

lemma preads_skip_bind [wire_dec]:
  "(\<And>b. length b = n \<Longrightarrow> preads (f ()) (\<lambda>w b'. Q w (b @ b'))) \<Longrightarrow> preads (pbind (skip n) f) Q"
  unfolding skip_def
  by (rule preads_bind [of _ "\<lambda>_ b. length b = n"]) (auto intro!: wire_dec)

lemma parses_epoch_header:
  assumes "valid_epoch_header h" "length reserved = 16"
  shows "parses parse_epoch_header (epoch_header_wire h reserved) h"
  unfolding parse_epoch_header_def epoch_header_wire_def
  using assms by (intro wire_enc) (auto simp: valid_epoch_header_def not_less)

lemma preads_epoch_header:
  "preads parse_epoch_header
     (\<lambda>h b. valid_epoch_header h \<and> (\<exists>reserved. length reserved = 16 \<and> b = epoch_header_wire h reserved))"
  unfolding parse_epoch_header_def
  by (intro wire_dec) (auto simp: valid_epoch_header_def epoch_header_wire_def not_less)

lemma length_epoch_header_wire:
  "valid_epoch_header h \<Longrightarrow> length (epoch_header_wire h reserved) = 184 + length reserved"
  by (simp add: valid_epoch_header_def epoch_header_wire_def)

section \<open>The sections\<close>

fun valid_epoch_op :: "epoch_op \<Rightarrow> bool" where
  "valid_epoch_op (EpochAdd path drop_id len mode mtime) \<longleftrightarrow>
     length path < 2 ^ 32 \<and> utf8_valid path \<and> length drop_id = 32"
| "valid_epoch_op (EpochRemove path) \<longleftrightarrow> length path < 2 ^ 32 \<and> utf8_valid path"
| "valid_epoch_op (EpochModify path drop_id len mtime) \<longleftrightarrow>
     length path < 2 ^ 32 \<and> utf8_valid path \<and> length drop_id = 32"
| "valid_epoch_op (EpochChmod path mode) \<longleftrightarrow> length path < 2 ^ 32 \<and> utf8_valid path"
| "valid_epoch_op (EpochRename a b) \<longleftrightarrow>
     length a < 2 ^ 32 \<and> utf8_valid a \<and> length b < 2 ^ 32 \<and> utf8_valid b"
| "valid_epoch_op (EpochMkdir path mode) \<longleftrightarrow> length path < 2 ^ 32 \<and> utf8_valid path"
| "valid_epoch_op (EpochRmdir path) \<longleftrightarrow> length path < 2 ^ 32 \<and> utf8_valid path"

abbreviation path_wire :: "bytes \<Rightarrow> bytes" where
  "path_wire path \<equiv> u32_to_le_bytes (word_of_nat (length path)) @ path"

lemma parses_read_path [wire_enc]:
  assumes "length path < 2 ^ 32" "utf8_valid path" "parses (f path) rest w"
  shows "parses (pbind (read_path i) f) (u32_to_le_bytes (word_of_nat (length path)) @ path @ rest) w"
proof -
  have "parses (read_path i) (path_wire path) path"
    unfolding read_path_def using assms(1,2) by (intro wire_enc) simp_all
  from parses_bind [where f = f, OF this assms(3)] show ?thesis by simp
qed

lemma parses_read_path_last [wire_enc]:
  assumes "length path < 2 ^ 32" "utf8_valid path" "parses (f path) [] w"
  shows "parses (pbind (read_path i) f) (u32_to_le_bytes (word_of_nat (length path)) @ path) w"
  using parses_read_path [where f = f and i = i and path = path and rest = "[]" and w = w] assms by simp

lemma preads_read_path [wire_dec]:
  assumes "\<And>path. length path < 2 ^ 32 \<Longrightarrow> utf8_valid path \<Longrightarrow>
    preads (f path) (\<lambda>w b. Q w (u32_to_le_bytes (word_of_nat (length path)) @ path @ b))"
  shows "preads (pbind (read_path i) f) Q"
proof (rule preads_bind)
  show "preads (read_path i) (\<lambda>path b. length path < 2 ^ 32 \<and> utf8_valid path \<and> b = path_wire path)"
    unfolding read_path_def
    by (intro wire_dec) (use unat_u32_lt in auto)
  show "preads (f path) (\<lambda>w b'. Q w (b @ b'))"
    if "length path < 2 ^ 32 \<and> utf8_valid path \<and> b = path_wire path" for path b
    using assms that by simp
qed

lemma kind_round_trip [simp]: "epoch_op_kind_from_u8 (epoch_op_kind_as_u8 k) = Inr k"
  by (cases k) (simp_all add: epoch_op_kind_from_u8_def)

lemma kind_from_u8_Inr: "epoch_op_kind_from_u8 b = Inr k \<Longrightarrow> epoch_op_kind_as_u8 k = b"
  by (auto simp: epoch_op_kind_from_u8_def split: if_splits)

lemma parses_one_op:
  assumes "valid_epoch_op op" "write_op_fields op = Some bs"
  shows "parses (parse_one_op (epoch_op_kind_of op) i) bs op"
  using assms
  by (cases op; clarsimp simp: write_path_def; intro wire_enc; simp)

lemma preads_one_op:
  "preads (parse_one_op k i)
     (\<lambda>op b. valid_epoch_op op \<and> epoch_op_kind_of op = k \<and> write_op_fields op = Some b)"
  by (cases k) (auto simp: write_path_def intro!: wire_dec)

interpretation epoch_ops: entry_list parse_op_entry write_one_op "\<lambda>ops. \<forall>op \<in> set ops. valid_epoch_op op"
proof
  fix ops :: "epoch_op list" and op :: epoch_op and bs :: bytes and i :: nat
  show "\<forall>op \<in> set (ops @ [op]). valid_epoch_op op \<Longrightarrow> write_one_op op \<noteq> None"
    by (cases op) (simp_all add: write_one_op_def write_path_def)
  show "\<forall>op \<in> set (ops @ [op]). valid_epoch_op op \<Longrightarrow> write_one_op op = Some bs \<Longrightarrow>
      parses (parse_op_entry i ops) bs op"
    unfolding parse_op_entry_def write_one_op_def
    by (cases "write_op_fields op") (auto intro!: wire_enc parses_one_op)
  show "preads (parse_op_entry i ops) (\<lambda>op b. write_one_op op = Some b \<and> (\<forall>op \<in> set (ops @ [op]). valid_epoch_op op))"
    if "\<forall>op \<in> set ops. valid_epoch_op op"
    unfolding parse_op_entry_def
    by (intro wire_dec preads_mono [OF preads_one_op])
      (use that in \<open>auto simp: write_one_op_def dest: kind_from_u8_Inr\<close>)
qed auto

definition valid_epoch_drop :: "epoch_drop \<Rightarrow> bool" where
  "valid_epoch_drop d \<longleftrightarrow> length (ed_drop_id d) = 32 \<and> length (ed_payload d) < 2 ^ 32"

interpretation epoch_drops: entry_list parse_one_drop write_one_drop "\<lambda>ds. \<forall>d \<in> set ds. valid_epoch_drop d"
proof
  fix ds :: "epoch_drop list" and d :: epoch_drop and bs :: bytes and i :: nat
  show "\<forall>d \<in> set (ds @ [d]). valid_epoch_drop d \<Longrightarrow> write_one_drop d \<noteq> None"
    by (simp add: write_one_drop_def valid_epoch_drop_def)
  show "\<forall>d \<in> set (ds @ [d]). valid_epoch_drop d \<Longrightarrow> write_one_drop d = Some bs \<Longrightarrow>
      parses (parse_one_drop i ds) bs d"
    by (clarsimp simp: parse_one_drop_def write_one_drop_def valid_epoch_drop_def; intro wire_enc; simp)
  show "preads (parse_one_drop i ds) (\<lambda>d b. write_one_drop d = Some b \<and> (\<forall>d \<in> set (ds @ [d]). valid_epoch_drop d))"
    if "\<forall>d \<in> set ds. valid_epoch_drop d"
    unfolding parse_one_drop_def
    by (intro wire_dec) (use that unat_u32_lt in \<open>auto simp: write_one_drop_def valid_epoch_drop_def\<close>)
qed auto

abbreviation epoch_ops_ok :: "epoch_op list \<Rightarrow> bool" where
  "epoch_ops_ok ops \<equiv> length ops < 2 ^ 32 \<and> (\<forall>op \<in> set ops. valid_epoch_op op)"

abbreviation epoch_drops_ok :: "epoch_drop list \<Rightarrow> bool" where
  "epoch_drops_ok ds \<equiv> length ds < 2 ^ 32 \<and> (\<forall>d \<in> set ds. valid_epoch_drop d)"

interpretation op_section: wire_format parse_op_section write_op_section epoch_ops_ok
proof
  fix ops :: "epoch_op list" and bs :: bytes
  show "epoch_ops_ok ops \<Longrightarrow> write_op_section ops \<noteq> None"
    using epoch_ops.encs_Some [of ops] by (auto simp: write_op_section_def)
  show "epoch_ops_ok ops \<Longrightarrow> write_op_section ops = Some bs \<Longrightarrow> parses parse_op_section bs ops"
    unfolding parse_op_section_def write_op_section_def
    by (cases "concat_opt (map write_one_op ops)") (auto intro!: wire_enc epoch_ops.parses_list)
  show "preads parse_op_section (\<lambda>ops bs. epoch_ops_ok ops \<and> write_op_section ops = Some bs)"
    unfolding parse_op_section_def
    by (intro wire_dec preads_mono [OF epoch_ops.preads_list])
      (use unat_u32_lt in \<open>auto simp: write_op_section_def\<close>)
qed

interpretation drop_section: wire_format parse_drop_section write_drop_section epoch_drops_ok
proof
  fix ds :: "epoch_drop list" and bs :: bytes
  show "epoch_drops_ok ds \<Longrightarrow> write_drop_section ds \<noteq> None"
    using epoch_drops.encs_Some [of ds] by (auto simp: write_drop_section_def)
  show "epoch_drops_ok ds \<Longrightarrow> write_drop_section ds = Some bs \<Longrightarrow> parses parse_drop_section bs ds"
    unfolding parse_drop_section_def write_drop_section_def
    by (cases "concat_opt (map write_one_drop ds)") (auto intro!: wire_enc epoch_drops.parses_list)
  show "preads parse_drop_section (\<lambda>ds bs. epoch_drops_ok ds \<and> write_drop_section ds = Some bs)"
    unfolding parse_drop_section_def
    by (intro wire_dec preads_mono [OF epoch_drops.preads_list])
      (use unat_u32_lt in \<open>auto simp: write_drop_section_def\<close>)
qed

section \<open>What \<open>from_bytes\<close> accepts\<close>

definition valid_epoch :: "epoch \<Rightarrow> bool" where
  "valid_epoch e \<longleftrightarrow> valid_epoch_header (ep_header e) \<and> epoch_ops_ok (ep_ops e) \<and> epoch_drops_ok (ep_drops e)"

text \<open>Zeroing the field in the bytes is zeroing it in the header.\<close>

lemma zero_own_id_wire:
  assumes "valid_epoch_header h" "length reserved = 16"
  shows "zero_own_id (epoch_header_wire h reserved @ rest)
    = Some (epoch_header_wire (h\<lparr>eh_own_epoch_id := replicate 32 0\<rparr>) reserved @ rest)"
proof -
  define a where "a = u32_to_le_bytes EPOCH_MAGIC @ u16_to_le_bytes (eh_version h)
     @ u16_to_le_bytes (epoch_flags_as_u16 (eh_flags h)) @ eh_parent_epoch_id h @ eh_base_image_root h
     @ u64_to_le_bytes (eh_epoch_sequence h) @ eh_ops_hash h @ eh_drops_hash h"
  define z where "z = u64_to_le_bytes (eh_timestamp_unix h) @ reserved @ rest"
  have "length a = 144" using assms(1) by (simp add: a_def valid_epoch_header_def)
  moreover have "length (eh_own_epoch_id h) = 32" using assms(1) by (simp add: valid_epoch_header_def)
  ultimately have "zero_own_id (a @ eh_own_epoch_id h @ z) = Some (a @ replicate 32 0 @ z)"
    by (simp add: zero_own_id_def own_id_offset_def)
  then show ?thesis by (simp add: a_def z_def epoch_header_wire_def)
qed

text \<open>The body after the header: both sections, then anything.\<close>

abbreviation parse_epoch_body :: "epoch_header \<Rightarrow> epoch parser" where
  "parse_epoch_body h \<equiv> pbind parse_op_section (\<lambda>ops. pbind parse_drop_section (\<lambda>drops.
     pret \<lparr>ep_header = h, ep_ops = ops, ep_drops = drops\<rparr>))"

definition epoch_body_wire :: "epoch \<Rightarrow> bytes option" where
  "epoch_body_wire e = do {
     ops_section \<leftarrow> write_op_section (ep_ops e);
     drops_section \<leftarrow> write_drop_section (ep_drops e);
     Some (ops_section @ drops_section)
   }"

lemma parses_epoch_body:
  assumes "epoch_ops_ok (ep_ops e)" "epoch_drops_ok (ep_drops e)" "epoch_body_wire e = Some bs"
  shows "parses (parse_epoch_body (ep_header e)) bs e"
proof -
  from assms(3) obtain a b where ab: "write_op_section (ep_ops e) = Some a" "write_drop_section (ep_drops e) = Some b"
    "bs = a @ b"
    by (cases "write_op_section (ep_ops e)"; cases "write_drop_section (ep_drops e)")
      (auto simp: epoch_body_wire_def)
  show ?thesis unfolding ab(3)
    by (rule parses_bind [OF op_section.encode_parse [OF assms(1) ab(1)]],
        rule parses_bind_last [OF drop_section.encode_parse [OF assms(2) ab(2)]]) (simp add: parses_pret)
qed

lemma preads_epoch_body:
  "preads (parse_epoch_body h)
     (\<lambda>e b. ep_header e = h \<and> epoch_ops_ok (ep_ops e) \<and> epoch_drops_ok (ep_drops e) \<and> epoch_body_wire e = Some b)"
proof (rule preads_bind [OF op_section.parse_encode], rule preads_bind [OF drop_section.parse_encode])
  fix ops a ds b
  assume "epoch_ops_ok ops \<and> write_op_section ops = Some a" "epoch_drops_ok ds \<and> write_drop_section ds = Some b"
  then show "preads (pret \<lparr>ep_header = h, ep_ops = ops, ep_drops = ds\<rparr>)
      (\<lambda>e b'. ep_header e = h \<and> epoch_ops_ok (ep_ops e) \<and> epoch_drops_ok (ep_drops e)
         \<and> epoch_body_wire e = Some (a @ b @ b'))"
    by (intro wire_dec) (simp add: epoch_body_wire_def)
qed

lemma header_accepted:
  assumes "parse_epoch_header (cursor_new bs) = Inr (h, c)"
  obtains reserved r where "valid_epoch_header h" "length reserved = 16" "bs = epoch_header_wire h reserved @ r"
    "wf_cursor c" "remaining c = r"
proof -
  have wf: "wf_cursor (cursor_new bs)" by (simp add: wf_cursor_def cursor_new_def)
  from preadsE [OF preads_epoch_header wf assms] obtain b r reserved
    where hb: "remaining (cursor_new bs) = b @ r" "valid_epoch_header h" "length reserved = 16"
      "b = epoch_header_wire h reserved" "c = (cursor_new bs)\<lparr>cur_pos := cur_pos (cursor_new bs) + length b\<rparr>"
    by metis
  moreover have "bs = epoch_header_wire h reserved @ r"
    using hb(1,4) by (simp add: remaining_def cursor_new_def)
  ultimately show thesis using wf_cursor_advance [OF wf hb(1)] by (intro that) auto
qed

text \<open>An accepted file is a header, both sections and possibly more bytes; the recorded id is the hash of the
  whole file with the id field zeroed, trailing bytes and reserved bytes included.\<close>

lemma from_bytes_iff:
  assumes len: "length bs < usize_bound"
  shows "epoch_from_bytes H bs = Some (Inr e) \<longleftrightarrow>
    valid_epoch e \<and>
    (\<exists>reserved body rest. length reserved = 16 \<and> epoch_body_wire e = Some body
       \<and> bs = epoch_header_wire (ep_header e) reserved @ body @ rest
       \<and> eh_own_epoch_id (ep_header e) = compute_epoch_id H
           (epoch_header_wire ((ep_header e)\<lparr>eh_own_epoch_id := replicate 32 0\<rparr>) reserved @ body @ rest))"
  (is "?L \<longleftrightarrow> ?R")
proof
  assume L: ?L
  from L obtain h c where h: "parse_epoch_header (cursor_new bs) = Inr (h, c)"
    by (auto simp: epoch_from_bytes_def split: sum.splits)
  from header_accepted [OF h] obtain reserved r where hb: "valid_epoch_header h" "length reserved = 16"
    and bs: "bs = epoch_header_wire h reserved @ r" and c: "wf_cursor c" "remaining c = r" .
  from L h zero_own_id_wire [OF hb, of r] obtain c'
    where id: "eh_own_epoch_id h = compute_epoch_id H (epoch_header_wire (h\<lparr>eh_own_epoch_id := replicate 32 0\<rparr>) reserved @ r)"
      and body: "parse_epoch_body h c = Inr (e, c')"
    by (auto simp: epoch_from_bytes_def bs Let_def split: sum.splits if_splits)
  from preadsE [OF preads_epoch_body c(1) body] obtain body rest
    where "r = body @ rest" "ep_header e = h" "epoch_ops_ok (ep_ops e)" "epoch_drops_ok (ep_drops e)"
      "epoch_body_wire e = Some body" unfolding c(2) by metis
  with hb bs id show ?R unfolding valid_epoch_def by auto
next
  assume ?R
  then obtain reserved body rest where v: "valid_epoch e" and R: "length reserved = 16"
      "epoch_body_wire e = Some body" and bs: "bs = epoch_header_wire (ep_header e) reserved @ body @ rest"
    and id: "eh_own_epoch_id (ep_header e) = compute_epoch_id H
       (epoch_header_wire ((ep_header e)\<lparr>eh_own_epoch_id := replicate 32 0\<rparr>) reserved @ body @ rest)"
    by blast
  let ?h = "epoch_header_wire (ep_header e) reserved"
  have hv: "valid_epoch_header (ep_header e)" using v by (simp add: valid_epoch_def)
  have "parse_epoch_header (cursor_new bs) = Inr (ep_header e, \<lparr>cur_bytes = bs, cur_pos = length ?h\<rparr>)"
    using parsesD [OF parses_epoch_header [OF hv R(1)], of "[]" "body @ rest"] len bs by (simp add: cursor_new_def)
  moreover have "parses (parse_epoch_body (ep_header e)) body e"
    using v R(2) by (intro parses_epoch_body) (simp_all add: valid_epoch_def)
  then have "parse_epoch_body (ep_header e) \<lparr>cur_bytes = bs, cur_pos = length ?h\<rparr>
      = Inr (e, \<lparr>cur_bytes = bs, cur_pos = length ?h + length body\<rparr>)"
    using len unfolding bs by (intro parsesD) simp_all
  moreover have "zero_own_id bs = Some (epoch_header_wire ((ep_header e)\<lparr>eh_own_epoch_id := replicate 32 0\<rparr>) reserved @ body @ rest)"
    unfolding bs by (rule zero_own_id_wire [OF hv R(1)])
  ultimately show ?L using id by (simp add: epoch_from_bytes_def Let_def)
qed

section \<open>Identity\<close>

text \<open>An accepted file determines its zeroed image up to the id, so two files under one id are one file or a
  collision.\<close>

lemma from_bytes_id:
  assumes "epoch_from_bytes H bs = Some (Inr e)" "length bs < usize_bound"
  shows "\<exists>z. zero_own_id bs = Some z \<and> H z = eh_own_epoch_id (ep_header e)
    \<and> take 32 (drop own_id_offset bs) = eh_own_epoch_id (ep_header e)
    \<and> bs = take own_id_offset z @ eh_own_epoch_id (ep_header e) @ drop (own_id_offset + 32) z"
proof -
  from assms(1) [unfolded from_bytes_iff [OF assms(2)]] obtain reserved body rest
    where v: "valid_epoch_header (ep_header e)" "length reserved = 16"
      and bs: "bs = epoch_header_wire (ep_header e) reserved @ body @ rest"
      and id: "eh_own_epoch_id (ep_header e) = compute_epoch_id H
        (epoch_header_wire ((ep_header e)\<lparr>eh_own_epoch_id := replicate 32 0\<rparr>) reserved @ body @ rest)"
    by (auto simp: valid_epoch_def)
  let ?z = "epoch_header_wire ((ep_header e)\<lparr>eh_own_epoch_id := replicate 32 0\<rparr>) reserved @ body @ rest"
  have z: "zero_own_id bs = Some ?z" unfolding bs by (rule zero_own_id_wire [OF v])
  then have "?z = take own_id_offset bs @ replicate 32 0 @ drop (own_id_offset + 32) bs"
    and len: "own_id_offset + 32 \<le> length bs"
    by (auto simp: zero_own_id_def split: if_splits)
  then have "take own_id_offset ?z = take own_id_offset bs"
    "drop (own_id_offset + 32) ?z = drop (own_id_offset + 32) bs" by simp_all
  moreover have field: "take 32 (drop own_id_offset bs) = eh_own_epoch_id (ep_header e)"
    using v(1) by (simp add: bs epoch_header_wire_def own_id_offset_def valid_epoch_header_def drop_append)
  then have "bs = take own_id_offset bs @ eh_own_epoch_id (ep_header e) @ drop (own_id_offset + 32) bs"
    by (metis add.commute append_take_drop_id drop_drop)
  ultimately show ?thesis using z id field by (auto simp: compute_epoch_id_def)
qed

text \<open>The only way \<open>from_bytes\<close> could panic is the slice, and the header's length excludes it.\<close>

lemma from_bytes_total: "epoch_from_bytes H bs \<noteq> None"
proof (cases "parse_epoch_header (cursor_new bs)")
  case (Inr r)
  obtain h c where hc: "parse_epoch_header (cursor_new bs) = Inr (h, c)" using Inr by (cases r) simp
  from header_accepted [OF hc] obtain reserved rest
    where "valid_epoch_header h" "length reserved = 16" "bs = epoch_header_wire h reserved @ rest" .
  then show ?thesis
    using zero_own_id_wire [of h reserved rest] hc by (simp add: epoch_from_bytes_def Let_def)
qed (simp add: epoch_from_bytes_def)

section \<open>Building and reading\<close>

lemma build_shape:
  assumes hash: "\<And>x. length (H x) = 32"
    and header: "eh_version h \<le> EPOCH_FORMAT_VERSION" "length (eh_parent_epoch_id h) = 32"
      "length (eh_base_image_root h) = 32"
    and ops: "epoch_ops_ok ops" and drops: "epoch_drops_ok drops"
  obtains e body where "epoch_build H h ops drops = Some e" "valid_epoch e" "ep_ops e = ops" "ep_drops e = drops"
    "epoch_body_wire e = Some body"
    "epoch_to_bytes e = Some (epoch_header_wire (ep_header e) (replicate 16 0) @ body)"
    "eh_own_epoch_id (ep_header e) = compute_epoch_id H
       (epoch_header_wire ((ep_header e)\<lparr>eh_own_epoch_id := replicate 32 0\<rparr>) (replicate 16 0) @ body)"
proof -
  from op_section.encode_defined [OF ops] drop_section.encode_defined [OF drops] obtain a b
    where ab: "write_op_section ops = Some a" "write_drop_section drops = Some b" by auto
  define g where "g = h\<lparr>eh_ops_hash := H a, eh_drops_hash := H b, eh_own_epoch_id := replicate 32 0\<rparr>"
  define e where "e = \<lparr>ep_header = g\<lparr>eh_own_epoch_id := H (epoch_header_wire g (replicate 16 0) @ a @ b)\<rparr>,
    ep_ops = ops, ep_drops = drops\<rparr>"
  have "epoch_build H h ops drops = Some e"
    by (simp add: epoch_build_def ab Let_def e_def g_def hash_epoch_section_def compute_epoch_id_def
        write_epoch_header_wire)
  moreover have "valid_epoch e"
    using ops drops by (simp add: e_def g_def valid_epoch_def valid_epoch_header_def header hash)
  ultimately show thesis
    by (rule that [of e "a @ b"])
      (simp_all add: e_def g_def ab epoch_body_wire_def epoch_to_bytes_def write_epoch_header_wire compute_epoch_id_def)
qed

text \<open>C25. Every epoch that \<open>build\<close> makes of a well-formed header, operations and drops serialises, and its bytes read
  back as that epoch: the recomputed id matches and both sections come back entry for entry.\<close>

theorem epoch_round_trip:
  assumes "\<forall>x. length (H x) = 32" and "eh_version h \<le> EPOCH_FORMAT_VERSION"
    and "length (eh_parent_epoch_id h) = 32" and "length (eh_base_image_root h) = 32"
    and "length ops < 2 ^ 32" and "\<forall>op \<in> set ops. valid_epoch_op op"
    and "length drops < 2 ^ 32" and "\<forall>d \<in> set drops. valid_epoch_drop d"
  shows "\<exists>e bs. epoch_build H h ops drops = Some e \<and> ep_ops e = ops \<and> ep_drops e = drops
    \<and> epoch_to_bytes e = Some bs \<and> (length bs < usize_bound \<longrightarrow> epoch_from_bytes H bs = Some (Inr e))"
proof -
  have "\<And>x. length (H x) = 32" "epoch_ops_ok ops" "epoch_drops_ok drops" using assms by auto
  from build_shape [OF this(1) assms(2-4) this(2,3)] obtain e body where e: "epoch_build H h ops drops = Some e"
    "valid_epoch e" "ep_ops e = ops" "ep_drops e = drops" "epoch_body_wire e = Some body"
    "epoch_to_bytes e = Some (epoch_header_wire (ep_header e) (replicate 16 0) @ body)"
    "eh_own_epoch_id (ep_header e) = compute_epoch_id H
       (epoch_header_wire ((ep_header e)\<lparr>eh_own_epoch_id := replicate 32 0\<rparr>) (replicate 16 0) @ body)" .
  then have "epoch_from_bytes H (epoch_header_wire (ep_header e) (replicate 16 0) @ body) = Some (Inr e)"
    if "length (epoch_header_wire (ep_header e) (replicate 16 0) @ body) < usize_bound"
    unfolding from_bytes_iff [OF that]
    by (intro conjI exI [of _ "replicate 16 0"] exI [of _ body] exI [of _ "[]"]) simp_all
  with e show ?thesis by blast
qed

theorem epoch_round_trip_witness:
  "\<exists>e bs. epoch_build (\<lambda>_. replicate 32 7) epoch_header_default [EpochRename [97] [98]] [] = Some e
    \<and> ep_ops e = [EpochRename [97] [98]] \<and> ep_drops e = [] \<and> epoch_to_bytes e = Some bs
    \<and> (length bs < usize_bound \<longrightarrow> epoch_from_bytes (\<lambda>_. replicate 32 7) bs = Some (Inr e))"
  by (rule epoch_round_trip) (simp_all add: epoch_header_default_def EPOCH_FORMAT_VERSION_def)

text \<open>C24. A file that keeps the id field of an accepted epoch and changes anything else, header, sections, reserved or
  trailing bytes, is rejected with an error (never a panic), unless the two zeroed files collide under the hash.\<close>

theorem epoch_tamper_evident:
  assumes "epoch_from_bytes H a = Some (Inr e)" and "length a < usize_bound" and "length b < usize_bound"
    and "take 32 (drop own_id_offset b) = eh_own_epoch_id (ep_header e)" and "b \<noteq> a"
  shows "(\<exists>err. epoch_from_bytes H b = Some (Inl err))
    \<or> (\<exists>x y. zero_own_id a = Some x \<and> zero_own_id b = Some y \<and> x \<noteq> y \<and> H x = H y)"
proof (cases "\<exists>e'. epoch_from_bytes H b = Some (Inr e')")
  case True
  then obtain e' where e': "epoch_from_bytes H b = Some (Inr e')" ..
  from from_bytes_id [OF assms(1,2)] from_bytes_id [OF e' assms(3)] assms(4,5) show ?thesis by metis
next
  case False
  with from_bytes_total [of H b] show ?thesis by (metis (full_types) option.exhaust sum.exhaust)
qed

definition sample_epoch :: epoch where
  "sample_epoch = \<lparr>ep_header = epoch_header_default, ep_ops = [], ep_drops = []\<rparr>"

definition sample_file :: "bytes \<Rightarrow> bytes" where
  "sample_file rest = write_epoch_header epoch_header_default @ u32_to_le_bytes 0 @ u32_to_le_bytes 0 @ rest"

lemma sample_accepted: "epoch_from_bytes (\<lambda>_. replicate 32 0) (sample_file []) = Some (Inr sample_epoch)"
proof -
  have len: "length (sample_file []) < usize_bound"
    by (simp add: sample_file_def write_epoch_header_def epoch_header_default_def)
  show ?thesis unfolding from_bytes_iff [OF len]
    by (intro conjI exI [of _ "replicate 16 0"] exI [of _ "u32_to_le_bytes 0 @ u32_to_le_bytes 0"] exI [of _ "[]"])
      (simp_all add: sample_file_def sample_epoch_def valid_epoch_def valid_epoch_header_def epoch_header_default_def
        EPOCH_FORMAT_VERSION_def epoch_body_wire_def write_op_section_def write_drop_section_def
        write_epoch_header_wire compute_epoch_id_def)
qed

theorem epoch_tamper_evident_witness:
  "(\<exists>err. epoch_from_bytes (\<lambda>_. replicate 32 0) (sample_file [1]) = Some (Inl err))
    \<or> (\<exists>x y. zero_own_id (sample_file []) = Some x \<and> zero_own_id (sample_file [1]) = Some y \<and> x \<noteq> y
         \<and> replicate 32 (0 :: u8) = replicate 32 0)"
  by (rule epoch_tamper_evident [OF sample_accepted])
    (simp_all add: sample_file_def sample_epoch_def write_epoch_header_def epoch_header_default_def own_id_offset_def)

text \<open>\<open>Epoch::id\<close> hashes the bytes with the recorded id in them, and \<open>own_epoch_id\<close> the bytes with that field
  zeroed: for a built epoch the two agree only if the hash collides (or the recorded id is all zeros).\<close>

lemma epoch_id_is_not_own_id:
  assumes "epoch_from_bytes H bs = Some (Inr e)" "epoch_to_bytes e = Some bs" "length bs < usize_bound"
    and "epoch_id H e = Some (eh_own_epoch_id (ep_header e))"
  shows "zero_own_id bs = Some bs \<or> (\<exists>z. zero_own_id bs = Some z \<and> z \<noteq> bs \<and> H z = H bs)"
  using from_bytes_id [OF assms(1,3)] assms(2,4) by (auto simp: epoch_id_def compute_epoch_id_def)

end
