(* ===== verification/Compaction.thy ===== *)
theory Compaction
  imports Slab_Writer Manifest_Builder Path_Index
begin

text \<open>
  Slab compaction (\<open>limnifs-write/src/compaction.rs\<close>): the drops that some inode references are copied to a new slab
  and the manifest is reassembled around it. \<open>CompactionError\<close> wraps \<open>CoreError\<close> only on these paths, so the outcome
  type is the core one.
\<close>

record compaction_result =
  cr_manifest_bytes :: bytes
  cr_merkle_root :: bytes
  cr_slab_bytes :: "bytes option"
  cr_original_drop_count :: nat
  cr_compacted_drop_count :: nat
  cr_reclaimed_drops :: nat

record extracted_drop =
  xd_id :: bytes
  xd_compressed :: bytes
  xd_codec :: u8
  xd_plaintext_len :: u32
  xd_flags :: u8

section \<open>Finding and keeping the referenced drops\<close>

definition inode_drop_ids :: "inode \<Rightarrow> bytes list" where
  "inode_drop_ids i = (case in_content_handle i of SliceMap slices \<Rightarrow> map sl_drop_id slices | _ \<Rightarrow> [])"

definition find_referenced_drops :: "metadata_reference \<Rightarrow> bytes set outcome" where
  "find_referenced_drops meta_ref =
     (case mr_inline_metadata meta_ref of
        None \<Rightarrow> Inr {}
      | Some blob_bytes \<Rightarrow>
          (case parse_metadata_blob (cursor_new blob_bytes) of
             Inl e \<Rightarrow> Inl e
           | Inr (blob, _) \<Rightarrow> Inr (fold (\<lambda>i ids. fold insert (inode_drop_ids i) ids) (mb_inodes blob) {})))"

text \<open>The first phase of \<open>compact_image\<close>: everything up to the slab index is parsed for the set of references.\<close>

definition referenced_drops :: "decompressor \<Rightarrow> bytes \<Rightarrow> bytes set outcome" where
  "referenced_drops dec manifest_bytes =
     (case pbind parse_manifest_header (\<lambda>_.
           pbind parse_feature_flags_section (\<lambda>_.
           pbind (parse_metadata_reference dec) (\<lambda>meta_ref.
           pbind (plift (find_referenced_drops meta_ref)) (\<lambda>referenced.
           pbind parse_slab_index (\<lambda>_. pret referenced))))) (cursor_new manifest_bytes) of
        Inl e \<Rightarrow> Inl e | Inr (referenced, _) \<Rightarrow> Inr referenced)"

fun keep_drops :: "bytes set \<Rightarrow> bytes \<Rightarrow> nat \<Rightarrow> drop_record list \<Rightarrow> extracted_drop list \<Rightarrow> extracted_drop list" where
  "keep_drops referenced slab_bytes win_start [] kept = kept"
| "keep_drops referenced slab_bytes win_start (rd # rds) kept =
     (if dr_drop_id rd \<in> referenced then
        let start = win_start + unat (dr_offset_in_window rd);
            end_pos = start + unat (dr_len_in_window rd)
        in if end_pos > length slab_bytes then keep_drops referenced slab_bytes win_start rds kept
           else keep_drops referenced slab_bytes win_start rds
                  (kept @ [\<lparr>xd_id = dr_drop_id rd, xd_compressed = take (end_pos - start) (drop start slab_bytes),
                     xd_codec = codec (dr_representation rd), xd_plaintext_len = dr_plaintext_len rd,
                     xd_flags = dr_flags rd\<rparr>])
      else keep_drops referenced slab_bytes win_start rds kept)"

section \<open>The new slab\<close>

text \<open>\<open>u32::try_from(n).unwrap_or(0)\<close>.\<close>

definition u32_or_zero :: "nat \<Rightarrow> u32" where
  "u32_or_zero n = (case u32_try_from n of None \<Rightarrow> 0 | Some w \<Rightarrow> w)"

fun compacted_slab_loop :: "extracted_drop list \<Rightarrow> bytes \<Rightarrow> bytes \<Rightarrow> bytes \<times> bytes" where
  "compacted_slab_loop [] drop_records solid_window = (drop_records, solid_window)"
| "compacted_slab_loop (d # ds) drop_records solid_window =
     compacted_slab_loop ds
       (drop_records @ xd_id d @ u32_to_le_bytes (xd_plaintext_len d) @ [xd_codec d, 0x00, 0x00] @ [0x00]
         @ u32_to_le_bytes (u32_or_zero (length solid_window))
         @ u32_to_le_bytes (u32_or_zero (length (xd_compressed d))) @ [NO_DICT] @ [xd_flags d])
       (solid_window @ xd_compressed d)"

definition encode_compacted_slab :: "(bytes \<Rightarrow> bytes) \<Rightarrow> extracted_drop list \<Rightarrow> bytes \<times> slab_id" where
  "encode_compacted_slab H drops =
     (case compacted_slab_loop drops [] [] of
        (drop_records, solid_window) \<Rightarrow>
          (let content = drop_records @ solid_window;
               sid = \<lparr>ordinal = 0, slab_hash = hash_section H content\<rparr>;
               total_length = 56 + length content
           in (SLAB_MAGIC @ u16_to_le_bytes 1 @ slab_id_to_bytes sid @ u64_to_le_bytes (word_of_nat total_length)
                 @ [0x00] @ [0x00] @ content, sid)))"

section \<open>The new manifest\<close>

definition compacted_locator :: bytes where
  "compacted_locator = ascii ''file:slab-0.bin''"

definition compacted_slab_index :: "slab_id \<Rightarrow> bytes" where
  "compacted_slab_index sid =
     [SLAB_INDEX_SECTION_VERSION] @ u32_to_le_bytes 1 @ slab_id_to_bytes sid @ u32_to_le_bytes 1
     @ u32_to_le_bytes (u32_or_zero (length compacted_locator)) @ compacted_locator"

definition compacted_history :: bytes where
  "compacted_history =
     [HISTORY_SECTION_VERSION] @ u32_to_le_bytes 1 @ [0x04] @ u64_to_le_bytes 0 @ u32_to_le_bytes 0 @ u32_to_le_bytes 0"

text \<open>The spans of the sections copied verbatim, then the old slab index and history are skipped.\<close>

definition reassemble_manifest :: "(bytes \<Rightarrow> bytes) \<Rightarrow> decompressor \<Rightarrow> bytes \<Rightarrow> slab_id \<Rightarrow> (bytes \<times> bytes) outcome" where
  "reassemble_manifest H dec source sid =
     (case pbind (pspan (
             pbind (pspan parse_manifest_header) (\<lambda>(_, header).
             pbind (pspan parse_feature_flags_section) (\<lambda>(_, flags).
             pbind (pspan (parse_metadata_reference dec)) (\<lambda>(meta_ref, meta_ref_bytes).
             pret (header, flags, meta_ref, meta_ref_bytes)))))) (\<lambda>(sections, prefix).
           pbind parse_slab_index (\<lambda>_.
           pbind parse_history (\<lambda>_.
           pret (sections, prefix)))) (cursor_new source) of
        Inl e \<Rightarrow> Inl e
      | Inr (((header, flags, meta_ref, meta_ref_bytes), prefix), _) \<Rightarrow>
          Inr (prefix @ compacted_slab_index sid @ compacted_history,
            compute_merkle_root H
              \<lparr>sh_metadata = mr_metadata_hash meta_ref, sh_format_header = hash_section H header,
               sh_feature_flags = hash_section H flags, sh_metadata_reference = hash_section H meta_ref_bytes,
               sh_slab_index = hash_section H (compacted_slab_index sid), sh_crypto_params = hash_empty_section H,
               sh_ec_params = hash_empty_section H, sh_dms_policy = hash_empty_section H,
               sh_delta_linkage = hash_empty_section H, sh_history = hash_section H compacted_history\<rparr>))"

definition compact_image :: "(bytes \<Rightarrow> bytes) \<Rightarrow> decompressor \<Rightarrow> bytes \<Rightarrow> bytes \<Rightarrow> compaction_result outcome" where
  "compact_image H dec manifest_bytes slab_bytes =
     (case referenced_drops dec manifest_bytes of
        Inl e \<Rightarrow> Inl e
      | Inr referenced \<Rightarrow>
          (case parse_slab slab_bytes of
             Inl e \<Rightarrow> Inl e
           | Inr view \<Rightarrow>
               (let original_count = length (sv_drop_records view);
                    kept = keep_drops referenced slab_bytes (sv_solid_window_start view) (sv_drop_records view) [];
                    (new_slab_bytes, new_slab_id) = encode_compacted_slab H kept
                in case reassemble_manifest H dec manifest_bytes new_slab_id of
                     Inl e \<Rightarrow> Inl e
                   | Inr (manifest, root) \<Rightarrow>
                       Inr \<lparr>cr_manifest_bytes = manifest, cr_merkle_root = root, cr_slab_bytes = Some new_slab_bytes,
                            cr_original_drop_count = original_count, cr_compacted_drop_count = length kept,
                            cr_reclaimed_drops = original_count - length kept\<rparr>)))"

section \<open>The new slab is one the writer could have written\<close>

definition pending_of :: "extracted_drop \<Rightarrow> pending_drop" where
  "pending_of d = \<lparr>pd_id = xd_id d, pd_plaintext_len = xd_plaintext_len d, pd_compressed = xd_compressed d,
     pd_codec = xd_codec d, pd_dict_id = NO_DICT, pd_plaintext = None, pd_flags = xd_flags d\<rparr>"

lemma pending_of_sel [simp]:
  "pd_id (pending_of d) = xd_id d" "pd_plaintext_len (pending_of d) = xd_plaintext_len d"
  "pd_compressed (pending_of d) = xd_compressed d" "pd_codec (pending_of d) = xd_codec d"
  "pd_dict_id (pending_of d) = NO_DICT" "pd_flags (pending_of d) = xd_flags d"
  by (simp_all add: pending_of_def)

lemma u32_or_zero [simp]: "n < 2 ^ 32 \<Longrightarrow> u32_or_zero n = word_of_nat n"
  by (simp add: u32_or_zero_def)

lemma compacted_slab_loop_eq:
  "length win + comp_sum (map pending_of ds) < 2 ^ 32 \<Longrightarrow>
     compacted_slab_loop ds recs win
       = (recs @ concat (map encode_drop_record (records_of (length win) (map pending_of ds))),
          win @ concat (map xd_compressed ds))"
proof (induction ds arbitrary: recs win)
  case (Cons d ds)
  have "length (xd_compressed d) < 2 ^ 32" "length win < 2 ^ 32"
    "length (win @ xd_compressed d) + comp_sum (map pending_of ds) < 2 ^ 32"
    using Cons.prems by simp_all
  with Cons.IH [OF this(3)] show ?case
    by (simp add: encode_drop_record_def record_of_def representation_to_bytes_def)
qed simp

lemma encode_compacted_slab_eq:
  assumes "comp_sum (map pending_of ds) < 2 ^ 32"
  obtains a where "encode_slab H 0 (map pending_of ds) = Some a" "encode_compacted_slab H ds = (sa_bytes a, sa_id a)"
proof -
  have c: "slab_content (map pending_of ds)
      = concat (map encode_drop_record (records_of 0 (map pending_of ds))) @ concat (map xd_compressed ds)"
    by (simp add: slab_content_def comp_def)
  have l: "compacted_slab_loop ds [] []
      = (concat (map encode_drop_record (records_of 0 (map pending_of ds))), concat (map xd_compressed ds))"
    using compacted_slab_loop_eq [of "[]" ds "[]"] assms by simp
  obtain a where a: "encode_slab H 0 (map pending_of ds) = Some a"
    using assms by (simp only: encode_slab_eq if_True)
  then have "a = the (encode_slab H 0 (map pending_of ds))" by simp
  then have "encode_compacted_slab H ds = (sa_bytes a, sa_id a)"
    by (simp only: encode_slab_eq assms if_True option.sel)
      (simp add: encode_compacted_slab_def Let_def l c hash_section_def SLAB_HEADER_LEN_def)
  with a show thesis by (rule that)
qed

text \<open>Which drops are kept, as a filter of the records.\<close>

definition extract_drop :: "bytes \<Rightarrow> nat \<Rightarrow> drop_record \<Rightarrow> extracted_drop" where
  "extract_drop bs ws rd = \<lparr>xd_id = dr_drop_id rd,
     xd_compressed = take (unat (dr_len_in_window rd)) (drop (ws + unat (dr_offset_in_window rd)) bs),
     xd_codec = codec (dr_representation rd), xd_plaintext_len = dr_plaintext_len rd, xd_flags = dr_flags rd\<rparr>"

definition kept_record :: "bytes set \<Rightarrow> bytes \<Rightarrow> nat \<Rightarrow> drop_record \<Rightarrow> bool" where
  "kept_record refs bs ws rd \<longleftrightarrow> dr_drop_id rd \<in> refs
     \<and> ws + unat (dr_offset_in_window rd) + unat (dr_len_in_window rd) \<le> length bs"

lemma keep_drops_filter:
  "keep_drops refs bs ws rds kept = kept @ map (extract_drop bs ws) (filter (kept_record refs bs ws) rds)"
  by (induction rds arbitrary: kept) (auto simp: Let_def kept_record_def extract_drop_def)

lemma kept_lengths:
  "sum_list (map (\<lambda>d. length (xd_compressed d)) (map (extract_drop bs ws) (filter (kept_record refs bs ws) rds)))
    \<le> window_sum rds"
  by (induction rds) (auto simp: extract_drop_def)

lemma kept_slab_size:
  assumes "slab_layout v"
  shows "slab_size (map pending_of (map (extract_drop bs ws) (filter (kept_record refs bs ws) (sv_drop_records v))))
    \<le> unat DEFAULT_SLAB_MAX_BYTES"
proof -
  let ?rds = "sv_drop_records v"
  let ?kept = "map (extract_drop bs ws) (filter (kept_record refs bs ws) ?rds)"
  have w: "length (sv_bytes v) = SLAB_HEADER_LEN + DROP_RECORD_LEN * length ?rds + window_sum ?rds"
    using assms length_encode_slab_header [of DEFAULT_SLAB_MAX_BYTES "sv_header v"]
      length_encode_records [of ?rds "sv_header v" DEFAULT_DROP_MAX_PLAINTEXT_BYTES]
    unfolding slab_layout_def by auto
  have "length (sv_bytes v) \<le> unat DEFAULT_SLAB_MAX_BYTES"
    using assms by (simp add: slab_layout_def valid_slab_header_def)
  moreover have "comp_sum (map pending_of ?kept) \<le> window_sum ?rds"
    using kept_lengths [of bs ws refs ?rds] by (simp add: comp_def)
  moreover have "length ?kept \<le> length ?rds" by simp
  then have "DROP_RECORD_LEN * length ?kept \<le> DROP_RECORD_LEN * length ?rds" by (rule mult_le_mono2)
  ultimately show ?thesis unfolding slab_size_def w length_map by linarith
qed

lemma find_filter_distinct:
  assumes "distinct (map f xs)"
  shows "find (\<lambda>x. f x = k) (filter P xs) = (case find (\<lambda>x. f x = k) xs of None \<Rightarrow> None | Some x \<Rightarrow> if P x then Some x else None)"
  using assms
proof (induction xs)
  case (Cons x xs)
  have "find (\<lambda>y. f y = k) (filter P xs) = None" if "f x = k"
    using that Cons.prems by (auto simp: find_None_iff image_iff)
  with Cons show ?case by (cases "f x = k") simp_all
qed simp

text \<open>Reading a kept drop from the new slab decodes the bytes the old slab had for it.\<close>

lemma extract_window: "sv_bytes v = bs \<Longrightarrow> xd_compressed (extract_drop bs (sv_solid_window_start v) rd) = window_bytes v rd"
  by (simp add: extract_drop_def window_bytes_def)

lemma decode_kept:
  assumes "dr_dict_id rd = NO_DICT"
  shows "decode_drop_bytes dec ddec (record_of 0 (pending_of (extract_drop bs ws rd))) raw dl = decode_drop_bytes dec ddec rd raw dl"
  using assms by (simp add: decode_drop_bytes_def record_of_def extract_drop_def is_seekable_record_def)

text \<open>The view of the new slab.\<close>

lemma compacted_slab_reads:
  assumes hash: "\<forall>x. length (H x) = 32" and v: "parse_slab bs = Inr v"
    and ids: "distinct (map dr_drop_id (sv_drop_records v))"
    and enc: "encode_compacted_slab H (keep_drops refs bs (sv_solid_window_start v) (sv_drop_records v) []) = (new, sid)"
  obtains v' where "parse_slab new = Inr v'"
    "\<And>i. find_record v' i = None \<longleftrightarrow> (\<forall>rd. find_record v i = Some rd \<longrightarrow> \<not> kept_record refs bs (sv_solid_window_start v) rd)"
    "\<And>i rd dec ddec dl. find_record v i = Some rd \<Longrightarrow> kept_record refs bs (sv_solid_window_start v) rd \<Longrightarrow>
       plaintext_for_with_dict_lookup dec ddec v' i dl
         = Some (decode_drop_bytes dec ddec (record_of 0 (pending_of (extract_drop bs (sv_solid_window_start v) rd))) (window_bytes v rd) dl)"
proof -
  have bs: "sv_bytes v = bs" and lay: "slab_layout v" using v by (simp_all add: parse_slab_layout)
  let ?ws = "sv_solid_window_start v" and ?rds = "sv_drop_records v"
  define kept where "kept = filter (kept_record refs bs ?ws) ?rds"
  define ds where "ds = map pending_of (map (extract_drop bs ?ws) kept)"
  have size: "slab_size ds \<le> unat DEFAULT_SLAB_MAX_BYTES" unfolding ds_def kept_def by (rule kept_slab_size [OF lay])
  then have "comp_sum ds < 2 ^ 32" by (simp add: slab_size_def DEFAULT_SLAB_MAX_BYTES_def)
  then obtain a where a: "encode_slab H 0 ds = Some a" "new = sa_bytes a"
    using encode_compacted_slab_eq [of "map (extract_drop bs ?ws) kept" H] enc
    unfolding ds_def keep_drops_filter append_Nil kept_def [symmetric] by (metis fst_conv)
  have wr: "\<forall>d \<in> set ds. writable_drop d"
    using lay by (auto simp: ds_def kept_def writable_drop_def extract_drop_def slab_layout_def valid_drop_record_def)
  have pid: "map pd_id ds = map dr_drop_id kept" by (simp add: ds_def extract_drop_def)
  have dist: "distinct (map pd_id ds)" unfolding pid kept_def using ids by (rule distinct_map_filter)
  have found: "find (\<lambda>r. dr_drop_id r = i) kept
      = (case find_record v i of None \<Rightarrow> None | Some rd \<Rightarrow> if kept_record refs bs ?ws rd then Some rd else None)" for i
    unfolding kept_def find_record_def by (rule find_filter_distinct [OF ids])
  have "find_record (view_of a ds) i = None \<longleftrightarrow> find (\<lambda>r. dr_drop_id r = i) kept = None" for i
  proof -
    have "map dr_drop_id (sv_drop_records (view_of a ds)) = map dr_drop_id kept"
      by (rule nth_equalityI) (simp_all add: view_of_def ds_def records_of_nth record_of_def extract_drop_def)
    then have "i \<in> set (map dr_drop_id (sv_drop_records (view_of a ds))) \<longleftrightarrow> i \<in> set (map dr_drop_id kept)" by simp
    then show ?thesis by (auto simp: find_record_def find_None_iff image_iff)
  qed
  then have none: "find_record (view_of a ds) i = None
      \<longleftrightarrow> (\<forall>rd. find_record v i = Some rd \<longrightarrow> \<not> kept_record refs bs ?ws rd)" for i
    by (auto simp: found split: option.splits if_splits)
  show thesis
  proof (rule that [OF _ none])
    show "parse_slab new = Inr (view_of a ds)" unfolding a(2) by (rule parse_encode_slab(1) [OF hash wr size a(1)])
    fix i rd dec ddec dl
    assume rd: "find_record v i = Some rd" "kept_record refs bs ?ws rd"
    let ?d = "pending_of (extract_drop bs ?ws rd)"
    from rd found [of i] have "rd \<in> set kept \<and> dr_drop_id rd = i" by (auto dest: find_SomeD)
    then have "?d \<in> set ds" "pd_id ?d = i" by (auto simp: ds_def extract_drop_def)
    from slab_read_nth [OF hash wr dist size a(1) this(1), of dec ddec dl] this(2)
    show "plaintext_for_with_dict_lookup dec ddec (view_of a ds) i dl
        = Some (decode_drop_bytes dec ddec (record_of 0 ?d) (window_bytes v rd) dl)"
      by (simp add: extract_window [OF bs])
  qed
qed

section \<open>What compaction keeps\<close>


text \<open>The dictionary id of a record does not survive, and an image whose metadata is not inlined loses every drop.\<close>

lemma compaction_forgets_dictionaries: "dr_dict_id (record_of off (pending_of (extract_drop bs ws rd))) = NO_DICT"
  by (simp add: record_of_def)

lemma compaction_of_sidecar_metadata:
  assumes "mr_inline_metadata meta_ref = None"
  shows "find_referenced_drops meta_ref = Inr {} \<and> keep_drops {} bs ws rds [] = []"
  using assms by (simp add: find_referenced_drops_def keep_drops_filter kept_record_def)

section \<open>The new manifest\<close>

definition compacted_index :: "slab_id \<Rightarrow> slab_index" where
  "compacted_index sid = \<lparr>si_entries = [\<lparr>sie_slab_id = sid, sie_locators = [\<lparr>uri = compacted_locator\<rparr>]\<rparr>]\<rparr>"

lemma compacted_locator_valid: "valid_locator DEFAULT_LOCATOR_MAX_URI_BYTES \<lparr>uri = compacted_locator\<rparr>"
  by (simp add: valid_locator_def compacted_locator_def ascii_def split_once_def is_valid_scheme_def is_ascii_alphabetic_def
      is_ascii_alphanumeric_def DEFAULT_LOCATOR_MAX_URI_BYTES_def)

lemma compacted_index_parses:
  assumes "length (slab_hash sid) = 32"
  shows "parses parse_slab_index (compacted_slab_index sid) (compacted_index sid)"
proof -
  have "encode_slab_index (compacted_index sid) = Some (compacted_slab_index sid)"
    by (simp add: encode_slab_index_def compacted_index_def encode_slab_index_entry_def encode_locator_def
        compacted_slab_index_def compacted_locator_def ascii_def u32_try_from_def u32_or_zero_def)
  moreover have "valid_slab_index DEFAULT_LOCATOR_MAX_URI_BYTES (compacted_index sid)"
    using assms compacted_locator_valid
    by (simp add: valid_slab_index_def compacted_index_def valid_slab_index_entry_def keyed_ok_def)
  ultimately show ?thesis unfolding parse_slab_index_def by (intro slab_index.encode_parse)
qed

lemma compacted_history_parses:
  "parses parse_history compacted_history \<lparr>h_entries = [\<lparr>he_op = Turnover, he_timestamp_ns = 0, he_inputs = [], he_params = []\<rparr>]\<rparr>"
proof -
  let ?h = "\<lparr>h_entries = [\<lparr>he_op = Turnover, he_timestamp_ns = 0, he_inputs = [], he_params = []\<rparr>]\<rparr>"
  have "encode_history ?h = Some compacted_history"
    by (simp add: encode_history_def encode_history_entry_def compacted_history_def u32_try_from_def)
  moreover have "valid_history DEFAULT_HISTORY_PARAMS_MAX_BYTES ?h"
    by (simp add: valid_history_def valid_history_entry_def)
  ultimately show ?thesis unfolding parse_history_def by (intro history.encode_parse)
qed

text \<open>The feature flags of a manifest.\<close>

definition manifest_flags :: "bytes \<Rightarrow> feature_flags option" where
  "manifest_flags bs =
     (case pbind parse_manifest_header (\<lambda>_. parse_feature_flags_section) (cursor_new bs) of
        Inl _ \<Rightarrow> None | Inr (flags, _) \<Rightarrow> Some flags)"

text \<open>The copied prefix of a source that reassembles: three sections, each parsed by its own parser.\<close>

definition prefix_of :: "decompressor \<Rightarrow> feature_flags \<Rightarrow> bytes \<times> bytes \<times> metadata_reference \<times> bytes \<Rightarrow> bytes \<Rightarrow> bool" where
  "prefix_of dec ff ss b \<longleftrightarrow>
     (case ss of (header, flags, meta_ref, mr) \<Rightarrow> b = header @ flags @ mr
        \<and> (\<exists>h. parses parse_manifest_header header h) \<and> parses parse_feature_flags_section flags ff
        \<and> parses (parse_metadata_reference dec) mr meta_ref)"

lemma preads_prefix:
  "preads (pbind (pspan parse_manifest_header) (\<lambda>(_, header).
     pbind (pspan parse_feature_flags_section) (\<lambda>(_, flags).
     pbind (pspan (parse_metadata_reference dec)) (\<lambda>(meta_ref, meta_ref_bytes).
     pret (header, flags, meta_ref, meta_ref_bytes))))) (\<lambda>ss b. \<exists>ff. prefix_of dec ff ss b)"
  unfolding parse_metadata_reference_def
proof (intro preads_span_bind [OF header.parse_encode] preads_span_bind [OF flags.parse_encode]
    preads_span_bind [OF preads_metaref] preads_pret, goal_cases)
  case (1 h hb ff fb mr mb)
  have "parses parse_manifest_header hb h" using 1(1) header.encode_parse by blast
  moreover have "parses parse_feature_flags_section fb ff" using 1(2) flags.encode_parse by blast
  moreover have "parses (parse_metadata_reference dec) mb mr"
    using 1(3) metaref_decodes_parses unfolding parse_metadata_reference_def by blast
  ultimately show ?case by (auto simp: prefix_of_def)
qed

lemma reassemble_prefix:
  assumes "reassemble_manifest H dec source sid = Inr (new, root)"
  obtains header flags meta_ref mr ff rest where "prefix_of dec ff (header, flags, meta_ref, mr) (header @ flags @ mr)"
    "source = header @ flags @ mr @ rest" "new = header @ flags @ mr @ compacted_slab_index sid @ compacted_history"
    "root = root_of H (mr_metadata_hash meta_ref) header flags mr (compacted_slab_index sid) [] [] compacted_history False False"
proof -
  let ?inner = "pbind (pspan parse_manifest_header) (\<lambda>(_, header).
     pbind (pspan parse_feature_flags_section) (\<lambda>(_, flags).
     pbind (pspan (parse_metadata_reference dec)) (\<lambda>(meta_ref, meta_ref_bytes).
     pret (header, flags, meta_ref, meta_ref_bytes))))"
  from assms obtain header flags meta_ref mr prefix c where run: "pspan ?inner (cursor_new source) = Inr (((header, flags, meta_ref, mr), prefix), c)"
    and out: "new = prefix @ compacted_slab_index sid @ compacted_history"
      "root = root_of H (mr_metadata_hash meta_ref) header flags mr (compacted_slab_index sid) [] [] compacted_history False False"
    by (auto simp: reassemble_manifest_def root_of_def pbind_def [of "pspan ?inner"] pbind_def [of parse_slab_index]
        pbind_def [of parse_history] pret_def split: sum.splits prod.splits)
  from preads_new [OF preads_span [OF preads_prefix] run] obtain b rest ff
    where "source = b @ rest" "prefix = b" "prefix_of dec ff (header, flags, meta_ref, mr) b" by auto
  moreover from this(3) have "b = header @ flags @ mr" by (simp add: prefix_of_def)
  ultimately show thesis using out by (intro that [of ff header flags meta_ref mr rest]) simp_all
qed

lemma parses_absent_optional: "\<not> present \<Longrightarrow> parses (poptional present p) [] None"
  by (simp add: poptional_def parses_pret)


section \<open>An image with one file\<close>

definition slice_blob :: bytes where
  "slice_blob = [1, 0, 0, 0, 2, 0, 0, 0, 0, 0, 0, 0, 164, 129, 0, 0, 0, 0, 0, 0, 0, 0, 0, 0, 0, 0, 0, 0, 0, 0, 0, 0, 0, 0, 0, 0,
     0, 0, 0, 0, 1, 0, 0, 0, 0, 1, 0, 0, 0, 0, 0, 0, 0, 0, 0, 0, 0, 5, 0, 0, 0, 0, 0, 0, 0, 1, 1, 1, 1, 1, 1, 1, 1,
     1, 1, 1, 1, 1, 1, 1, 1, 1, 1, 1, 1, 1, 1, 1, 1, 1, 1, 1, 1, 1, 1, 1, 1, 0, 0, 0, 0, 5, 0, 0, 0, 0, 0, 0, 0]"

definition slice_inode :: inode where
  "slice_inode = \<lparr>in_number = 2, in_mode = 0x81A4, in_uid = 0, in_gid = 0, in_mtime_ns = 0, in_ctime_ns = 0, in_nlink = 1,
     in_atime_ns = None, in_xattrs = [], in_content_handle = SliceMap
       [\<lparr>file_byte_start = 0, file_byte_end = 5, sl_drop_id = replicate 32 1, drop_byte_start = 0, drop_byte_len = 5\<rparr>]\<rparr>"

definition slice_manifest :: bytes where
  "slice_manifest = [76, 77, 70, 83, 1, 0, 1, 0, 1, 0, 0, 0, 0, 0, 0, 0, 1, 0, 0, 0, 0, 1, 7, 7, 7, 7, 7, 7, 7, 7, 7, 7, 7, 7, 7, 7,
     7, 7, 7, 7, 7, 7, 7, 7, 7, 7, 7, 7, 7, 7, 7, 7, 7, 7, 0, 0, 0, 0, 109, 0, 0, 0]
     @ slice_blob @ [1, 0, 0, 0, 0] @ [1, 1, 0, 0, 0, 1, 0, 0, 0, 0, 0, 0, 0, 0, 0, 0, 0, 0, 0, 0, 0, 0]"

lemma replicate_32_1: "replicate 32 (1 :: byte)
    = [1, 1, 1, 1, 1, 1, 1, 1, 1, 1, 1, 1, 1, 1, 1, 1, 1, 1, 1, 1, 1, 1, 1, 1, 1, 1, 1, 1, 1, 1, 1, 1]"
  by code_simp

lemma slice_blob_parses:
  "parse_metadata_blob (cursor_new slice_blob)
     = Inr (\<lparr>mb_inodes = [slice_inode], mb_dir_nodes = []\<rparr>, \<lparr>cur_bytes = slice_blob, cur_pos = 109\<rparr>)"
  by (simp add: parse_metadata_blob_def DEFAULT_INLINE_DATA_MAX_BYTES_def parse_metadata_blob_with_ceiling_def slice_blob_def
      parse_inodes_def parser_eval INODE_FIXED_PREFIX_LEN_def parse_inode_with_ceiling_def inode_flag_defs
      parse_content_handle_def parse_slice_ref_def validate_slice_map_def
      file_type_defs S_IFMT_def parse_dir_nodes_def slice_inode_def premaining_len_def replicate_32_1)

lemma slice_manifest_refers: "referenced_drops no_codec slice_manifest = Inr {replicate 32 1}"
proof -
  have "find_referenced_drops \<lparr>mr_metadata_hash = h, mr_locators = [], mr_inline_metadata = Some slice_blob, mr_codec = cd,
      mr_uncompressed_len = n\<rparr> = Inr {replicate 32 1}" for h cd n
    by (simp add: find_referenced_drops_def slice_blob_parses inode_drop_ids_def slice_inode_def)
  then show ?thesis
    by (simp add: referenced_drops_def slice_manifest_def slice_blob_def manifest_eval)
qed

lemma slice_manifest_flags: "manifest_flags slice_manifest = Some \<lparr>ff_entries = []\<rparr>"
  by (simp add: manifest_flags_def slice_manifest_def slice_blob_def manifest_eval)

lemma slice_manifest_reassembles:
  assumes "length (slab_hash sid) = 32"
  obtains m root where "reassemble_manifest toy_hash no_codec slice_manifest sid = Inr (m, root)" "length m < usize_bound"
proof -
  let ?prefix = "take (length slice_manifest - 27) slice_manifest"
  have "\<exists>root. reassemble_manifest toy_hash no_codec slice_manifest sid = Inr (?prefix @ compacted_slab_index sid @ compacted_history, root)"
    by (simp add: reassemble_manifest_def slice_manifest_def slice_blob_def manifest_eval)
  moreover have "length (?prefix @ compacted_slab_index sid @ compacted_history) < usize_bound"
    using assms by (simp add: slice_manifest_def slice_blob_def compacted_slab_index_def compacted_history_def compacted_locator_def ascii_def)
  ultimately show thesis using that by blast
qed

lemma slice_image_compacts:
  obtains r where "compact_image toy_hash no_codec slice_manifest (sv_bytes example_view) = Inr r"
    "length (cr_manifest_bytes r) < usize_bound"
proof -
  obtain new sid where enc: "encode_compacted_slab toy_hash (keep_drops {replicate 32 1} (sv_bytes example_view)
    (sv_solid_window_start example_view) (sv_drop_records example_view) []) = (new, sid)" by fastforce
  then have "length (slab_hash sid) = 32"
    by (auto simp: encode_compacted_slab_def Let_def hash_section_def split: prod.splits)
  then obtain m root where "reassemble_manifest toy_hash no_codec slice_manifest sid = Inr (m, root)" "length m < usize_bound"
    by (rule slice_manifest_reassembles)
  then show thesis
    using that by (simp add: compact_image_def slice_manifest_refers example_view_parses enc Let_def)
qed



end
