(* ===== verification/Write_Context.thy ===== *)
theory Write_Context
  imports Slab_Writer Live_Tree
begin

unbundle bit_operations_syntax

text \<open>
  The writer's context (\<open>limnifs-write/src/lib.rs\<close>: \<open>SurveyMeta\<close>, \<open>MetadataPolicy\<close>, \<open>WriteContext\<close>): the fold of a surveyed
  tree into inodes and directory nodes, the merge of a chunked file, the shared inline table and the encoding of the
  metadata blob, for a Unix target with extended attributes.

  A failed \<open>expect\<close> or \<open>unwrap\<close> is \<^const>\<open>None\<close>, an error is a value of \<open>write_error\<close>. The classifier works with
  floating point and is an argument of the merge, which only uses it to pick dictionary samples.
\<close>

section \<open>Survey\<close>

datatype write_error =
  WriteIo string
| UnsupportedFileType bytes string
| InvalidSourceDateEpoch string u64

record survey_meta =
  sm_is_dir :: bool
  sm_is_file :: bool
  sm_is_symlink :: bool
  sm_is_fifo :: bool
  sm_is_socket :: bool
  sm_is_block_device :: bool
  sm_is_char_device :: bool
  sm_len :: u64
  sm_mtime_ns :: u64
  sm_mode :: u32
  sm_uid :: u32
  sm_gid :: u32
  sm_dev :: u64
  sm_ino :: u64
  sm_xattrs :: "(bytes \<times> bytes) list"

datatype survey_node =
  SurveyNode (sn_meta: survey_meta) (sn_children: "(bytes \<times> survey_node) list") (sn_symlink_target: "bytes option")

text \<open>The policy of reproducible images.\<close>

record metadata_policy =
  mp_pin_mtime_ns :: "u64 option"
  mp_normalize_identity :: bool

definition policy_resolve :: "u64 option \<Rightarrow> string \<Rightarrow> bool \<Rightarrow> write_error + metadata_policy" where
  "policy_resolve epoch_secs source normalize_metadata =
     (case epoch_secs of
        None \<Rightarrow> Inr \<lparr>mp_pin_mtime_ns = None, mp_normalize_identity = normalize_metadata\<rparr>
      | Some secs \<Rightarrow>
          if unat secs * 1000000000 < 2 ^ 64
          then Inr \<lparr>mp_pin_mtime_ns = Some (secs * 1000000000), mp_normalize_identity = normalize_metadata\<rparr>
          else Inl (InvalidSourceDateEpoch source secs))"

definition canonical_mode :: "u32 \<Rightarrow> u32" where
  "canonical_mode mode =
     (let ty = mode AND S_IFMT;
          perms = (if ty = S_IFDIR then 0x1ED
                   else if ty = S_IFLNK then 0x1FF
                   else if ty = S_IFREG \<and> mode AND 0x49 \<noteq> 0 then 0x1ED
                   else 0x1A4)
      in ty OR perms)"

definition policy_apply :: "metadata_policy \<Rightarrow> survey_meta \<Rightarrow> survey_meta" where
  "policy_apply policy meta =
     (let meta = (case mp_pin_mtime_ns policy of None \<Rightarrow> meta | Some pin \<Rightarrow> meta\<lparr>sm_mtime_ns := pin\<rparr>)
      in if mp_normalize_identity policy
         then meta\<lparr>sm_uid := 0, sm_gid := 0, sm_mode := canonical_mode (sm_mode meta)\<rparr>
         else meta)"

section \<open>The context\<close>

record pending_slice =
  ps_drop_id :: bytes
  ps_file_byte_start :: u64
  ps_file_byte_end :: u64

record pending_file =
  pf_inode_number :: u64
  pf_path :: bytes
  pf_mtime_ns :: u64
  pf_file_len :: u64
  pf_mode :: u32
  pf_uid :: u32
  pf_gid :: u32

datatype pending_content =
  Inline bytes
| SymlinkTo bytes
| DropBacked u64 "pending_slice list"
| DirectoryOf "dir_entry list"

record pending_inode =
  pi_number :: u64
  pi_mode :: u32
  pi_uid :: u32
  pi_gid :: u32
  pi_mtime_ns :: u64
  pi_xattrs :: "xattr list"
  pi_content :: pending_content

datatype content_class = Text | Code | Binary | Compressed | Media | Sparse | Incompressible

definition classes :: "content_class list" where
  "classes = [Text, Code, Binary, Compressed, Media, Sparse, Incompressible]"

record trained_dictionary =
  td_id :: u8
  td_codec :: u8
  td_content :: bytes

text \<open>The chunker, the classifier, the base image's drop index and dictionaries and the metadata policy configure the steps
  around the fold and are arguments there. \<open>wc_trained_dicts\<close> lists the trained dictionaries in the iteration order of
  their map. \<open>wc_pending_sink\<close> is the streaming channel: the number of files its receiver still takes before it is gone, and the
  files sent so far.\<close>

record write_context =
  wc_next_inode :: u64
  wc_hardlink_targets :: "u64 \<times> u64 \<rightharpoonup> u64"
  wc_nlink_counts :: "u64 \<rightharpoonup> u32"
  wc_inode_xattrs :: "u64 \<rightharpoonup> xattr list"
  wc_inodes :: "pending_inode list"
  wc_dir_nodes :: "dir_node list"
  wc_drops :: "pending_drop list"
  wc_drop_index :: "bytes set"
  wc_pending_files :: "pending_file list"
  wc_file_count :: nat
  wc_dir_count :: nat
  wc_root_inode_number :: u64
  wc_shared_inline_map :: "bytes \<rightharpoonup> nat"
  wc_shared_inline_table :: "bytes list"
  wc_profile_name :: "bytes option"
  wc_metadata_codec :: u8
  wc_categorizers_disabled :: bool
  wc_rw_mode :: bool
  wc_auto_turnover :: bool
  wc_collect_dict_samples :: bool
  wc_dict_samples :: "content_class \<Rightarrow> bytes list"
  wc_trained_dicts :: "(content_class \<times> trained_dictionary) list"
  wc_base_root :: "bytes option"
  wc_metadata_externalize_threshold :: nat
  wc_emit_shared_inline :: bool
  wc_inline_threshold :: nat
  wc_pending_sink :: "(nat \<times> pending_file list) option"

definition MAX_DICT_SAMPLES :: nat where
  "MAX_DICT_SAMPLES = 1000"

definition INLINE_THRESHOLD :: nat where
  "INLINE_THRESHOLD = 4096"

definition METADATA_EXTERNALIZE_THRESHOLD :: nat where
  "METADATA_EXTERNALIZE_THRESHOLD = unat DEFAULT_INLINE_METADATA_MAX_BYTES - 24 * 1024"

definition CODEC_BROTLI :: u8 where
  "CODEC_BROTLI = 0x04"

definition write_context_new :: write_context where
  "write_context_new = \<lparr>wc_next_inode = 1, wc_hardlink_targets = Map.empty, wc_nlink_counts = Map.empty,
     wc_inode_xattrs = Map.empty, wc_inodes = [], wc_dir_nodes = [], wc_drops = [], wc_drop_index = {},
     wc_pending_files = [], wc_file_count = 0, wc_dir_count = 0, wc_root_inode_number = 0,
     wc_shared_inline_map = Map.empty, wc_shared_inline_table = [], wc_profile_name = None, wc_metadata_codec = CODEC_BROTLI,
     wc_categorizers_disabled = False, wc_rw_mode = False, wc_auto_turnover = False,
     wc_collect_dict_samples = False, wc_dict_samples = (\<lambda>_. []), wc_trained_dicts = [], wc_base_root = None,
     wc_metadata_externalize_threshold = METADATA_EXTERNALIZE_THRESHOLD, wc_emit_shared_inline = True, wc_inline_threshold = INLINE_THRESHOLD, wc_pending_sink = None\<rparr>"

definition alloc_inode :: "write_context \<Rightarrow> u64 \<times> write_context" where
  "alloc_inode ctx = (wc_next_inode ctx, ctx\<lparr>wc_next_inode := wc_next_inode ctx + 1\<rparr>)"

definition push_inode :: "u64 \<Rightarrow> survey_meta \<Rightarrow> pending_content \<Rightarrow> write_context \<Rightarrow> write_context" where
  "push_inode n meta content ctx = ctx\<lparr>wc_inodes := wc_inodes ctx @
     [\<lparr>pi_number = n, pi_mode = sm_mode meta, pi_uid = sm_uid meta, pi_gid = sm_gid meta,
       pi_mtime_ns = sm_mtime_ns meta, pi_xattrs = [], pi_content = content\<rparr>]\<rparr>"

definition to_core_xattrs :: "(bytes \<times> bytes) list \<Rightarrow> xattr list" where
  "to_core_xattrs raw = map (\<lambda>(key, val). \<lparr>xa_namespace = 0, xa_key = key, xa_value = val\<rparr>) raw"

definition note_xattrs :: "u64 \<Rightarrow> survey_meta \<Rightarrow> write_context \<Rightarrow> write_context" where
  "note_xattrs n meta ctx =
     (if sm_xattrs meta \<noteq> []
      then ctx\<lparr>wc_inode_xattrs := (wc_inode_xattrs ctx)(n \<mapsto> to_core_xattrs (sm_xattrs meta))\<rparr> else ctx)"

section \<open>The fold\<close>

text \<open>A deferred file goes to the streaming channel when there is one, else to the pending files.\<close>

definition defer_file :: "pending_file \<Rightarrow> write_context \<Rightarrow> write_error + write_context" where
  "defer_file pf ctx =
     (case wc_pending_sink ctx of
        None \<Rightarrow> Inr (ctx\<lparr>wc_pending_files := wc_pending_files ctx @ [pf]\<rparr>)
      | Some (0, sent) \<Rightarrow> Inl (WriteIo ''walk: compress pipeline shut down'')
      | Some (Suc k, sent) \<Rightarrow> Inr (ctx\<lparr>wc_pending_sink := Some (k, sent @ [pf])\<rparr>))"

definition fold_file :: "(bytes \<Rightarrow> string + bytes) \<Rightarrow> bytes \<Rightarrow> survey_meta \<Rightarrow> write_context
    \<Rightarrow> write_error + u64 \<times> write_context" where
  "fold_file read path meta ctx =
     (case wc_hardlink_targets ctx (sm_dev meta, sm_ino meta) of
        Some existing \<Rightarrow>
          (let count = (case wc_nlink_counts ctx existing of None \<Rightarrow> 1 | Some c \<Rightarrow> c)
           in Inr (existing, ctx\<lparr>wc_nlink_counts := (wc_nlink_counts ctx)(existing \<mapsto> count + 1)\<rparr>))
      | None \<Rightarrow>
          (case alloc_inode (ctx\<lparr>wc_file_count := Suc (wc_file_count ctx)\<rparr>) of
             (n, ctx) \<Rightarrow>
               (let ctx = ctx\<lparr>wc_hardlink_targets := (wc_hardlink_targets ctx)((sm_dev meta, sm_ino meta) \<mapsto> n)\<rparr>
                in if unat (sm_len meta) \<le> wc_inline_threshold ctx
                   then case read path of
                          Inl e \<Rightarrow> Inl (WriteIo e)
                        | Inr content \<Rightarrow> Inr (n, push_inode n meta (Inline content) (note_xattrs n meta ctx))
                   else case defer_file \<lparr>pf_inode_number = n, pf_path = path, pf_mtime_ns = sm_mtime_ns meta,
                               pf_file_len = sm_len meta, pf_mode = sm_mode meta, pf_uid = sm_uid meta,
                               pf_gid = sm_gid meta\<rparr> (note_xattrs n meta ctx) of
                          Inl e \<Rightarrow> Inl e
                        | Inr ctx \<Rightarrow> Inr (n, ctx))))"

definition unsupported_kind :: "survey_meta \<Rightarrow> string" where
  "unsupported_kind meta =
     (if sm_is_fifo meta then ''fifo'' else if sm_is_socket meta then ''socket''
      else if sm_is_block_device meta then ''block device''
      else if sm_is_char_device meta then ''character device'' else ''unknown'')"

definition entry_type_of :: "survey_meta \<Rightarrow> u8" where
  "entry_type_of meta = (if sm_is_symlink meta then 0x03 else if sm_is_dir meta then 0x02 else 0x01)"

function (sequential) fold_survey :: "(bytes \<Rightarrow> bytes) \<Rightarrow> (bytes \<Rightarrow> string + bytes) \<Rightarrow> bytes \<Rightarrow> survey_node \<Rightarrow> bytes option
      \<Rightarrow> write_context \<Rightarrow> (write_error + u64 \<times> write_context) option"
  and fold_children :: "(bytes \<Rightarrow> bytes) \<Rightarrow> (bytes \<Rightarrow> string + bytes) \<Rightarrow> bytes \<Rightarrow> (bytes \<times> survey_node) list \<Rightarrow> dir_entry list
      \<Rightarrow> write_context \<Rightarrow> (write_error + dir_entry list \<times> write_context) option" where
  "fold_survey H read path (SurveyNode meta children tgt) symlink_target ctx =
     (case symlink_target of
        Some target \<Rightarrow>
          (case alloc_inode ctx of (n, ctx) \<Rightarrow> Some (Inr (n, push_inode n meta (SymlinkTo target) ctx)))
      | None \<Rightarrow>
          if sm_is_dir meta then
            (case alloc_inode (ctx\<lparr>wc_dir_count := Suc (wc_dir_count ctx)\<rparr>) of
               (n, ctx) \<Rightarrow>
                 (case fold_children H read path children [] ctx of
                    None \<Rightarrow> None
                  | Some (Inl e) \<Rightarrow> Some (Inl e)
                  | Some (Inr (entries, ctx)) \<Rightarrow>
                      (case encode_dir_node H (sort_key de_name entries) of
                         None \<Rightarrow> None
                       | Some node \<Rightarrow>
                           Some (Inr (n, push_inode n meta (DirectoryOf (sort_key de_name entries))
                             (note_xattrs n meta (ctx\<lparr>wc_dir_nodes := wc_dir_nodes ctx @ [node]\<rparr>)))))))
          else if sm_is_file meta then Some (fold_file read path meta ctx)
          else Some (Inl (UnsupportedFileType path (unsupported_kind meta))))"
| "fold_children H read path [] entries ctx = Some (Inr (entries, ctx))"
| "fold_children H read path ((name, child) # children) entries ctx =
     (case fold_survey H read (path_push path name) child (sn_symlink_target child) ctx of
        None \<Rightarrow> None
      | Some (Inl e) \<Rightarrow> Some (Inl e)
      | Some (Inr (n, ctx)) \<Rightarrow>
          fold_children H read path children
            (entries @ [\<lparr>de_name = name, de_inode_number = n, de_entry_type = entry_type_of (sn_meta child)\<rparr>]) ctx)"
  by pat_completeness auto
termination
  by (relation "measure (\<lambda>x. case x of Inl (H, read, path, node, t, ctx) \<Rightarrow> size node
      | Inr (H, read, path, children, es, ctx) \<Rightarrow> size_list (size_prod (\<lambda>_. 0) size) children)") auto

section \<open>Chunked files\<close>

record raw_drop =
  rw_drop_id :: bytes
  rw_plaintext :: bytes
  rw_compressed :: bytes
  rw_codec :: u8
  rw_flags :: u8

record chunked_file_result =
  cf_drops :: "raw_drop list"
  cf_slices :: "pending_slice list"

definition CODEC_ZSTD :: u8 where
  "CODEC_ZSTD = 0x02"

definition merge_drop :: "(bytes \<Rightarrow> content_class) \<Rightarrow> raw_drop \<Rightarrow> write_context \<Rightarrow> write_context" where
  "merge_drop classify d ctx =
     (if rw_drop_id d \<in> wc_drop_index ctx then ctx
      else
        let ctx = ctx\<lparr>wc_drop_index := insert (rw_drop_id d) (wc_drop_index ctx)\<rparr>;
            retain = wc_collect_dict_samples ctx \<and> rw_codec d = CODEC_ZSTD;
            total = sum_list (map (\<lambda>c. length (wc_dict_samples ctx c)) classes);
            ctx = (if retain \<and> total < MAX_DICT_SAMPLES
                   then ctx\<lparr>wc_dict_samples := (wc_dict_samples ctx)
                          (classify (rw_plaintext d) := wc_dict_samples ctx (classify (rw_plaintext d)) @ [rw_plaintext d])\<rparr>
                   else ctx)
        in ctx\<lparr>wc_drops := wc_drops ctx @
             [\<lparr>pd_id = rw_drop_id d, pd_plaintext_len = saturating_u32 (length (rw_plaintext d)),
               pd_compressed = rw_compressed d, pd_codec = rw_codec d, pd_dict_id = NO_DICT,
               pd_plaintext = (if retain then Some (rw_plaintext d) else None), pd_flags = rw_flags d\<rparr>]\<rparr>)"

definition merge_chunked_file :: "(bytes \<Rightarrow> content_class) \<Rightarrow> pending_file \<Rightarrow> chunked_file_result \<Rightarrow> write_context
    \<Rightarrow> write_context" where
  "merge_chunked_file classify pf result ctx =
     (let ctx = fold (merge_drop classify) (cf_drops result) ctx
      in ctx\<lparr>wc_inodes := wc_inodes ctx @
           [\<lparr>pi_number = pf_inode_number pf, pi_mode = pf_mode pf, pi_uid = pf_uid pf, pi_gid = pf_gid pf,
             pi_mtime_ns = pf_mtime_ns pf, pi_xattrs = [], pi_content = DropBacked (pf_file_len pf) (cf_slices result)\<rparr>]\<rparr>)"

text \<open>The streaming write (\<open>write_directory_streaming\<close>) after the survey: the fold runs in a producer thread that sends deferred
  files to the workers, the results are put back in walk order and merged, and the error of the first failing file is
  returned. \<open>process\<close> is \<open>process_file\<close> under the configuration; \<open>sends\<close> bounds the sends before the receiver is gone. A
  panic of the producer is an error here.\<close>

fun merge_results :: "(bytes \<Rightarrow> content_class) \<Rightarrow> (pending_file \<Rightarrow> write_error + chunked_file_result) \<Rightarrow> pending_file list
    \<Rightarrow> write_context \<Rightarrow> write_error + write_context" where
  "merge_results classify process [] ctx = Inr ctx"
| "merge_results classify process (pf # pfs) ctx =
     (case process pf of
        Inl e \<Rightarrow> Inl e
      | Inr r \<Rightarrow> merge_results classify process pfs (merge_chunked_file classify pf r ctx))"

definition write_tree :: "(bytes \<Rightarrow> bytes) \<Rightarrow> (bytes \<Rightarrow> string + bytes) \<Rightarrow> (bytes \<Rightarrow> content_class)
    \<Rightarrow> (pending_file \<Rightarrow> write_error + chunked_file_result) \<Rightarrow> nat \<Rightarrow> bytes \<Rightarrow> survey_node \<Rightarrow> write_context
    \<Rightarrow> write_error + write_context" where
  "write_tree H read classify process sends root survey ctx =
     (case fold_survey H read root survey None (ctx\<lparr>wc_pending_sink := Some (sends, [])\<rparr>) of
        None \<Rightarrow> Inl (WriteIo ''walk thread panicked'')
      | Some (Inl e) \<Rightarrow> Inl e
      | Some (Inr (root_number, ctx)) \<Rightarrow>
          (let sent = (case wc_pending_sink ctx of None \<Rightarrow> [] | Some (_, fs) \<Rightarrow> fs)
           in merge_results classify process sent
                (ctx\<lparr>wc_pending_sink := None, wc_root_inode_number := root_number\<rparr>)))"

section \<open>The metadata blob\<close>

definition count_inline :: "(bytes \<Rightarrow> bytes) \<Rightarrow> pending_inode \<Rightarrow> (bytes \<Rightarrow> nat) \<Rightarrow> bytes \<Rightarrow> nat" where
  "count_inline H p counts =
     (case pi_content p of
        Inline content \<Rightarrow> counts(hash_section H content := Suc (counts (hash_section H content)))
      | _ \<Rightarrow> counts)"

definition share_inline :: "(bytes \<Rightarrow> bytes) \<Rightarrow> (bytes \<Rightarrow> nat) \<Rightarrow> pending_inode \<Rightarrow> write_context \<Rightarrow> write_context" where
  "share_inline H counts p ctx =
     (case pi_content p of
        Inline content \<Rightarrow>
          (let h = hash_section H content
           in if counts h > 1 \<and> wc_shared_inline_map ctx h = None
              then ctx\<lparr>wc_shared_inline_table := wc_shared_inline_table ctx @ [content],
                       wc_shared_inline_map := (wc_shared_inline_map ctx)(h \<mapsto> length (wc_shared_inline_table ctx))\<rparr>
              else ctx)
      | _ \<Rightarrow> ctx)"

definition build_shared_inline_table :: "(bytes \<Rightarrow> bytes) \<Rightarrow> write_context \<Rightarrow> write_context" where
  "build_shared_inline_table H ctx =
     (let counts = fold (count_inline H) (wc_inodes ctx) (\<lambda>_. 0)
      in fold (share_inline H counts) (wc_inodes ctx) ctx)"

definition inode_xattrs_of :: "write_context \<Rightarrow> pending_inode \<Rightarrow> xattr list" where
  "inode_xattrs_of ctx p = (case wc_inode_xattrs ctx (pi_number p) of None \<Rightarrow> pi_xattrs p | Some xs \<Rightarrow> xs)"

definition nlink_of :: "write_context \<Rightarrow> pending_inode \<Rightarrow> u32" where
  "nlink_of ctx p = (case wc_nlink_counts ctx (pi_number p) of None \<Rightarrow> 1 | Some c \<Rightarrow> c)"

definition flags_and_xattrs :: "xattr list \<Rightarrow> u8 \<Rightarrow> bytes option" where
  "flags_and_xattrs xs base =
     (if xs = [] then Some [base]
      else do {
        count \<leftarrow> u32_try_from (length xs);
        body \<leftarrow> concat_opt (map encode_xattr xs);
        Some ([base OR INODE_FLAG_HAS_XATTRS] @ u32_to_le_bytes count @ body)
      })"

definition encode_pending_slice :: "pending_slice \<Rightarrow> bytes option" where
  "encode_pending_slice s = do {
     drop_byte_len \<leftarrow> u32_try_from (unat (ps_file_byte_end s - ps_file_byte_start s));
     Some (u64_to_le_bytes (ps_file_byte_start s) @ u64_to_le_bytes (ps_file_byte_end s) @ ps_drop_id s
       @ u32_to_le_bytes 0 @ u32_to_le_bytes drop_byte_len)
   }"

definition encode_content :: "(bytes \<Rightarrow> bytes) \<Rightarrow> write_context \<Rightarrow> xattr list \<Rightarrow> pending_content \<Rightarrow> bytes option" where
  "encode_content H ctx xs content =
     (case content of
        Inline bs \<Rightarrow>
          (case wc_shared_inline_map ctx (hash_section H bs) of
             Some idx \<Rightarrow> do {
               fl \<leftarrow> flags_and_xattrs xs (INODE_FLAG_INLINE_DATA OR INODE_FLAG_SHARED_INLINE);
               Some (fl @ u32_to_le_bytes (word_of_nat idx))
             }
           | None \<Rightarrow> do {
               fl \<leftarrow> flags_and_xattrs xs INODE_FLAG_INLINE_DATA;
               len \<leftarrow> u32_try_from (length bs);
               Some (fl @ u32_to_le_bytes len @ bs)
             })
      | DropBacked flen slices \<Rightarrow> do {
          fl \<leftarrow> flags_and_xattrs xs 0x00;
          slice_count \<leftarrow> u32_try_from (length slices);
          body \<leftarrow> concat_opt (map encode_pending_slice slices);
          Some (fl @ u32_to_le_bytes slice_count @ body)
        }
      | SymlinkTo target \<Rightarrow> do {
          fl \<leftarrow> flags_and_xattrs xs 0x00;
          len \<leftarrow> u32_try_from (length target);
          Some (fl @ u32_to_le_bytes len @ target)
        }
      | DirectoryOf entries \<Rightarrow> do {
          fl \<leftarrow> flags_and_xattrs xs 0x00;
          node \<leftarrow> find (\<lambda>n. wn_entries n = entries) (wc_dir_nodes ctx);
          Some (fl @ wn_hash node)
        })"

definition encode_inode :: "(bytes \<Rightarrow> bytes) \<Rightarrow> write_context \<Rightarrow> pending_inode \<Rightarrow> bytes option" where
  "encode_inode H ctx p = do {
     body \<leftarrow> encode_content H ctx (inode_xattrs_of ctx p) (pi_content p);
     Some (u64_to_le_bytes (pi_number p) @ u32_to_le_bytes (pi_mode p) @ u32_to_le_bytes (pi_uid p)
       @ u32_to_le_bytes (pi_gid p) @ u64_to_le_bytes (pi_mtime_ns p) @ u64_to_le_bytes (pi_mtime_ns p)
       @ u32_to_le_bytes (nlink_of ctx p) @ body)
   }"

definition encode_shared_entry :: "bytes \<Rightarrow> bytes option" where
  "encode_shared_entry content = do {
     len \<leftarrow> u32_try_from (length content);
     Some (u32_to_le_bytes len @ content)
   }"

definition encode_shared_table :: "bytes list \<Rightarrow> bytes option" where
  "encode_shared_table table =
     (if table = [] then Some []
      else do {
        count \<leftarrow> u32_try_from (length table);
        body \<leftarrow> concat_opt (map encode_shared_entry table);
        Some (u32_to_le_bytes count @ body)
      })"

text \<open>The first half of \<open>assemble\<close>: share inline data, then encode inodes, directory nodes and the shared table.\<close>

definition encode_metadata :: "(bytes \<Rightarrow> bytes) \<Rightarrow> write_context \<Rightarrow> bytes option" where
  "encode_metadata H ctx =
     (let ctx = (if wc_emit_shared_inline ctx then build_shared_inline_table H ctx else ctx) in do {
        inode_count \<leftarrow> u32_try_from (length (wc_inodes ctx));
        inodes \<leftarrow> concat_opt (map (encode_inode H ctx) (wc_inodes ctx));
        node_count \<leftarrow> u32_try_from (length (wc_dir_nodes ctx));
        shared \<leftarrow> encode_shared_table (wc_shared_inline_table ctx);
        Some (u32_to_le_bytes inode_count @ inodes @ u32_to_le_bytes node_count
          @ concat (map wn_bytes (wc_dir_nodes ctx)) @ shared)
      })"

section \<open>The policy keeps the file type\<close>

lemma canonical_mode_type: "canonical_mode mode AND S_IFMT = mode AND S_IFMT"
proof -
  have "(mode AND S_IFMT OR p) AND S_IFMT = mode AND S_IFMT" if "p AND S_IFMT = 0" for p :: u32
    using that by (simp add: bit.conj_disj_distrib2 and.assoc)
  then show ?thesis by (simp add: canonical_mode_def Let_def S_IFMT_def)
qed

lemma canonical_mode_cong:
  "m AND S_IFMT = m' AND S_IFMT \<Longrightarrow> (m' AND S_IFMT = S_IFREG \<Longrightarrow> (m AND 0x49 = 0) = (m' AND 0x49 = 0))
    \<Longrightarrow> canonical_mode m = canonical_mode m'"
  by (auto simp: canonical_mode_def Let_def)

lemma canonical_mode_idem: "canonical_mode (canonical_mode mode) = canonical_mode mode"
proof (rule canonical_mode_cong [OF canonical_mode_type])
  assume "mode AND S_IFMT = S_IFREG"
  moreover have "(mode AND S_IFMT OR p) AND 0x49 = p AND 0x49" for p :: u32
    by (simp add: bit.conj_disj_distrib2 and.assoc S_IFMT_def)
  ultimately show "(canonical_mode mode AND 0x49 = 0) = (mode AND 0x49 = 0)"
    by (auto simp: canonical_mode_def Let_def S_IFMT_def S_IFREG_def S_IFDIR_def S_IFLNK_def)
qed

end
