(* ===== verification/Metadata_Writer.thy ===== *)
theory Metadata_Writer
  imports Write_Context Manifest_Builder
begin

unbundle bit_operations_syntax

text \<open>
  What the metadata blob of the writer reads back as: the parser returns the planned inodes, with inline data that was
  moved to the shared table put back in place, and the directory nodes.
\<close>

section \<open>The planned blob\<close>

definition slice_of :: "pending_slice \<Rightarrow> slice_ref" where
  "slice_of s = \<lparr>file_byte_start = ps_file_byte_start s, file_byte_end = ps_file_byte_end s, sl_drop_id = ps_drop_id s,
     drop_byte_start = 0, drop_byte_len = word_of_nat (unat (ps_file_byte_end s - ps_file_byte_start s))\<rparr>"

definition handle_of :: "(bytes \<Rightarrow> bytes) \<Rightarrow> pending_content \<Rightarrow> content_handle" where
  "handle_of H content =
     (case content of
        Inline bs \<Rightarrow> InlineData bs
      | DropBacked flen slices \<Rightarrow> SliceMap (map slice_of slices)
      | SymlinkTo target \<Rightarrow> Symlink target
      | DirectoryOf entries \<Rightarrow> Directory (the (dir_node_hash H entries)))"

definition inode_with :: "write_context \<Rightarrow> pending_inode \<Rightarrow> content_handle \<Rightarrow> inode" where
  "inode_with ctx p h = \<lparr>in_number = pi_number p, in_mode = pi_mode p, in_uid = pi_uid p, in_gid = pi_gid p,
     in_mtime_ns = pi_mtime_ns p, in_ctime_ns = pi_mtime_ns p, in_nlink = nlink_of ctx p, in_atime_ns = None,
     in_xattrs = inode_xattrs_of ctx p, in_content_handle = h\<rparr>"

lemma inode_with_sel [simp]:
  "in_number (inode_with ctx p h) = pi_number p" "in_mode (inode_with ctx p h) = pi_mode p"
  "in_uid (inode_with ctx p h) = pi_uid p" "in_gid (inode_with ctx p h) = pi_gid p"
  "in_mtime_ns (inode_with ctx p h) = pi_mtime_ns p" "in_nlink (inode_with ctx p h) = nlink_of ctx p"
  "in_xattrs (inode_with ctx p h) = inode_xattrs_of ctx p" "in_content_handle (inode_with ctx p h) = h"
  "inode_with ctx p h \<lparr>in_content_handle := h'\<rparr> = inode_with ctx p h'"
  by (simp_all add: inode_with_def)

definition stored_inode :: "(bytes \<Rightarrow> bytes) \<Rightarrow> write_context \<Rightarrow> pending_inode \<Rightarrow> inode" where
  "stored_inode H ctx p = inode_with ctx p (handle_of H (pi_content p))"

definition stored_node :: "dir_node \<Rightarrow> directory_node" where
  "stored_node n = \<lparr>dn_version = DIRECTORY_NODE_VERSION, dn_entries = wn_entries n\<rparr>"

definition written_blob :: "(bytes \<Rightarrow> bytes) \<Rightarrow> write_context \<Rightarrow> metadata_blob" where
  "written_blob H ctx = \<lparr>mb_inodes = map (stored_inode H ctx) (wc_inodes ctx), mb_dir_nodes = map stored_node (wc_dir_nodes ctx)\<rparr>"

text \<open>The contexts whose blob the reader accepts under an inline ceiling: every inode is one the parser accepts, slices are
  short enough for their length field, and every directory has its node.\<close>

definition writable_inode :: "(bytes \<Rightarrow> bytes) \<Rightarrow> u32 \<Rightarrow> write_context \<Rightarrow> pending_inode \<Rightarrow> bool" where
  "writable_inode H m ctx p \<longleftrightarrow>
     valid_inode m (stored_inode H ctx p) \<and> length (inode_xattrs_of ctx p) < 2 ^ 32
     \<and> (case pi_content p of
          DropBacked flen slices \<Rightarrow> \<forall>s \<in> set slices. unat (ps_file_byte_end s - ps_file_byte_start s) < 2 ^ 32
        | DirectoryOf entries \<Rightarrow> entries \<in> wn_entries ` set (wc_dir_nodes ctx)
        | _ \<Rightarrow> True)"

definition writable_node :: "(bytes \<Rightarrow> bytes) \<Rightarrow> dir_node \<Rightarrow> bool" where
  "writable_node H n \<longleftrightarrow> encode_dir_node H (wn_entries n) = Some n \<and> valid_directory_node (stored_node n)"

definition inline_contents :: "write_context \<Rightarrow> bytes set" where
  "inline_contents ctx = {bs. \<exists>p \<in> set (wc_inodes ctx). pi_content p = Inline bs}"

definition writable_context :: "(bytes \<Rightarrow> bytes) \<Rightarrow> u32 \<Rightarrow> write_context \<Rightarrow> bool" where
  "writable_context H m ctx \<longleftrightarrow>
     length (wc_inodes ctx) < 2 ^ 32 \<and> (\<forall>p \<in> set (wc_inodes ctx). writable_inode H m ctx p)
     \<and> length (wc_dir_nodes ctx) < 2 ^ 32 \<and> (\<forall>n \<in> set (wc_dir_nodes ctx). writable_node H n)
     \<and> wc_shared_inline_map ctx = Map.empty \<and> wc_shared_inline_table ctx = []"

section \<open>The shared inline table\<close>

text \<open>Invariant of the sharing loop: the map sends a hash to the place of a content with that hash.\<close>

definition shared_ok :: "(bytes \<Rightarrow> bytes) \<Rightarrow> bytes set \<Rightarrow> write_context \<Rightarrow> bool" where
  "shared_ok H C ctx \<longleftrightarrow>
     set (wc_shared_inline_table ctx) \<subseteq> C
     \<and> (\<forall>h idx. wc_shared_inline_map ctx h = Some idx \<longrightarrow>
          idx < length (wc_shared_inline_table ctx) \<and> H (wc_shared_inline_table ctx ! idx) = h)"

definition unshared :: "write_context \<Rightarrow> write_context" where
  "unshared ctx = ctx\<lparr>wc_shared_inline_map := Map.empty, wc_shared_inline_table := []\<rparr>"

lemma share_inline_frame [simp]: "unshared (share_inline H counts p ctx) = unshared ctx"
  by (simp add: share_inline_def unshared_def Let_def split: pending_content.split)

lemma share_inline_ok:
  assumes "shared_ok H C ctx" "\<And>bs. pi_content p = Inline bs \<Longrightarrow> bs \<in> C"
  shows "shared_ok H C (share_inline H counts p ctx)
    \<and> length (wc_shared_inline_table (share_inline H counts p ctx)) \<le> Suc (length (wc_shared_inline_table ctx))"
  using assms
  by (auto simp: share_inline_def shared_ok_def Let_def hash_section_def nth_append less_Suc_eq split: pending_content.split)

lemma share_loop:
  "shared_ok H C ctx \<Longrightarrow> (\<And>p bs. p \<in> set ps \<Longrightarrow> pi_content p = Inline bs \<Longrightarrow> bs \<in> C) \<Longrightarrow>
    shared_ok H C (fold (share_inline H counts) ps ctx) \<and> unshared (fold (share_inline H counts) ps ctx) = unshared ctx
    \<and> length (wc_shared_inline_table (fold (share_inline H counts) ps ctx)) \<le> length (wc_shared_inline_table ctx) + length ps"
proof (induction ps arbitrary: ctx)
  case (Cons p ps)
  have "shared_ok H C (share_inline H counts p ctx)
      \<and> length (wc_shared_inline_table (share_inline H counts p ctx)) \<le> Suc (length (wc_shared_inline_table ctx))"
    using Cons.prems by (intro share_inline_ok) auto
  with Cons.IH [of "share_inline H counts p ctx"] Cons.prems(2) show ?case by fastforce
qed simp

lemma build_shared:
  assumes "writable_context H m ctx"
  shows "shared_ok H (inline_contents ctx) (build_shared_inline_table H ctx)"
    and "unshared (build_shared_inline_table H ctx) = ctx"
    and "length (wc_shared_inline_table (build_shared_inline_table H ctx)) < 2 ^ 32"
proof -
  let ?counts = "fold (count_inline H) (wc_inodes ctx) (\<lambda>_. 0)"
  have s: "shared_ok H (inline_contents ctx) ctx" "unshared ctx = ctx" "length (wc_inodes ctx) < 2 ^ 32"
    using assms by (simp_all add: writable_context_def shared_ok_def unshared_def)
  have "shared_ok H (inline_contents ctx) (build_shared_inline_table H ctx) \<and> unshared (build_shared_inline_table H ctx) = ctx
      \<and> length (wc_shared_inline_table (build_shared_inline_table H ctx)) \<le> 0 + length (wc_inodes ctx)"
    using share_loop [OF s(1), of "wc_inodes ctx" ?counts] s(2) assms
    by (auto simp: build_shared_inline_table_def Let_def inline_contents_def writable_context_def)
  with s(3) show "shared_ok H (inline_contents ctx) (build_shared_inline_table H ctx)"
    "unshared (build_shared_inline_table H ctx) = ctx"
    "length (wc_shared_inline_table (build_shared_inline_table H ctx)) < 2 ^ 32"
    by auto
qed

section \<open>Inodes on the wire\<close>

text \<open>What is parsed before shared data is resolved.\<close>

definition wire_handle :: "(bytes \<Rightarrow> bytes) \<Rightarrow> write_context \<Rightarrow> pending_content \<Rightarrow> content_handle" where
  "wire_handle H ctx content =
     (case content of
        Inline bs \<Rightarrow> (case wc_shared_inline_map ctx (hash_section H bs) of Some idx \<Rightarrow> SharedInline idx | None \<Rightarrow> InlineData bs)
      | _ \<Rightarrow> handle_of H content)"

lemma parses_loop_map:
  assumes "\<And>p i acc. p \<in> set ps \<Longrightarrow> \<exists>b. enc p = Some b \<and> parses (body i acc) b (f p)" "concat_opt (map enc ps) = Some all"
  shows "parses (ploop body i (length ps) acc) all (acc @ map f ps)"
  using assms
proof (induction ps arbitrary: i acc all)
  case (Cons p ps)
  obtain b where b: "enc p = Some b" "parses (body i acc) b (f p)" using Cons.prems(1) [of p i acc] by auto
  from Cons.prems(2) b obtain rest where rest: "concat_opt (map enc ps) = Some rest" "all = b @ rest"
    by (auto simp: bind_eq_Some_conv)
  have "parses (ploop body (Suc i) (length ps) (acc @ [f p])) rest ((acc @ [f p]) @ map f ps)"
    using Cons.prems(1) by (intro Cons.IH [OF _ rest(1)]) simp
  with b(2) rest(2) show ?case by (auto intro: parses_bind)
qed (simp add: parses_pret)

text \<open>The flags byte of an inode in its two forms, and the fields after it.\<close>

definition plain_flags :: "u8 \<Rightarrow> bool" where
  "plain_flags fl \<longleftrightarrow> fl AND INODE_FLAG_RESERVED_MASK = 0 \<and> fl AND INODE_FLAG_ATIME = 0"

lemma flags_forms:
  "plain_flags fl \<and> plain_flags (fl OR INODE_FLAG_HAS_XATTRS) \<and> fl AND INODE_FLAG_HAS_XATTRS = 0
    \<and> (fl OR INODE_FLAG_HAS_XATTRS) AND INODE_FLAG_HAS_XATTRS \<noteq> 0"
  if "fl = 0 \<or> fl = INODE_FLAG_INLINE_DATA \<or> fl = INODE_FLAG_INLINE_DATA OR INODE_FLAG_SHARED_INLINE"
  using that by (elim disjE) (simp_all add: plain_flags_def inode_flag_defs)

lemma parses_xattrs:
  assumes "\<forall>x \<in> set xs. valid_xattr x" "length xs < 2 ^ 32" "concat_opt (map encode_xattr xs) = Some body"
  shows "parses parse_xattr_block (u32_to_le_bytes (word_of_nat (length xs)) @ body) xs"
  unfolding parse_xattr_block_def using assms xattrs.parses_list [OF assms(1,3)] by (intro wire_enc) simp

definition parse_inode_rest :: "u32 \<Rightarrow> u64 \<Rightarrow> u32 \<Rightarrow> (u64 option \<Rightarrow> xattr list \<Rightarrow> content_handle \<Rightarrow> inode) \<Rightarrow> inode parser" where
  "parse_inode_rest m number mode mk =
     pbind read_u8 (\<lambda>fl.
     if fl AND INODE_FLAG_RESERVED_MASK \<noteq> 0
     then perr (Corrupt (InodeReason (InodeReservedFlags number fl))) else
     pbind (if fl AND INODE_FLAG_ATIME \<noteq> 0 then pbind read_u64_le (\<lambda>t. pret (Some t)) else pret None) (\<lambda>atime_ns.
     pbind (if fl AND INODE_FLAG_HAS_XATTRS \<noteq> 0 then parse_xattr_block else pret []) (\<lambda>xattrs.
     pbind (parse_content_handle mode fl number m) (\<lambda>handle.
     pret (mk atime_ns xattrs handle)))))"

lemma pbind_pret [simp]: "pbind (pret v) f = f v"
  by (rule ext) (simp add: pbind_def pret_def)

lemma parses_inode_rest:
  assumes "\<forall>x \<in> set xs. valid_xattr x" "length xs < 2 ^ 32" "flags_and_xattrs xs base = Some fl"
    and base: "base = 0 \<or> base = INODE_FLAG_INLINE_DATA \<or> base = INODE_FLAG_INLINE_DATA OR INODE_FLAG_SHARED_INLINE"
    and handle: "\<And>f. f = base \<or> f = base OR INODE_FLAG_HAS_XATTRS \<Longrightarrow> parses (parse_content_handle mode f number m) body h"
    and i: "mk None xs h = i"
  shows "parses (parse_inode_rest m number mode mk) (fl @ body) i"
proof (cases "xs = []")
  case True
  with assms(3) have "fl = [base]" by (simp add: flags_and_xattrs_def)
  with True show ?thesis
    unfolding parse_inode_rest_def using flags_forms [OF base] handle [of base] i
    by (auto simp: plain_flags_def parses_pret intro!: parses_u8_bind parses_bind_last [of _ _ h])
next
  case False
  with assms(2,3) obtain xb where xb: "concat_opt (map encode_xattr xs) = Some xb"
    "fl = (base OR INODE_FLAG_HAS_XATTRS) # u32_to_le_bytes (word_of_nat (length xs)) @ xb"
    by (auto simp: flags_and_xattrs_def bind_eq_Some_conv)
  show ?thesis
    unfolding parse_inode_rest_def xb(2)
    using flags_forms [OF base] parses_xattrs [OF assms(1,2) xb(1)] handle [of "base OR INODE_FLAG_HAS_XATTRS"] i
    by (auto simp: plain_flags_def parses_pret simp flip: append_assoc
        intro!: parses_u8_bind parses_bind [of parse_xattr_block _ xs] parses_bind_last [of _ _ h])
qed

lemma parse_inode_rest_eq:
  "parse_inode_with_ceiling m =
     pbind read_u64_le (\<lambda>number.
     pbind read_u32_le (\<lambda>mode.
     pbind read_u32_le (\<lambda>uid.
     pbind read_u32_le (\<lambda>gid.
     pbind read_u64_le (\<lambda>mtime_ns.
     pbind read_u64_le (\<lambda>ctime_ns.
     pbind read_u32_le (\<lambda>nlink.
     parse_inode_rest m number mode (\<lambda>atime_ns xattrs handle.
       \<lparr>in_number = number, in_mode = mode, in_uid = uid, in_gid = gid, in_mtime_ns = mtime_ns,
        in_ctime_ns = ctime_ns, in_nlink = nlink, in_atime_ns = atime_ns, in_xattrs = xattrs,
        in_content_handle = handle\<rparr>))))))))"
  unfolding parse_inode_with_ceiling_def parse_inode_rest_def by (rule refl)

text \<open>The four kinds of content.\<close>

lemma parses_shared:
  assumes "mode AND S_IFMT = S_IFREG" "idx < 2 ^ 32"
    and "f = (INODE_FLAG_INLINE_DATA OR INODE_FLAG_SHARED_INLINE)
      \<or> f = (INODE_FLAG_INLINE_DATA OR INODE_FLAG_SHARED_INLINE) OR INODE_FLAG_HAS_XATTRS"
  shows "parses (parse_content_handle mode f number m) (u32_to_le_bytes (word_of_nat idx)) (SharedInline idx)"
proof -
  have "f AND INODE_FLAG_SHARED_INLINE \<noteq> 0" using assms(3) by (auto simp: inode_flag_defs)
  then show ?thesis
    unfolding parse_content_handle_def using assms(1,2) by (auto simp: Let_def intro!: wire_enc)
qed

lemma parses_inline_data:
  assumes "mode AND S_IFMT = S_IFREG" "length bs \<le> unat m"
    and "f = INODE_FLAG_INLINE_DATA \<or> f = INODE_FLAG_INLINE_DATA OR INODE_FLAG_HAS_XATTRS"
  shows "parses (parse_content_handle mode f number m) (u32_to_le_bytes (word_of_nat (length bs)) @ bs) (InlineData bs)"
proof -
  have f: "f AND INODE_FLAG_SHARED_INLINE = 0" "f AND INODE_FLAG_INLINE_DATA \<noteq> 0"
    using assms(3) by (auto simp: inode_flag_defs)
  have "length bs < 2 ^ 32" using assms(2) unat_u32_lt [of m] by simp
  with f assms(1,2) show ?thesis
    unfolding parse_content_handle_def read_n_owned_def
    by (auto simp: Let_def word_less_nat_alt intro!: wire_enc)
qed

lemma encode_pending_slice_eq:
  "unat (ps_file_byte_end s - ps_file_byte_start s) < 2 ^ 32 \<Longrightarrow> encode_pending_slice s = Some (encode_slice_ref (slice_of s))"
  by (simp add: encode_pending_slice_def encode_slice_ref_def slice_of_def)

lemma parses_slices:
  assumes "mode AND S_IFMT = S_IFREG" "contiguous_from 0 ss" "length ss < 2 ^ 32" "\<forall>s \<in> set ss. length (sl_drop_id s) = 32"
    and "f = 0 \<or> f = 0 OR INODE_FLAG_HAS_XATTRS"
  shows "parses (parse_content_handle mode f number m)
    (u32_to_le_bytes (word_of_nat (length ss)) @ concat (map encode_slice_ref ss)) (SliceMap ss)"
proof -
  have f: "f AND INODE_FLAG_SHARED_INLINE = 0" "f AND INODE_FLAG_INLINE_DATA = 0"
    using assms(5) by (auto simp: inode_flag_defs)
  have lt: "\<forall>s \<in> set ss. file_byte_start s < file_byte_end s"
    using validate_slice_map_from_iff [of number 0 0 ss] assms(2) by blast
  then have "\<forall>s \<in> set ss. slice_ok s" using assms(4) by (simp add: slice_ok_def)
  then have "parses (ploop (parse_slice_ref number) 0 (length ss) []) (concat (map encode_slice_ref ss)) ss"
    by (rule slice_refs.parses_list) (rule concat_opt_map_Some)
  moreover have "validate_slice_map number ss = Inr ()" using validate_slice_map_iff [OF lt] assms(2) by blast
  ultimately show ?thesis
    unfolding parse_content_handle_def using f assms(1,3)
    by (auto simp: Let_def intro!: parses_u32_bind parses_bind_last [of _ _ ss] parses_lift parses_pret)
qed

lemma parses_symlink:
  assumes "mode AND S_IFMT = S_IFLNK" "utf8_valid t" "length t < 2 ^ 32"
  shows "parses (parse_content_handle mode f number m) (u32_to_le_bytes (word_of_nat (length t)) @ t) (Symlink t)"
  unfolding parse_content_handle_def using assms by (auto simp: Let_def file_type_defs intro!: wire_enc)

lemma parses_directory:
  assumes "mode AND S_IFMT = S_IFDIR" "length h = 32"
  shows "parses (parse_content_handle mode f number m) h (Directory h)"
  unfolding parse_content_handle_def using assms by (auto simp: Let_def file_type_defs intro!: wire_enc)

text \<open>Every kind of content is encoded as a flags byte that says what follows and a body that parses.\<close>

definition content_flags :: "(bytes \<Rightarrow> bytes) \<Rightarrow> write_context \<Rightarrow> pending_content \<Rightarrow> u8" where
  "content_flags H ctx content =
     (case content of
        Inline bs \<Rightarrow> (case wc_shared_inline_map ctx (hash_section H bs) of
          Some _ \<Rightarrow> INODE_FLAG_INLINE_DATA OR INODE_FLAG_SHARED_INLINE | None \<Rightarrow> INODE_FLAG_INLINE_DATA)
      | _ \<Rightarrow> 0)"

lemma writable_nodeD:
  assumes "writable_node H n"
  shows "encode_dir_node_bytes (wn_entries n) = Some (wn_bytes n)" "wn_hash n = H (wn_bytes n)"
    "encode_directory_node (stored_node n) = Some (wn_bytes n)" "5 \<le> length (wn_bytes n)"
proof -
  from assms obtain y where y: "encode_dir_node_bytes (wn_entries n) = Some y"
    "n = \<lparr>wn_entries = wn_entries n, wn_bytes = y, wn_hash = hash_section H y\<rparr>"
    by (auto simp: writable_node_def encode_dir_node_def bind_eq_Some_conv)
  from arg_cong [OF y(2), of wn_bytes] arg_cong [OF y(2), of wn_hash] have "wn_bytes n = y" "wn_hash n = H y"
    by (simp_all add: hash_section_def)
  with y(1) encode_dir_node_bytes_length [OF y(1)]
  show "encode_dir_node_bytes (wn_entries n) = Some (wn_bytes n)" "wn_hash n = H (wn_bytes n)"
    "encode_directory_node (stored_node n) = Some (wn_bytes n)" "5 \<le> length (wn_bytes n)"
    by (simp_all add: encode_directory_node_def stored_node_def)
qed

lemma node_found:
  assumes "entries \<in> wn_entries ` set (wc_dir_nodes ctx)" "\<forall>n \<in> set (wc_dir_nodes ctx). writable_node H n"
  obtains node where "find (\<lambda>n. wn_entries n = entries) (wc_dir_nodes ctx) = Some node" "dir_node_hash H entries = Some (wn_hash node)"
proof (cases "find (\<lambda>n. wn_entries n = entries) (wc_dir_nodes ctx)")
  case None
  with assms(1) show thesis by (auto simp: find_None_iff)
next
  case (Some node)
  then have "node \<in> set (wc_dir_nodes ctx)" "wn_entries node = entries" by (auto dest: find_SomeD)
  with assms(2) writable_nodeD(1,2) [of H node] have "dir_node_hash H entries = Some (wn_hash node)"
    by (auto simp: dir_node_hash_of_bytes)
  with Some show thesis by (rule that)
qed

lemma encode_content_parses:
  assumes w: "writable_inode H m ctx p" "\<forall>n \<in> set (wc_dir_nodes ctx). writable_node H n"
    and idx: "\<And>h idx. wc_shared_inline_map ctx h = Some idx \<Longrightarrow> idx < 2 ^ 32"
  obtains body where "encode_content H ctx xs (pi_content p)
      = map_option (\<lambda>fl. fl @ body) (flags_and_xattrs xs (content_flags H ctx (pi_content p)))"
    "\<forall>f number. f = content_flags H ctx (pi_content p) \<or> f = content_flags H ctx (pi_content p) OR INODE_FLAG_HAS_XATTRS \<longrightarrow>
       parses (parse_content_handle (pi_mode p) f number m) body (wire_handle H ctx (pi_content p))"
    "4 \<le> length body"
proof -
  have v: "valid_handle (pi_mode p) m (handle_of H (pi_content p))"
    using w(1) by (simp add: writable_inode_def valid_inode_def stored_inode_def)
  show thesis
  proof (cases "pi_content p")
    case (Inline bs)
    show thesis
    proof (cases "wc_shared_inline_map ctx (hash_section H bs)")
      case None
      have len: "length bs < 2 ^ 32" "length bs \<le> unat m"
        using v Inline unat_u32_lt [of m] by (auto simp: valid_handle_def handle_of_def)
      show thesis
        by (rule that [of "u32_to_le_bytes (word_of_nat (length bs)) @ bs"])
          (use Inline None len v in \<open>auto simp: encode_content_def content_flags_def wire_handle_def valid_handle_def handle_of_def
            map_conv_bind_option comp_def intro!: parses_inline_data split: option.split\<close>)
    next
      case (Some i)
      show thesis
        by (rule that [of "u32_to_le_bytes (word_of_nat i)"])
          (use Inline Some idx [OF Some] v in \<open>auto simp: encode_content_def content_flags_def wire_handle_def valid_handle_def
            handle_of_def map_conv_bind_option comp_def intro!: parses_shared split: option.split\<close>)
    qed
  next
    case (SymlinkTo t)
    show thesis
      by (rule that [of "u32_to_le_bytes (word_of_nat (length t)) @ t"])
        (use SymlinkTo v in \<open>auto simp: encode_content_def content_flags_def wire_handle_def valid_handle_def handle_of_def
          map_conv_bind_option comp_def intro!: parses_symlink split: option.split\<close>)
  next
    case (DropBacked n ss)
    have s: "concat_opt (map encode_pending_slice ss) = Some (concat (map encode_slice_ref (map slice_of ss)))" "length ss < 2 ^ 32"
      using w(1) v DropBacked
      by (auto simp: writable_inode_def valid_handle_def handle_of_def encode_pending_slice_eq comp_def
          simp flip: concat_opt_map_Some cong: map_cong)
    have p: "parses (parse_content_handle (pi_mode p) f number m)
        (u32_to_le_bytes (word_of_nat (length ss)) @ concat (map encode_slice_ref (map slice_of ss))) (SliceMap (map slice_of ss))"
      if "f = 0 \<or> f = 0 OR INODE_FLAG_HAS_XATTRS" for f number
      using parses_slices [of "pi_mode p" "map slice_of ss" f number m] that v s(2) DropBacked
      by (simp add: valid_handle_def handle_of_def)
    show thesis
      by (rule that [of "u32_to_le_bytes (word_of_nat (length ss)) @ concat (map encode_slice_ref (map slice_of ss))"])
        (use DropBacked s p in \<open>auto simp: encode_content_def content_flags_def wire_handle_def handle_of_def
          map_conv_bind_option comp_def simp del: map_map split: option.split\<close>)
  next
    case (DirectoryOf es)
    then have es: "es \<in> wn_entries ` set (wc_dir_nodes ctx)" using w(1) by (simp add: writable_inode_def)
    obtain node where node: "find (\<lambda>n. wn_entries n = es) (wc_dir_nodes ctx) = Some node" "dir_node_hash H es = Some (wn_hash node)"
      by (rule node_found [OF es w(2)])
    show thesis
      by (rule that [of "wn_hash node"])
        (use DirectoryOf node v in \<open>auto simp: encode_content_def content_flags_def wire_handle_def valid_handle_def handle_of_def
          map_conv_bind_option comp_def intro!: parses_directory split: option.split\<close>)
  qed
qed

lemma content_flags_forms:
  "content_flags H ctx content = 0 \<or> content_flags H ctx content = INODE_FLAG_INLINE_DATA
    \<or> content_flags H ctx content = INODE_FLAG_INLINE_DATA OR INODE_FLAG_SHARED_INLINE"
  by (simp add: content_flags_def split: pending_content.split option.split)

definition wire_inode :: "(bytes \<Rightarrow> bytes) \<Rightarrow> write_context \<Rightarrow> pending_inode \<Rightarrow> inode" where
  "wire_inode H ctx p = inode_with ctx p (wire_handle H ctx (pi_content p))"

lemma encode_inode_parses:
  assumes w: "writable_inode H m ctx p" "\<forall>n \<in> set (wc_dir_nodes ctx). writable_node H n"
    and idx: "\<And>h idx. wc_shared_inline_map ctx h = Some idx \<Longrightarrow> idx < 2 ^ 32"
  shows "\<exists>b. encode_inode H ctx p = Some b \<and> parses (parse_inode_with_ceiling m) b (wire_inode H ctx p) \<and> 45 \<le> length b"
proof -
  let ?xs = "inode_xattrs_of ctx p" and ?f = "content_flags H ctx (pi_content p)"
  have xs: "\<forall>x \<in> set ?xs. valid_xattr x" "length ?xs < 2 ^ 32"
    using w(1) by (simp_all add: writable_inode_def valid_inode_def stored_inode_def)
  obtain body where body: "encode_content H ctx ?xs (pi_content p) = map_option (\<lambda>fl. fl @ body) (flags_and_xattrs ?xs ?f)"
    "\<forall>f number. f = ?f \<or> f = ?f OR INODE_FLAG_HAS_XATTRS \<longrightarrow>
       parses (parse_content_handle (pi_mode p) f number m) body (wire_handle H ctx (pi_content p))" "4 \<le> length body"
    by (rule encode_content_parses [OF assms, where xs = ?xs]) blast
  obtain fl where fl: "flags_and_xattrs ?xs ?f = Some fl" "1 \<le> length fl"
    using xs xattrs.encs_Some [OF xs(1)] by (cases "?xs = []") (auto simp: flags_and_xattrs_def)
  have rest: "parses (parse_inode_rest m (pi_number p) (pi_mode p) (\<lambda>atime_ns xattrs handle.
       \<lparr>in_number = pi_number p, in_mode = pi_mode p, in_uid = pi_uid p, in_gid = pi_gid p, in_mtime_ns = pi_mtime_ns p,
        in_ctime_ns = pi_mtime_ns p, in_nlink = nlink_of ctx p, in_atime_ns = atime_ns, in_xattrs = xattrs,
        in_content_handle = handle\<rparr>)) (fl @ body) (wire_inode H ctx p)"
    by (rule parses_inode_rest [OF xs fl(1) content_flags_forms])
      (use body(2) in blast, simp add: wire_inode_def inode_with_def)
  show ?thesis
    unfolding parse_inode_rest_eq encode_inode_def body(1) fl(1)
    using fl(2) body(3) by (auto intro!: wire_enc rest)
qed

section \<open>The blob\<close>

lemma parses_wire_inodes:
  assumes "\<And>p. p \<in> set ps \<Longrightarrow> \<exists>b. encode_inode H ctx p = Some b \<and> parses (parse_inode_with_ceiling m) b (wire_inode H ctx p) \<and> 45 \<le> length b"
    and "length ps < 2 ^ 32"
  obtains body where "concat_opt (map (encode_inode H ctx) ps) = Some body"
    "parses (parse_inodes m) (u32_to_le_bytes (word_of_nat (length ps)) @ body) (map (wire_inode H ctx) ps)"
proof -
  have "None \<notin> set (map (encode_inode H ctx) ps)" using assms(1) by fastforce
  then obtain body where body: "concat_opt (map (encode_inode H ctx) ps) = Some body" using concat_opt_eq_None by blast
  have "45 \<le> length b" if "Some b \<in> set (map (encode_inode H ctx) ps)" for b using that assms(1) by fastforce
  with concat_opt_length_ge [OF body, of 45] have "42 * length ps \<le> length body" by simp
  moreover have "usize_checked_mul (length ps) (INODE_FIXED_PREFIX_LEN + 1) = Some (length ps * 42)"
    using assms(2) by (simp add: usize_checked_mul_def INODE_FIXED_PREFIX_LEN_def)
  moreover have "parses (ploop (\<lambda>_ _. parse_inode_with_ceiling m) 0 (length ps) []) body (map (wire_inode H ctx) ps)"
    using parses_loop_map [of ps "encode_inode H ctx" "\<lambda>_ _. parse_inode_with_ceiling m" "wire_inode H ctx" body 0 "[]", OF _ body]
      assms(1) by fastforce
  ultimately have "parses (parse_inodes m) (u32_to_le_bytes (word_of_nat (length ps)) @ body) (map (wire_inode H ctx) ps)"
    unfolding parse_inodes_def using assms(2) by (intro wire_enc) (auto simp: mult.commute)
  with body show thesis by (rule that)
qed

lemma parses_wire_nodes:
  assumes "\<forall>n \<in> set ns. writable_node H n" "length ns < 2 ^ 32"
  shows "parses parse_dir_nodes (u32_to_le_bytes (word_of_nat (length ns)) @ concat (map wn_bytes ns)) (map stored_node ns)"
proof -
  have enc: "encode_directory_node (stored_node n) = Some (wn_bytes n)" "valid_directory_node (stored_node n)" "5 \<le> length (wn_bytes n)"
    if "n \<in> set ns" for n
    using that assms(1) writable_nodeD [of H n] by (auto simp: writable_node_def)
  have cat: "concat_opt (map (\<lambda>n. Some (wn_bytes n)) ns) = Some (concat (map wn_bytes ns))" by (rule concat_opt_map_Some)
  have "5 * length ns \<le> length (concat (map wn_bytes ns))" using concat_opt_length_ge [OF cat, of 5] enc(3) by auto
  moreover have "usize_checked_mul (length ns) 5 = Some (length ns * 5)" using assms(2) by (simp add: usize_checked_mul_def)
  moreover have "parses (ploop (\<lambda>_ _. parse_directory_node) 0 (length ns) []) (concat (map wn_bytes ns)) (map stored_node ns)"
    using parses_loop_map [of ns "\<lambda>n. Some (wn_bytes n)" "\<lambda>_ _. parse_directory_node" stored_node _ 0 "[]", OF _ cat]
      directory_node.encode_parse enc by simp
  ultimately show ?thesis
    unfolding parse_dir_nodes_def using assms(2) by (intro wire_enc) (auto simp: mult.commute)
qed

lemma parses_wire_shared:
  assumes "table \<noteq> []" "\<forall>d \<in> set table. length d \<le> unat m" "length table < 2 ^ 32"
  obtains b where "encode_shared_table table = Some b" "parses (parse_shared_table m) b table" "4 \<le> length b"
proof -
  have e: "encode_shared_entry d = Some (u32_to_le_bytes (word_of_nat (length d)) @ d)
      \<and> parses (parse_shared_entry m i acc) (u32_to_le_bytes (word_of_nat (length d)) @ d) d" if "d \<in> set table" for d i acc
  proof -
    have "length d < 2 ^ 32" "\<not> m < word_of_nat (length d)"
      using that assms(2) unat_u32_lt [of m] by (fastforce simp: word_less_nat_alt)+
    then show ?thesis
      unfolding parse_shared_entry_def read_n_owned_def encode_shared_entry_def by (auto intro!: wire_enc parses_read_n)
  qed
  then have "None \<notin> set (map encode_shared_entry table)" by fastforce
  then obtain body where body: "concat_opt (map encode_shared_entry table) = Some body" using concat_opt_eq_None by blast
  have "parses (ploop (parse_shared_entry m) 0 (length table) []) body ([] @ map id table)"
    by (rule parses_loop_map [OF _ body]) (use e in fastforce)
  then have "parses (parse_shared_table m) (u32_to_le_bytes (word_of_nat (length table)) @ body) table"
    unfolding parse_shared_table_def using assms(3) by (intro wire_enc) simp
  then show thesis
    by (intro that [of "u32_to_le_bytes (word_of_nat (length table)) @ body"]) (use assms(1,3) body in \<open>auto simp: encode_shared_table_def\<close>)
qed

text \<open>Resolving the shared table puts the inline data back.\<close>

lemma resolve_wire_inode:
  assumes "shared_ok H C ctx" "inj_on H C" "\<And>bs. pi_content p = Inline bs \<Longrightarrow> bs \<in> C"
  shows "resolve_shared (wc_shared_inline_table ctx) (wire_inode H ctx p) = Inr (stored_inode H ctx p)"
proof (cases "pi_content p")
  case (Inline bs)
  show ?thesis
  proof (cases "wc_shared_inline_map ctx (H bs)")
    case (Some idx)
    then have i: "idx < length (wc_shared_inline_table ctx)" "H (wc_shared_inline_table ctx ! idx) = H bs"
      "wc_shared_inline_table ctx ! idx \<in> C" using assms(1) by (auto simp: shared_ok_def)
    with assms(2) assms(3) [OF Inline] have "wc_shared_inline_table ctx ! idx = bs" by (auto dest: inj_onD)
    with Inline Some i(1) show ?thesis
      by (simp add: resolve_shared_def wire_inode_def stored_inode_def wire_handle_def handle_of_def hash_section_def)
  qed (use Inline in \<open>simp add: resolve_shared_def wire_inode_def stored_inode_def wire_handle_def handle_of_def hash_section_def\<close>)
qed (simp_all add: resolve_shared_def wire_inode_def stored_inode_def wire_handle_def handle_of_def)

lemma resolve_wire_inodes:
  assumes "shared_ok H C ctx" "inj_on H C" "\<And>p bs. p \<in> set ps \<Longrightarrow> pi_content p = Inline bs \<Longrightarrow> bs \<in> C"
  shows "resolve_all (wc_shared_inline_table ctx) (map (wire_inode H ctx) ps) = Inr (map (stored_inode H ctx) ps)"
  using assms(3)
proof (induction ps)
  case (Cons p ps)
  have "resolve_shared (wc_shared_inline_table ctx) (wire_inode H ctx p) = Inr (stored_inode H ctx p)"
    by (rule resolve_wire_inode [OF assms(1,2)]) (rule Cons.prems [of p], simp_all)
  moreover have "resolve_all (wc_shared_inline_table ctx) (map (wire_inode H ctx) ps) = Inr (map (stored_inode H ctx) ps)"
    by (rule Cons.IH) (rule Cons.prems, simp_all)
  ultimately show ?case by simp
qed simp

text \<open>Without a table no inode refers to it.\<close>

lemma wire_inode_unshared:
  "shared_ok H C ctx \<Longrightarrow> wc_shared_inline_table ctx = [] \<Longrightarrow> wire_inode H ctx p = stored_inode H ctx p"
  by (auto simp: shared_ok_def wire_inode_def stored_inode_def wire_handle_def handle_of_def
      split: pending_content.split option.split)

lemma unshared_stored:
  assumes "unshared ctx = ctx0"
  shows "writable_inode H m ctx = writable_inode H m ctx0" "stored_inode H ctx = stored_inode H ctx0"
    "wc_inodes ctx = wc_inodes ctx0" "wc_dir_nodes ctx = wc_dir_nodes ctx0"
  unfolding assms [symmetric]
  by (auto simp: fun_eq_iff unshared_def writable_inode_def stored_inode_def inode_with_def nlink_of_def inode_xattrs_of_def
      split: pending_content.split)

lemma encoded_blob_parses:
  assumes ok: "shared_ok H C ctx" "inj_on H C" "\<And>p bs. p \<in> set (wc_inodes ctx) \<Longrightarrow> pi_content p = Inline bs \<Longrightarrow> bs \<in> C"
    and short: "\<forall>d \<in> C. length d \<le> unat m" "length (wc_shared_inline_table ctx) < 2 ^ 32"
    and inodes: "concat_opt (map (encode_inode H ctx) (wc_inodes ctx)) = Some ib"
      "parses (parse_inodes m) (u32_to_le_bytes (word_of_nat (length (wc_inodes ctx))) @ ib) (map (wire_inode H ctx) (wc_inodes ctx))"
    and nodes: "parses parse_dir_nodes (u32_to_le_bytes (word_of_nat (length (wc_dir_nodes ctx))) @ concat (map wn_bytes (wc_dir_nodes ctx)))
      (map stored_node (wc_dir_nodes ctx))"
  obtains sb where "encode_shared_table (wc_shared_inline_table ctx) = Some sb"
    "\<forall>bs. bs = u32_to_le_bytes (word_of_nat (length (wc_inodes ctx))) @ ib
        @ u32_to_le_bytes (word_of_nat (length (wc_dir_nodes ctx))) @ concat (map wn_bytes (wc_dir_nodes ctx)) @ sb
      \<longrightarrow> length bs < usize_bound
      \<longrightarrow> parse_metadata_blob_with_ceiling m (cursor_new bs) = Inr (written_blob H ctx, \<lparr>cur_bytes = bs, cur_pos = length bs\<rparr>)"
proof -
  let ?a = "u32_to_le_bytes (word_of_nat (length (wc_inodes ctx))) @ ib"
  let ?b = "u32_to_le_bytes (word_of_nat (length (wc_dir_nodes ctx))) @ concat (map wn_bytes (wc_dir_nodes ctx))"
  have run: "pbind (parse_inodes m) (\<lambda>is. pbind parse_dir_nodes (\<lambda>ns. k is ns)) (cursor_new (?a @ ?b @ sb))
      = k (map (wire_inode H ctx) (wc_inodes ctx)) (map stored_node (wc_dir_nodes ctx)) \<lparr>cur_bytes = ?a @ ?b @ sb, cur_pos = length (?a @ ?b)\<rparr>"
    if "length (?a @ ?b @ sb) < usize_bound" for k :: "_ \<Rightarrow> _ \<Rightarrow> metadata_blob parser" and sb
    using that parsesD [OF inodes(2), of "[]" "?b @ sb"] parsesD [OF nodes, of ?a sb] by (simp add: pbind_def cursor_new_def)
  show thesis
  proof (cases "wc_shared_inline_table ctx = []")
    case True
    have w: "map (wire_inode H ctx) (wc_inodes ctx) = map (stored_inode H ctx) (wc_inodes ctx)"
      using wire_inode_unshared [OF ok(1) True] by simp
    show thesis
      by (rule that [of "[]"])
        (use True run [of "[]"] w in \<open>simp_all add: encode_shared_table_def parse_metadata_blob_with_ceiling_def pbind_def [of premaining_len]
          premaining_len_def remaining_len_def pret_def written_blob_def\<close>)
  next
    case False
    have "\<forall>d \<in> set (wc_shared_inline_table ctx). length d \<le> unat m" using ok(1) short(1) by (auto simp: shared_ok_def)
    then obtain sb where sb: "encode_shared_table (wc_shared_inline_table ctx) = Some sb"
      "parses (parse_shared_table m) sb (wc_shared_inline_table ctx)" "4 \<le> length sb"
      by (rule parses_wire_shared [OF False _ short(2)])
    show thesis
    proof (rule that [OF sb(1)], intro allI impI)
      fix bs assume bs: "bs = u32_to_le_bytes (word_of_nat (length (wc_inodes ctx))) @ ib
        @ u32_to_le_bytes (word_of_nat (length (wc_dir_nodes ctx))) @ concat (map wn_bytes (wc_dir_nodes ctx)) @ sb"
        and len: "length bs < usize_bound"
      have "parse_shared_table m \<lparr>cur_bytes = bs, cur_pos = length (?a @ ?b)\<rparr>
          = Inr (wc_shared_inline_table ctx, \<lparr>cur_bytes = bs, cur_pos = length bs\<rparr>)"
        using parsesD [OF sb(2), of "?a @ ?b" "[]"] bs len by (simp add: add.assoc)
      moreover have "resolve_all (wc_shared_inline_table ctx) (map (wire_inode H ctx) (wc_inodes ctx))
          = Inr (map (stored_inode H ctx) (wc_inodes ctx))" using ok by (rule resolve_wire_inodes)
      ultimately show "parse_metadata_blob_with_ceiling m (cursor_new bs) = Inr (written_blob H ctx, \<lparr>cur_bytes = bs, cur_pos = length bs\<rparr>)"
        using run [of sb] bs len sb(3)
        by (auto simp: parse_metadata_blob_with_ceiling_def pbind_def [of premaining_len] pbind_def [of "parse_shared_table m"]
            pbind_def [of "plift _"] plift_def premaining_len_def remaining_len_def pret_def written_blob_def)
    qed
  qed
qed

section \<open>Reading back what was written\<close>

text \<open>C4. For every context within the limits of the format and a hash that tells its inline contents apart, encoding the
  metadata does not panic, and the parser reads the blob back as exactly the planned inodes and directory nodes,
  whether or not identical inline contents were moved to the shared table.\<close>

theorem metadata_round_trip:
  assumes "writable_context H m ctx" and "inj_on H (inline_contents ctx)"
  shows "\<exists>bs. encode_metadata H ctx = Some bs \<and> (length bs < usize_bound \<longrightarrow>
    parse_metadata_blob_with_ceiling m (cursor_new bs) = Inr (written_blob H ctx, \<lparr>cur_bytes = bs, cur_pos = length bs\<rparr>))"
proof -
  define c where "c = (if wc_emit_shared_inline ctx then build_shared_inline_table H ctx else ctx)"
  have c: "shared_ok H (inline_contents ctx) c" "unshared c = ctx" "length (wc_shared_inline_table c) < 2 ^ 32"
    using build_shared [OF assms(1)] assms(1) by (auto simp: c_def writable_context_def shared_ok_def unshared_def)
  note fields = unshared_stored [OF c(2)]
  have w: "\<forall>p \<in> set (wc_inodes c). writable_inode H m c p" "\<forall>n \<in> set (wc_dir_nodes c). writable_node H n"
    "length (wc_inodes c) < 2 ^ 32" "length (wc_dir_nodes c) < 2 ^ 32"
    using assms(1) by (simp_all add: writable_context_def fields)
  have idx: "idx < 2 ^ 32" if "wc_shared_inline_map c h = Some idx" for h idx
    using that c(1) less_trans [OF _ c(3)] unfolding shared_ok_def by blast
  have enc: "\<exists>b. encode_inode H c p = Some b \<and> parses (parse_inode_with_ceiling m) b (wire_inode H c p) \<and> 45 \<le> length b"
    if "p \<in> set (wc_inodes c)" for p
    by (rule encode_inode_parses [OF _ w(2) idx]) (use w(1) that in blast)
  obtain ib where ib: "concat_opt (map (encode_inode H c) (wc_inodes c)) = Some ib"
    "parses (parse_inodes m) (u32_to_le_bytes (word_of_nat (length (wc_inodes c))) @ ib) (map (wire_inode H c) (wc_inodes c))"
    by (rule parses_wire_inodes [OF enc w(3)])
  have inl: "bs \<in> inline_contents ctx" if "p \<in> set (wc_inodes c)" "pi_content p = Inline bs" for p bs
    using that by (auto simp: fields inline_contents_def)
  have short: "\<forall>d \<in> inline_contents ctx. length d \<le> unat m"
    using assms(1) by (fastforce simp: inline_contents_def writable_context_def writable_inode_def valid_inode_def stored_inode_def
        handle_of_def valid_handle_def)
  obtain sb where sb: "encode_shared_table (wc_shared_inline_table c) = Some sb"
    "\<forall>bs. bs = u32_to_le_bytes (word_of_nat (length (wc_inodes c))) @ ib
        @ u32_to_le_bytes (word_of_nat (length (wc_dir_nodes c))) @ concat (map wn_bytes (wc_dir_nodes c)) @ sb
      \<longrightarrow> length bs < usize_bound
      \<longrightarrow> parse_metadata_blob_with_ceiling m (cursor_new bs) = Inr (written_blob H c, \<lparr>cur_bytes = bs, cur_pos = length bs\<rparr>)"
    by (rule encoded_blob_parses [OF c(1) assms(2) inl short c(3) ib parses_wire_nodes [OF w(2,4)]])
  have "written_blob H c = written_blob H ctx" by (simp add: written_blob_def fields)
  with sb ib(1) w(3,4) show ?thesis
    by (auto simp: encode_metadata_def c_def [symmetric] Let_def)
qed

text \<open>A directory with two files of the same content, which the writer stores once.\<close>

definition two_entries :: "dir_entry list" where
  "two_entries = [\<lparr>de_name = [97], de_inode_number = 2, de_entry_type = 1\<rparr>, \<lparr>de_name = [98], de_inode_number = 3, de_entry_type = 1\<rparr>]"

definition two_entries_bytes :: bytes where
  "two_entries_bytes = [1, 2, 0, 0, 0, 1, 0, 0, 0, 97, 2, 0, 0, 0, 0, 0, 0, 0, 1, 1, 0, 0, 0, 98, 3, 0, 0, 0, 0, 0, 0, 0, 1]"

definition example_context :: write_context where
  "example_context = write_context_new\<lparr>wc_next_inode := 4, wc_file_count := 2, wc_dir_count := 1,
     wc_dir_nodes := [\<lparr>wn_entries = two_entries, wn_bytes = two_entries_bytes, wn_hash = toy_hash two_entries_bytes\<rparr>],
     wc_inodes :=
       [\<lparr>pi_number = 2, pi_mode = 0x81A4, pi_uid = 0, pi_gid = 0, pi_mtime_ns = 5, pi_xattrs = [], pi_content = Inline [1, 2]\<rparr>,
        \<lparr>pi_number = 3, pi_mode = 0x81A4, pi_uid = 0, pi_gid = 0, pi_mtime_ns = 6, pi_xattrs = [], pi_content = Inline [1, 2]\<rparr>,
        \<lparr>pi_number = 1, pi_mode = 0x41ED, pi_uid = 0, pi_gid = 0, pi_mtime_ns = 7, pi_xattrs = [], pi_content = DirectoryOf two_entries\<rparr>]\<rparr>"

lemma two_entries_encoded: "encode_dir_node_bytes two_entries = Some two_entries_bytes"
  by (simp add: encode_dir_node_bytes_def two_entries_def two_entries_bytes_def encode_dir_entry_def wire_eval)

lemma example_context_writable: "writable_context toy_hash 4096 example_context"
proof -
  have "dir_entries_ok two_entries"
    by (simp add: dir_entries_ok_def two_entries_def valid_dir_entry_def known_entry_type_def)
  then have "writable_node toy_hash \<lparr>wn_entries = two_entries, wn_bytes = two_entries_bytes, wn_hash = toy_hash two_entries_bytes\<rparr>"
    by (simp add: writable_node_def encode_dir_node_def two_entries_encoded hash_section_def stored_node_def
        valid_directory_node_def) (simp add: two_entries_def)
  then show ?thesis
    by (simp add: writable_context_def example_context_def write_context_new_def writable_inode_def stored_inode_def valid_inode_def
        valid_handle_def handle_of_def inode_xattrs_of_def dir_node_hash_of_bytes two_entries_encoded S_IFMT_def file_type_defs)
qed

lemma example_context_length: "\<exists>bs. encode_metadata toy_hash example_context = Some bs \<and> length bs = 214"
  by (simp add: encode_metadata_def Let_def example_context_def write_context_new_def build_shared_inline_table_def share_inline_def
      count_inline_def hash_section_def encode_inode_def encode_content_def flags_and_xattrs_def inode_xattrs_of_def
      encode_shared_table_def encode_shared_entry_def u32_try_from_def two_entries_bytes_def)

theorem metadata_round_trip_witness:
  "\<exists>bs c. encode_metadata toy_hash example_context = Some bs
    \<and> parse_metadata_blob_with_ceiling 4096 (cursor_new bs) = Inr (written_blob toy_hash example_context, c)"
proof -
  have "inj_on toy_hash (inline_contents example_context)"
    by (rule inj_onI) (auto simp: inline_contents_def example_context_def)
  from metadata_round_trip [OF example_context_writable this] example_context_length show ?thesis by auto
qed

end
