(* ===== verification/Tree_Writer.thy ===== *)
theory Tree_Writer
  imports Metadata_Writer
begin

text \<open>
  The tree the writer stores is the tree it surveyed. \<open>surveyed\<close> enumerates the nodes of a survey by the names that lead
  to them, \<open>held\<close> says that a context holds a node under an inode number; the fold establishes it, and reading the written
  blob back by path finds exactly the surveyed nodes.
\<close>

section \<open>The surveyed nodes\<close>

text \<open>A node of the survey, by its names from the root, with its path on disk and the link target the fold is called with.\<close>

inductive surveyed :: "bytes \<Rightarrow> survey_node \<Rightarrow> bytes list \<Rightarrow> bytes \<Rightarrow> survey_node \<Rightarrow> bytes option \<Rightarrow> bool"
  for disk_root root where
  survey_root: "surveyed disk_root root [] disk_root root None"
| survey_child: "surveyed disk_root root names path node None \<Longrightarrow> sm_is_dir (sn_meta node)
    \<Longrightarrow> (name, child) \<in> set (sn_children node)
    \<Longrightarrow> surveyed disk_root root (names @ [name]) (path_push path name) child (sn_symlink_target child)"

definition survey_files :: "bytes \<Rightarrow> survey_node \<Rightarrow> (bytes \<times> survey_meta) set" where
  "survey_files disk_root root =
     {(path, meta). \<exists>names children tgt. surveyed disk_root root names path (SurveyNode meta children tgt) None
        \<and> \<not> sm_is_dir meta \<and> sm_is_file meta}"

section \<open>What a context holds\<close>

definition deferred :: "write_context \<Rightarrow> pending_file list" where
  "deferred ctx = wc_pending_files ctx @ (case wc_pending_sink ctx of None \<Rightarrow> [] | Some (_, sent) \<Rightarrow> sent)"

definition has_meta :: "pending_inode \<Rightarrow> survey_meta \<Rightarrow> bool" where
  "has_meta p meta \<longleftrightarrow> pi_mode p = sm_mode meta \<and> pi_uid p = sm_uid meta \<and> pi_gid p = sm_gid meta
     \<and> pi_mtime_ns p = sm_mtime_ns meta"

definition file_for :: "u64 \<Rightarrow> bytes \<Rightarrow> survey_meta \<Rightarrow> pending_file" where
  "file_for n path meta = \<lparr>pf_inode_number = n, pf_path = path, pf_mtime_ns = sm_mtime_ns meta,
     pf_file_len = sm_len meta, pf_mode = sm_mode meta, pf_uid = sm_uid meta, pf_gid = sm_gid meta\<rparr>"

definition same_file :: "survey_meta \<Rightarrow> survey_meta \<Rightarrow> bool" where
  "same_file a b \<longleftrightarrow> sm_dev a = sm_dev b \<and> sm_ino a = sm_ino b"

text \<open>A file read from a path is an inline inode or a deferred file, by its length.\<close>

definition held_content :: "pending_inode set \<Rightarrow> pending_file set \<Rightarrow> (bytes \<Rightarrow> string + bytes) \<Rightarrow> nat \<Rightarrow> bytes \<Rightarrow> survey_meta
    \<Rightarrow> u64 \<Rightarrow> bool" where
  "held_content S P read thr path meta n \<longleftrightarrow>
     (if unat (sm_len meta) \<le> thr
      then \<exists>p \<in> S. \<exists>d. pi_number p = n \<and> has_meta p meta \<and> read path = Inr d \<and> pi_content p = Inline d
      else file_for n path meta \<in> P)"

inductive held :: "pending_inode set \<Rightarrow> pending_file set \<Rightarrow> (bytes \<times> survey_meta) set \<Rightarrow> (bytes \<Rightarrow> string + bytes) \<Rightarrow> nat
    \<Rightarrow> bytes \<Rightarrow> survey_node \<Rightarrow> bytes option \<Rightarrow> u64 \<Rightarrow> bool" for S P F read thr where
  held_link: "p \<in> S \<Longrightarrow> pi_number p = n \<Longrightarrow> has_meta p meta \<Longrightarrow> pi_content p = SymlinkTo target
    \<Longrightarrow> held S P F read thr path (SurveyNode meta children tgt) (Some target) n"
| held_dir: "sm_is_dir meta \<Longrightarrow> p \<in> S \<Longrightarrow> pi_number p = n \<Longrightarrow> has_meta p meta \<Longrightarrow> pi_content p = DirectoryOf es
    \<Longrightarrow> list_all2 (\<lambda>e x. de_name e = fst x \<and> de_entry_type e = entry_type_of (sn_meta (snd x))
          \<and> held S P F read thr (path_push path (fst x)) (snd x) (sn_symlink_target (snd x)) (de_inode_number e)) es children
    \<Longrightarrow> held S P F read thr path (SurveyNode meta children tgt) None n"
| held_file: "\<not> sm_is_dir meta \<Longrightarrow> sm_is_file meta \<Longrightarrow> (path', meta') \<in> F \<Longrightarrow> same_file meta meta'
    \<Longrightarrow> held_content S P read thr path' meta' n \<Longrightarrow> held S P F read thr path (SurveyNode meta children tgt) None n"
monos list_all2_mono

inductive_cases held_linkE: "held S P F read thr path node (Some target) n"
inductive_cases held_noneE: "held S P F read thr path node None n"

lemma held_content_mono:
  "held_content S P read thr path meta n \<Longrightarrow> S \<subseteq> S' \<Longrightarrow> P \<subseteq> P' \<Longrightarrow> held_content S' P' read thr path meta n"
  unfolding held_content_def by (cases "unat (sm_len meta) \<le> thr") (simp_all, blast+)

lemma held_mono:
  assumes "held S P F read thr path node t n" "S \<subseteq> S'" "P \<subseteq> P'"
  shows "held S' P' F read thr path node t n"
  using assms(1)
proof (induction rule: held.induct)
  case (held_link p n meta target path children tgt)
  then show ?case using assms(2) by (auto intro: held.held_link)
next
  case (held_dir meta p n es path children tgt)
  show ?case
    by (rule held.held_dir [of meta p]) (use held_dir assms(2) in \<open>auto elim!: list_all2_mono\<close>)
next
  case (held_file meta path' meta' n path children tgt)
  then show ?case using held_content_mono [OF _ assms(2,3)] by (auto intro: held.held_file)
qed

section \<open>The invariant of the fold\<close>

definition inode_numbers_of :: "write_context \<Rightarrow> u64 list" where
  "inode_numbers_of ctx = map pi_number (wc_inodes ctx) @ map pf_inode_number (deferred ctx)"

definition node_refs :: "write_context \<Rightarrow> u64 set" where
  "node_refs ctx = (\<Union>n \<in> set (wc_dir_nodes ctx). de_inode_number ` set (wn_entries n))"

definition fold_inv :: "(bytes \<times> survey_meta) set \<Rightarrow> (bytes \<Rightarrow> string + bytes) \<Rightarrow> nat \<Rightarrow> write_context \<Rightarrow> bool" where
  "fold_inv F read lo ctx \<longleftrightarrow>
     (\<forall>k n. wc_hardlink_targets ctx k = Some n \<longrightarrow> lo \<le> unat n
        \<and> (\<exists>path meta. (path, meta) \<in> F \<and> k = (sm_dev meta, sm_ino meta)
             \<and> held_content (set (wc_inodes ctx)) (set (deferred ctx)) read (wc_inline_threshold ctx) path meta n))
     \<and> (\<forall>x \<in> node_refs ctx. lo \<le> unat x) \<and> lo \<le> unat (wc_next_inode ctx)
     \<and> distinct (inode_numbers_of ctx) \<and> (\<forall>x \<in> set (inode_numbers_of ctx). unat x < unat (wc_next_inode ctx))"

text \<open>How a context grows: numbers are fresh, and a new directory is either one of the numbers returned or referenced.\<close>

definition grows :: "write_context \<Rightarrow> write_context \<Rightarrow> u64 set \<Rightarrow> bool" where
  "grows ctx ctx' N \<longleftrightarrow>
     set (wc_inodes ctx) \<subseteq> set (wc_inodes ctx') \<and> set (deferred ctx) \<subseteq> set (deferred ctx') \<and> node_refs ctx \<subseteq> node_refs ctx'
     \<and> wc_inline_threshold ctx' = wc_inline_threshold ctx \<and> unat (wc_next_inode ctx) \<le> unat (wc_next_inode ctx')
     \<and> (\<forall>x \<in> set (inode_numbers_of ctx'). x \<in> set (inode_numbers_of ctx) \<or> unat (wc_next_inode ctx) \<le> unat x)
     \<and> (\<forall>p \<in> set (wc_inodes ctx'). \<forall>es. pi_content p = DirectoryOf es \<longrightarrow>
          p \<in> set (wc_inodes ctx) \<or> pi_number p \<in> N \<or> pi_number p \<in> node_refs ctx')"

lemma growsD:
  assumes "grows ctx ctx' N"
  shows "set (wc_inodes ctx) \<subseteq> set (wc_inodes ctx')" "set (deferred ctx) \<subseteq> set (deferred ctx')"
    "wc_inline_threshold ctx' = wc_inline_threshold ctx" "unat (wc_next_inode ctx) \<le> unat (wc_next_inode ctx')"
    "node_refs ctx \<subseteq> node_refs ctx'"
    "\<And>x. x \<in> set (inode_numbers_of ctx') \<Longrightarrow> x \<in> set (inode_numbers_of ctx) \<or> unat (wc_next_inode ctx) \<le> unat x"
    "\<And>p es. p \<in> set (wc_inodes ctx') \<Longrightarrow> pi_content p = DirectoryOf es \<Longrightarrow>
       p \<in> set (wc_inodes ctx) \<or> pi_number p \<in> N \<or> pi_number p \<in> node_refs ctx'"
  using assms unfolding grows_def by blast+

lemma grows_refl: "grows ctx ctx N"
  by (simp add: grows_def)

lemma grows_trans:
  assumes "grows a b M" "grows b c N"
  shows "grows a c (M \<union> N)"
  unfolding grows_def
proof (intro conjI ballI allI impI)
  show "x \<in> set (inode_numbers_of a) \<or> unat (wc_next_inode a) \<le> unat x" if "x \<in> set (inode_numbers_of c)" for x
    using growsD(6) [OF assms(2) that] growsD(6) [OF assms(1), of x] growsD(4) [OF assms(1)] by linarith
  show "p \<in> set (wc_inodes a) \<or> pi_number p \<in> M \<union> N \<or> pi_number p \<in> node_refs c"
    if "p \<in> set (wc_inodes c)" "pi_content p = DirectoryOf es" for p es
    using growsD(7) [OF assms(2) that] growsD(7) [OF assms(1) _ that(2)] growsD(5) [OF assms(2)] by blast
qed (use growsD(1-5) [OF assms(1)] growsD(1-5) [OF assms(2)] in auto)

lemma grows_subset: "grows a b M \<Longrightarrow> M \<subseteq> N \<union> node_refs b \<Longrightarrow> grows a b N"
  unfolding grows_def by blast

section \<open>Files\<close>

lemma note_xattrs_sel [simp]:
  "wc_next_inode (note_xattrs n meta ctx) = wc_next_inode ctx" "wc_hardlink_targets (note_xattrs n meta ctx) = wc_hardlink_targets ctx"
  "wc_inodes (note_xattrs n meta ctx) = wc_inodes ctx" "wc_dir_nodes (note_xattrs n meta ctx) = wc_dir_nodes ctx"
  "wc_pending_files (note_xattrs n meta ctx) = wc_pending_files ctx" "wc_pending_sink (note_xattrs n meta ctx) = wc_pending_sink ctx"
  "wc_inline_threshold (note_xattrs n meta ctx) = wc_inline_threshold ctx" "deferred (note_xattrs n meta ctx) = deferred ctx"
  by (simp_all add: note_xattrs_def deferred_def)

lemma push_inode_sel [simp]:
  "wc_next_inode (push_inode n meta c ctx) = wc_next_inode ctx" "wc_hardlink_targets (push_inode n meta c ctx) = wc_hardlink_targets ctx"
  "wc_dir_nodes (push_inode n meta c ctx) = wc_dir_nodes ctx" "wc_inline_threshold (push_inode n meta c ctx) = wc_inline_threshold ctx"
  "deferred (push_inode n meta c ctx) = deferred ctx"
  by (simp_all add: push_inode_def deferred_def)

lemma push_inode_inodes:
  obtains p where "wc_inodes (push_inode n meta c ctx) = wc_inodes ctx @ [p]" "pi_number p = n" "has_meta p meta" "pi_content p = c"
  by (simp add: push_inode_def has_meta_def)

lemma defer_file_sel:
  assumes "defer_file pf ctx = Inr ctx'"
  shows "wc_next_inode ctx' = wc_next_inode ctx" "wc_hardlink_targets ctx' = wc_hardlink_targets ctx" "wc_inodes ctx' = wc_inodes ctx"
    "wc_dir_nodes ctx' = wc_dir_nodes ctx" "wc_inline_threshold ctx' = wc_inline_threshold ctx" "deferred ctx' = deferred ctx @ [pf]"
  using assms by (auto simp: defer_file_def deferred_def split: option.splits prod.splits nat.splits)

lemma unat_next: "unat w + 1 < 2 ^ 64 \<Longrightarrow> unat (w + 1 :: u64) = Suc (unat w)"
  by (simp add: unat_word_ariths)

text \<open>A step that takes the next number for one inode or deferred file.\<close>

lemma one_more:
  assumes "fold_inv F read lo ctx" "unat (wc_next_inode ctx) + 1 < 2 ^ 64"
    and next': "wc_next_inode ctx' = wc_next_inode ctx + 1" and n: "n = wc_next_inode ctx"
    and "wc_inodes ctx' = wc_inodes ctx @ is" "deferred ctx' = deferred ctx @ ds" "map pi_number is @ map pf_inode_number ds = [n]"
    and "wc_dir_nodes ctx' = wc_dir_nodes ctx" "wc_inline_threshold ctx' = wc_inline_threshold ctx"
    and links: "\<And>k x. wc_hardlink_targets ctx' k = Some x \<Longrightarrow> wc_hardlink_targets ctx k = Some x \<or> x = n \<and> (\<exists>path meta. (path, meta) \<in> F
      \<and> k = (sm_dev meta, sm_ino meta)
      \<and> held_content (set (wc_inodes ctx')) (set (deferred ctx')) read (wc_inline_threshold ctx) path meta n)"
  shows "fold_inv F read lo ctx' \<and> grows ctx ctx' {n} \<and> lo \<le> unat n \<and> unat (wc_next_inode ctx') = Suc (unat (wc_next_inode ctx))"
proof -
  have nx: "unat (wc_next_inode ctx') = Suc (unat (wc_next_inode ctx))" using assms(2) next' unat_next by simp
  have refs: "node_refs ctx' = node_refs ctx" using assms(8) by (simp add: node_refs_def)
  have lo: "lo \<le> unat n" using assms(1) n by (simp add: fold_inv_def)
  have nums: "set (inode_numbers_of ctx') = insert n (set (inode_numbers_of ctx))"
    "distinct (inode_numbers_of ctx') \<longleftrightarrow> distinct (n # inode_numbers_of ctx)"
    using assms(5-7) by (auto simp: inode_numbers_of_def append_eq_Cons_conv image_iff)
  have fresh: "\<forall>x \<in> set (inode_numbers_of ctx). unat x < unat (wc_next_inode ctx)" using assms(1) by (simp add: fold_inv_def)
  then have "n \<notin> set (inode_numbers_of ctx)" using n by auto
  moreover have "lo \<le> unat x \<and> (\<exists>path meta. (path, meta) \<in> F \<and> k = (sm_dev meta, sm_ino meta)
      \<and> held_content (set (wc_inodes ctx')) (set (deferred ctx')) read (wc_inline_threshold ctx') path meta x)"
    if k: "wc_hardlink_targets ctx' k = Some x" for k x
    using links [OF k]
  proof
    assume "wc_hardlink_targets ctx k = Some x"
    with assms(1) obtain path meta where "lo \<le> unat x" "(path, meta) \<in> F" "k = (sm_dev meta, sm_ino meta)"
      "held_content (set (wc_inodes ctx)) (set (deferred ctx)) read (wc_inline_threshold ctx) path meta x"
      unfolding fold_inv_def by blast
    with held_content_mono [OF this(4), of "set (wc_inodes ctx')" "set (deferred ctx')"] assms(5,6,9) show ?thesis by auto
  qed (use lo assms(9) in auto)
  ultimately have "fold_inv F read lo ctx'"
    using assms(1) fresh n by (auto simp: fold_inv_def nums refs nx)
  moreover have "grows ctx ctx' {n}"
    using assms(5-7,9) fresh n by (auto simp: grows_def nums refs nx append_eq_Cons_conv)
  ultimately show ?thesis using lo nx by blast
qed

lemma fold_file_ok:
  assumes run: "fold_file read path meta ctx = Inr (n, ctx')" and inv: "fold_inv F read lo ctx" and F: "(path, meta) \<in> F"
    and bound: "unat (wc_next_inode ctx) + 1 < 2 ^ 64"
  shows "fold_inv F read lo ctx' \<and> grows ctx ctx' {n} \<and> lo \<le> unat n \<and> unat (wc_next_inode ctx') \<le> Suc (unat (wc_next_inode ctx))
    \<and> (\<exists>path' meta'. (path', meta') \<in> F \<and> same_file meta meta'
        \<and> held_content (set (wc_inodes ctx')) (set (deferred ctx')) read (wc_inline_threshold ctx) path' meta' n)"
proof (cases "wc_hardlink_targets ctx (sm_dev meta, sm_ino meta)")
  case (Some existing)
  then have "n = existing" "wc_next_inode ctx' = wc_next_inode ctx" "wc_hardlink_targets ctx' = wc_hardlink_targets ctx"
    "wc_inodes ctx' = wc_inodes ctx" "wc_dir_nodes ctx' = wc_dir_nodes ctx" "wc_inline_threshold ctx' = wc_inline_threshold ctx"
    "deferred ctx' = deferred ctx"
    using run by (auto simp: fold_file_def deferred_def Let_def)
  moreover from this have "node_refs ctx' = node_refs ctx" "inode_numbers_of ctx' = inode_numbers_of ctx"
    by (simp_all add: node_refs_def inode_numbers_of_def)
  ultimately show ?thesis using inv Some by (auto simp: fold_inv_def grows_def same_file_def)
next
  case None
  let ?ctx = "ctx\<lparr>wc_file_count := Suc (wc_file_count ctx), wc_next_inode := wc_next_inode ctx + 1,
    wc_hardlink_targets := (wc_hardlink_targets ctx)((sm_dev meta, sm_ino meta) \<mapsto> wc_next_inode ctx)\<rparr>"
  have n: "n = wc_next_inode ctx" using run None
    by (auto simp: fold_file_def alloc_inode_def Let_def split: if_splits sum.splits)
  have sel: "deferred ?ctx = deferred ctx" by (simp add: deferred_def)
  show ?thesis
  proof (cases "unat (sm_len meta) \<le> wc_inline_threshold ctx")
    case True
    with run None obtain d where d: "read path = Inr d" "ctx' = push_inode n meta (Inline d) (note_xattrs n meta ?ctx)"
      by (auto simp: fold_file_def alloc_inode_def Let_def split: sum.splits)
    obtain p where p: "wc_inodes ctx' = wc_inodes ctx @ [p]" "pi_number p = n" "has_meta p meta" "pi_content p = Inline d"
      by (rule push_inode_inodes [of n meta "Inline d" "note_xattrs n meta ?ctx"]) (simp add: d)
    have held: "held_content (set (wc_inodes ctx')) (set (deferred ctx')) read (wc_inline_threshold ctx) path meta n"
      using True p d(1) by (simp add: held_content_def)
    have "fold_inv F read lo ctx' \<and> grows ctx ctx' {n} \<and> lo \<le> unat n \<and> unat (wc_next_inode ctx') = Suc (unat (wc_next_inode ctx))"
      by (rule one_more [OF inv bound _ n p(1), of "[]"]) (use p F held n in \<open>auto simp: d(2) sel split: if_splits\<close>)
    with held F show ?thesis by (auto simp: same_file_def)
  next
    case False
    with run None have d: "defer_file (file_for n path meta) (note_xattrs n meta ?ctx) = Inr ctx'"
      by (auto simp: fold_file_def alloc_inode_def Let_def file_for_def split: sum.splits)
    note s = defer_file_sel [OF d]
    have held: "held_content (set (wc_inodes ctx')) (set (deferred ctx')) read (wc_inline_threshold ctx) path meta n"
      using False s(6) by (simp add: held_content_def)
    have "fold_inv F read lo ctx' \<and> grows ctx ctx' {n} \<and> lo \<le> unat n \<and> unat (wc_next_inode ctx') = Suc (unat (wc_next_inode ctx))"
      by (rule one_more [OF inv bound _ n, of _ "[]" "[file_for n path meta]"])
        (use s F held n in \<open>auto simp: sel file_for_def split: if_splits\<close>)
    with held F show ?thesis by (auto simp: same_file_def)
  qed
qed

section \<open>The fold holds what it was given\<close>

text \<open>The survey sorts the children of a directory by name and gives no children to anything else.\<close>

definition wf_survey :: "bytes \<Rightarrow> survey_node \<Rightarrow> bool" where
  "wf_survey disk_root root \<longleftrightarrow>
     (\<forall>names path node t. surveyed disk_root root names path node t \<longrightarrow>
        sorted_wrt (<) (map fst (sn_children node))
        \<and> (\<not> sm_is_dir (sn_meta node) \<or> t \<noteq> None \<longrightarrow> sn_children node = []))"

abbreviation holds :: "(bytes \<times> survey_meta) set \<Rightarrow> (bytes \<Rightarrow> string + bytes) \<Rightarrow> write_context \<Rightarrow> bytes \<Rightarrow> survey_node
    \<Rightarrow> bytes option \<Rightarrow> u64 \<Rightarrow> bool" where
  "holds F read ctx \<equiv> held (set (wc_inodes ctx)) (set (deferred ctx)) F read (wc_inline_threshold ctx)"

lemma holds_grows:
  assumes "holds F read ctx path node t n" "grows ctx ctx' N"
  shows "holds F read ctx' path node t n"
  unfolding growsD(3) [OF assms(2)] by (rule held_mono [OF assms(1) growsD(1,2) [OF assms(2)]])

abbreviation entry_holds :: "(bytes \<times> survey_meta) set \<Rightarrow> (bytes \<Rightarrow> string + bytes) \<Rightarrow> write_context \<Rightarrow> bytes \<Rightarrow> dir_entry
    \<Rightarrow> bytes \<times> survey_node \<Rightarrow> bool" where
  "entry_holds F read ctx path e x \<equiv> de_name e = fst x \<and> de_entry_type e = entry_type_of (sn_meta (snd x))
     \<and> holds F read ctx (path_push path (fst x)) (snd x) (sn_symlink_target (snd x)) (de_inode_number e)"

lemma sort_entries:
  assumes "list_all2 (\<lambda>e x. de_name e = fst x \<and> Q e x) es children" "sorted_wrt (<) (map fst children)"
  shows "sort_key de_name es = es"
proof -
  have "map de_name es = map fst children"
    using assms(1) by (induction rule: list_all2_induct) auto
  with assms(2) have "sorted (map de_name es)" by (simp add: strict_sorted_iff)
  then show ?thesis by (rule sort_key_id_if_sorted)
qed

text \<open>Finishing a directory whose children are held.\<close>

lemma finish_directory:
  assumes inv: "fold_inv F read lo ctx" and bound: "unat (wc_next_inode ctx) + 1 < 2 ^ 64"
    and n: "alloc_inode (ctx\<lparr>wc_dir_count := Suc (wc_dir_count ctx)\<rparr>) = (n, ctx1)"
    and inv2: "fold_inv F read lo ctx2" and grown: "grows ctx1 ctx2 (de_inode_number ` set es)"
    and es: "\<forall>e \<in> set es. lo \<le> unat (de_inode_number e)" "encode_dir_node H es = Some node"
    and ctx': "ctx' = push_inode n meta (DirectoryOf es) (note_xattrs n meta (ctx2\<lparr>wc_dir_nodes := wc_dir_nodes ctx2 @ [node]\<rparr>))"
  shows "fold_inv F read lo ctx' \<and> grows ctx ctx' {n} \<and> lo \<le> unat n
    \<and> wc_next_inode ctx' = wc_next_inode ctx2 \<and> n = wc_next_inode ctx
    \<and> deferred ctx' = deferred ctx2 \<and> wc_inline_threshold ctx' = wc_inline_threshold ctx2
    \<and> (\<exists>p. wc_inodes ctx' = wc_inodes ctx2 @ [p] \<and> pi_number p = n \<and> has_meta p meta \<and> pi_content p = DirectoryOf es)"
proof -
  have c1: "n = wc_next_inode ctx" "ctx1 = ctx\<lparr>wc_dir_count := Suc (wc_dir_count ctx), wc_next_inode := wc_next_inode ctx + 1\<rparr>"
    using n by (auto simp: alloc_inode_def)
  have eq1: "wc_inodes ctx1 = wc_inodes ctx" "deferred ctx1 = deferred ctx" "node_refs ctx1 = node_refs ctx"
    "inode_numbers_of ctx1 = inode_numbers_of ctx" "wc_inline_threshold ctx1 = wc_inline_threshold ctx"
    "unat (wc_next_inode ctx1) = Suc (unat n)"
    using unat_next [OF bound] by (simp_all add: c1 deferred_def node_refs_def inode_numbers_of_def)
  obtain p where p: "wc_inodes ctx' = wc_inodes ctx2 @ [p]" "pi_number p = n" "has_meta p meta" "pi_content p = DirectoryOf es"
    by (rule push_inode_inodes [of n meta "DirectoryOf es" "note_xattrs n meta (ctx2\<lparr>wc_dir_nodes := wc_dir_nodes ctx2 @ [node]\<rparr>)"])
      (simp add: ctx')
  have wn: "wn_entries node = es" using es(2) by (auto simp: encode_dir_node_def bind_eq_Some_conv)
  have dd: "deferred ctx' = deferred ctx2" by (simp add: ctx') (simp add: deferred_def)
  have eq: "deferred ctx' = deferred ctx2" "node_refs ctx' = node_refs ctx2 \<union> de_inode_number ` set es"
    "set (inode_numbers_of ctx') = insert n (set (inode_numbers_of ctx2))"
    "distinct (inode_numbers_of ctx') \<longleftrightarrow> distinct (n # inode_numbers_of ctx2)"
    "wc_inline_threshold ctx' = wc_inline_threshold ctx2" "wc_next_inode ctx' = wc_next_inode ctx2"
    "wc_hardlink_targets ctx' = wc_hardlink_targets ctx2"
    using p(1,2) dd by (simp_all add: node_refs_def inode_numbers_of_def wn) (simp_all add: ctx' wn image_iff Un_commute, blast)
  have lt: "unat n < unat (wc_next_inode ctx2)" using growsD(4) [OF grown] eq1(6) by simp
  have lo: "lo \<le> unat n" using inv by (simp add: fold_inv_def c1)
  have old: "\<forall>x \<in> set (inode_numbers_of ctx). unat x < unat n" using inv by (simp add: fold_inv_def c1)
  then have "n \<notin> set (inode_numbers_of ctx2)" using growsD(6) [OF grown, of n] eq1 by auto
  moreover have "lo \<le> unat x \<and> (\<exists>path meta. (path, meta) \<in> F \<and> k = (sm_dev meta, sm_ino meta)
      \<and> held_content (set (wc_inodes ctx')) (set (deferred ctx')) read (wc_inline_threshold ctx') path meta x)"
    if k: "wc_hardlink_targets ctx' k = Some x" for k x
  proof -
    from k inv2 obtain path meta where "lo \<le> unat x" "(path, meta) \<in> F" "k = (sm_dev meta, sm_ino meta)"
      "held_content (set (wc_inodes ctx2)) (set (deferred ctx2)) read (wc_inline_threshold ctx2) path meta x"
      unfolding fold_inv_def eq by blast
    with held_content_mono [OF this(4), of "set (wc_inodes ctx')" "set (deferred ctx')"] p(1) show ?thesis by (auto simp: eq)
  qed
  ultimately have "fold_inv F read lo ctx'"
    using inv2 lt es(1) by (auto simp: fold_inv_def eq)
  moreover have "grows ctx ctx' {n}"
    unfolding grows_def
  proof (intro conjI ballI allI impI)
    show "x \<in> set (inode_numbers_of ctx) \<or> unat (wc_next_inode ctx) \<le> unat x" if "x \<in> set (inode_numbers_of ctx')" for x
      using that growsD(6) [OF grown, of x] by (auto simp: eq eq1 c1(1))
    show "q \<in> set (wc_inodes ctx) \<or> pi_number q \<in> {n} \<or> pi_number q \<in> node_refs ctx'"
      if "q \<in> set (wc_inodes ctx')" "pi_content q = DirectoryOf xs" for q xs
      using that growsD(7) [OF grown, of q xs] p by (auto simp: eq eq1)
  qed (use growsD(1-5) [OF grown] p(1) lt in \<open>auto simp: eq eq1 c1(1)\<close>)
  ultimately show ?thesis using lo eq(1,5,6) c1(1) p by auto
qed

definition children_size :: "(bytes \<times> survey_node) list \<Rightarrow> nat" where
  "children_size children = size_list (size_prod (\<lambda>_. 0) size) children"

lemma children_size_simps [simp]:
  "children_size [] = 0" "children_size ((name, child) # children) = Suc (Suc (size child + children_size children))"
  by (simp_all add: children_size_def)

lemma size_node: "children_size children < size (SurveyNode meta children tgt)"
  by (simp add: children_size_def)

lemma fold_holds:
  assumes wf: "wf_survey disk_root root"
  defines "F \<equiv> survey_files disk_root root"
  shows "fold_survey H read path node t ctx = Some (Inr (n, ctx')) \<Longrightarrow> surveyed disk_root root names path node t
      \<Longrightarrow> fold_inv F read lo ctx \<Longrightarrow> unat (wc_next_inode ctx) + size node < 2 ^ 64
      \<Longrightarrow> fold_inv F read lo ctx' \<and> grows ctx ctx' {n} \<and> lo \<le> unat n \<and> holds F read ctx' path node t n
        \<and> unat (wc_next_inode ctx') \<le> unat (wc_next_inode ctx) + size node"
    and "fold_children H read path children entries ctx = Some (Inr (entries', ctx')) \<Longrightarrow> surveyed disk_root root names path parent None
      \<Longrightarrow> sm_is_dir (sn_meta parent) \<Longrightarrow> set children \<subseteq> set (sn_children parent)
      \<Longrightarrow> fold_inv F read lo ctx \<Longrightarrow> unat (wc_next_inode ctx) + children_size children < 2 ^ 64
      \<Longrightarrow> \<exists>es. entries' = entries @ es \<and> list_all2 (entry_holds F read ctx' path) es children
        \<and> (\<forall>e \<in> set es. lo \<le> unat (de_inode_number e)) \<and> fold_inv F read lo ctx' \<and> grows ctx ctx' (de_inode_number ` set es)
        \<and> unat (wc_next_inode ctx') \<le> unat (wc_next_inode ctx) + children_size children"
proof (induction H read path node t ctx and H read path children entries ctx arbitrary: n ctx' names and entries' ctx' names parent
    rule: fold_survey_fold_children.induct)
  case (1 H read path meta children tgt t ctx)
  have one: "unat (wc_next_inode ctx) + 1 < 2 ^ 64" using "1.prems"(4) by simp
  show ?case
  proof (cases t)
    case (Some target)
    define c where "c = ctx\<lparr>wc_next_inode := wc_next_inode ctx + 1\<rparr>"
    have n: "n = wc_next_inode ctx" and ctx': "ctx' = push_inode n meta (SymlinkTo target) c"
      using "1.prems"(1) Some by (auto simp: alloc_inode_def c_def)
    have c: "deferred c = deferred ctx" "wc_inodes c = wc_inodes ctx" "wc_dir_nodes c = wc_dir_nodes ctx"
      "wc_hardlink_targets c = wc_hardlink_targets ctx" "wc_next_inode c = wc_next_inode ctx + 1"
      "wc_inline_threshold c = wc_inline_threshold ctx" by (simp_all add: c_def deferred_def)
    obtain p where p: "wc_inodes ctx' = wc_inodes ctx @ [p]" "pi_number p = n" "has_meta p meta" "pi_content p = SymlinkTo target"
      by (rule push_inode_inodes [of n meta "SymlinkTo target" c]) (simp add: ctx' c)
    have "fold_inv F read lo ctx' \<and> grows ctx ctx' {n} \<and> lo \<le> unat n \<and> unat (wc_next_inode ctx') = Suc (unat (wc_next_inode ctx))"
      by (rule one_more [OF "1.prems"(3) one _ n p(1), of "[]"]) (use p in \<open>auto simp: ctx' c\<close>)
    moreover have "holds F read ctx' path (SurveyNode meta children tgt) t n"
      unfolding Some by (rule held_link [of p]) (use p in auto)
    ultimately show ?thesis by simp
  next
    case None
    show ?thesis
    proof (cases "sm_is_dir meta")
      case True
      obtain n' c1 where alloc: "alloc_inode (ctx\<lparr>wc_dir_count := Suc (wc_dir_count ctx)\<rparr>) = (n', c1)" by fastforce
      with "1.prems"(1) None True obtain entries c2 node where run: "fold_children H read path children [] c1 = Some (Inr (entries, c2))"
        and enc: "encode_dir_node H (sort_key de_name entries) = Some node" and n: "n' = n"
        and ctx': "ctx' = push_inode n meta (DirectoryOf (sort_key de_name entries)) (note_xattrs n meta (c2\<lparr>wc_dir_nodes := wc_dir_nodes c2 @ [node]\<rparr>))"
        by (auto split: option.splits sum.splits prod.splits)
      have c1: "c1 = ctx\<lparr>wc_dir_count := Suc (wc_dir_count ctx), wc_next_inode := wc_next_inode ctx + 1\<rparr>"
        using alloc by (auto simp: alloc_inode_def)
      have nx: "unat (wc_next_inode c1) = Suc (unat (wc_next_inode ctx))" using unat_next [OF one] by (simp add: c1)
      have same: "deferred c1 = deferred ctx" "node_refs c1 = node_refs ctx" "wc_inodes c1 = wc_inodes ctx"
        "wc_hardlink_targets c1 = wc_hardlink_targets ctx" "wc_inline_threshold c1 = wc_inline_threshold ctx"
        by (simp_all add: c1 deferred_def node_refs_def)
      have "fold_inv F read lo c1"
        using "1.prems"(3) unfolding fold_inv_def inode_numbers_of_def same nx by (simp add: less_SucI)
      moreover have "surveyed disk_root root names path (SurveyNode meta children tgt) None" using "1.prems"(2) None by simp
      moreover have "unat (wc_next_inode c1) + children_size children < 2 ^ 64"
        using "1.prems"(4) nx size_node [of children meta tgt] by linarith
      ultimately obtain es where es: "entries = es" "list_all2 (entry_holds F read c2 path) es children"
        "\<forall>e \<in> set es. lo \<le> unat (de_inode_number e)" "fold_inv F read lo c2" "grows c1 c2 (de_inode_number ` set es)"
        "unat (wc_next_inode c2) \<le> unat (wc_next_inode c1) + children_size children"
        using "1.IH" [OF None True alloc [symmetric] run, of names "SurveyNode meta children tgt"] True by auto
      have "sorted_wrt (<) (map fst children)" using wf [unfolded wf_survey_def, rule_format, OF "1.prems"(2)] by simp
      then have sorted: "sort_key de_name entries = es" using sort_entries [OF es(2)] es(1) by simp
      have "alloc_inode (ctx\<lparr>wc_dir_count := Suc (wc_dir_count ctx)\<rparr>) = (n, c1)" using alloc n by simp
      from finish_directory [OF "1.prems"(3) one this es(4,5,3) enc [unfolded sorted] ctx' [unfolded sorted]]
      obtain p where fin: "fold_inv F read lo ctx'" "grows ctx ctx' {n}" "lo \<le> unat n" "wc_next_inode ctx' = wc_next_inode c2"
        "deferred ctx' = deferred c2" "wc_inline_threshold ctx' = wc_inline_threshold c2"
        and p: "wc_inodes ctx' = wc_inodes c2 @ [p]" "pi_number p = n" "has_meta p meta" "pi_content p = DirectoryOf es" by blast
      have "list_all2 (entry_holds F read ctx' path) es children"
        using es(2) by (rule list_all2_mono) (use fin(5,6) p(1) in \<open>auto elim: held_mono\<close>)
      then have "holds F read ctx' path (SurveyNode meta children tgt) t n"
        unfolding None by (intro held_dir [of meta p, OF True]) (use p in auto)
      moreover have "unat (wc_next_inode ctx') \<le> unat (wc_next_inode ctx) + size (SurveyNode meta children tgt)"
        using fin(4) es(6) nx size_node [of children meta tgt] by simp
      ultimately show ?thesis using fin by blast
    next
      case False
      with "1.prems"(1) None have regular: "sm_is_file meta" and run: "fold_file read path meta ctx = Inr (n, ctx')"
        by (auto split: if_splits)
      have "(path, meta) \<in> F" using "1.prems"(2) None False regular unfolding F_def survey_files_def by blast
      from fold_file_ok [OF run "1.prems"(3) this one] growsD(3) [of ctx ctx' "{n}"]
      show ?thesis unfolding None by (auto intro: held_file [OF False regular])
    qed
  qed
next
  case (2 H read path entries ctx)
  then show ?case by (auto intro: grows_refl)
next
  case (3 H read path name child children entries ctx)
  from "3.prems"(1) obtain n c1 where run: "fold_survey H read (path_push path name) child (sn_symlink_target child) ctx = Some (Inr (n, c1))"
    and rest: "fold_children H read path children
        (entries @ [\<lparr>de_name = name, de_inode_number = n, de_entry_type = entry_type_of (sn_meta child)\<rparr>]) c1 = Some (Inr (entries', ctx'))"
    by (auto split: option.splits sum.splits)
  let ?e = "\<lparr>de_name = name, de_inode_number = n, de_entry_type = entry_type_of (sn_meta child)\<rparr>"
  have child: "surveyed disk_root root (names @ [name]) (path_push path name) child (sn_symlink_target child)"
    using "3.prems"(2-4) by (intro survey_child) auto
  have "unat (wc_next_inode ctx) + size child < 2 ^ 64" using "3.prems"(6) by simp
  from "3.IH"(1) [OF run child "3.prems"(5) this]
  have c1: "fold_inv F read lo c1" "grows ctx c1 {n}" "lo \<le> unat n" "holds F read c1 (path_push path name) child (sn_symlink_target child) n"
    "unat (wc_next_inode c1) \<le> unat (wc_next_inode ctx) + size child" by blast+
  have "unat (wc_next_inode c1) + children_size children < 2 ^ 64" "set children \<subseteq> set (sn_children parent)"
    using c1(5) "3.prems"(4,6) by auto
  with "3.IH"(2) [OF run refl refl rest "3.prems"(2,3) _ c1(1)]
  obtain es where es: "entries' = (entries @ [?e]) @ es" "list_all2 (entry_holds F read ctx' path) es children"
    "\<forall>e \<in> set es. lo \<le> unat (de_inode_number e)" "fold_inv F read lo ctx'" "grows c1 ctx' (de_inode_number ` set es)"
    "unat (wc_next_inode ctx') \<le> unat (wc_next_inode c1) + children_size children" by blast
  have "grows ctx ctx' (de_inode_number ` set (?e # es))" using grows_trans [OF c1(2) es(5)] by simp
  moreover have "list_all2 (entry_holds F read ctx' path) (?e # es) ((name, child) # children)"
    using es(2) holds_grows [OF c1(4) es(5)] by simp
  ultimately show ?case using es c1(3,5) by (intro exI [of _ "?e # es"]) auto
qed

text \<open>With a channel open, nothing is buffered.\<close>

lemma fold_file_pending:
  "fold_file read path meta ctx = Inr (n, ctx') \<Longrightarrow> wc_pending_sink ctx \<noteq> None \<Longrightarrow>
    wc_pending_files ctx' = wc_pending_files ctx \<and> wc_pending_sink ctx' \<noteq> None"
  by (auto simp: fold_file_def alloc_inode_def defer_file_def push_inode_def Let_def
      split: option.splits sum.splits if_splits nat.splits prod.splits)

lemma fold_pending:
  "fold_survey H read path node t ctx = Some (Inr (n, ctx')) \<Longrightarrow> wc_pending_sink ctx \<noteq> None \<Longrightarrow>
    wc_pending_files ctx' = wc_pending_files ctx \<and> wc_pending_sink ctx' \<noteq> None"
  "fold_children H read path children entries ctx = Some (Inr (entries', ctx')) \<Longrightarrow> wc_pending_sink ctx \<noteq> None \<Longrightarrow>
    wc_pending_files ctx' = wc_pending_files ctx \<and> wc_pending_sink ctx' \<noteq> None"
proof (induction H read path node t ctx and H read path children entries ctx arbitrary: n ctx' and entries' ctx'
    rule: fold_survey_fold_children.induct)
  case (1 H read path meta children tgt t ctx)
  show ?case
  proof (cases "t = None \<and> sm_is_dir meta")
    case True
    obtain n' c1 where alloc: "alloc_inode (ctx\<lparr>wc_dir_count := Suc (wc_dir_count ctx)\<rparr>) = (n', c1)" by fastforce
    with "1.prems"(1) True obtain entries c2 where run: "fold_children H read path children [] c1 = Some (Inr (entries, c2))"
      and ctx': "wc_pending_files ctx' = wc_pending_files c2" "wc_pending_sink ctx' = wc_pending_sink c2"
      by (auto simp: push_inode_def split: option.splits sum.splits prod.splits)
    have "wc_pending_files c1 = wc_pending_files ctx" "wc_pending_sink c1 = wc_pending_sink ctx"
      using alloc by (auto simp: alloc_inode_def)
    with "1.IH" [OF _ _ alloc [symmetric] run] True "1.prems"(2) ctx' show ?thesis by auto
  next
    case False
    with "1.prems" fold_file_pending [of read path meta ctx n ctx'] show ?thesis
      by (auto simp: alloc_inode_def push_inode_def split: option.splits if_splits)
  qed
next
  case (3 H read path name child children entries ctx)
  from "3.prems"(1) obtain n c1 where run: "fold_survey H read (path_push path name) child (sn_symlink_target child) ctx = Some (Inr (n, c1))"
    and rest: "fold_children H read path children
        (entries @ [\<lparr>de_name = name, de_inode_number = n, de_entry_type = entry_type_of (sn_meta child)\<rparr>]) c1 = Some (Inr (entries', ctx'))"
    by (auto split: option.splits sum.splits)
  from "3.IH"(1) [OF run "3.prems"(2)] "3.IH"(2) [OF run refl refl rest] show ?case by simp
qed auto

section \<open>The merged files\<close>

definition merged_inode :: "pending_file \<Rightarrow> chunked_file_result \<Rightarrow> pending_inode" where
  "merged_inode pf r = \<lparr>pi_number = pf_inode_number pf, pi_mode = pf_mode pf, pi_uid = pf_uid pf, pi_gid = pf_gid pf,
     pi_mtime_ns = pf_mtime_ns pf, pi_xattrs = [], pi_content = DropBacked (pf_file_len pf) (cf_slices r)\<rparr>"

lemma merge_drops_sel:
  "wc_inodes (fold (merge_drop classify) ds ctx) = wc_inodes ctx \<and> wc_dir_nodes (fold (merge_drop classify) ds ctx) = wc_dir_nodes ctx
    \<and> wc_root_inode_number (fold (merge_drop classify) ds ctx) = wc_root_inode_number ctx"
  by (induction ds arbitrary: ctx) (simp_all add: merge_drop_def Let_def)

lemma merge_results_inodes:
  "merge_results classify process pfs ctx = Inr ctx' \<Longrightarrow>
    \<exists>rs. list_all2 (\<lambda>pf r. process pf = Inr r) pfs rs \<and> wc_inodes ctx' = wc_inodes ctx @ map2 merged_inode pfs rs
      \<and> wc_dir_nodes ctx' = wc_dir_nodes ctx \<and> wc_root_inode_number ctx' = wc_root_inode_number ctx"
proof (induction pfs arbitrary: ctx)
  case (Cons pf pfs)
  then obtain r where r: "process pf = Inr r" "merge_results classify process pfs (merge_chunked_file classify pf r ctx) = Inr ctx'"
    by (auto split: sum.splits)
  from Cons.IH [OF r(2)] obtain rs where rs: "list_all2 (\<lambda>pf r. process pf = Inr r) pfs rs"
    "wc_inodes ctx' = wc_inodes (merge_chunked_file classify pf r ctx) @ map2 merged_inode pfs rs"
    "wc_dir_nodes ctx' = wc_dir_nodes (merge_chunked_file classify pf r ctx)"
    "wc_root_inode_number ctx' = wc_root_inode_number (merge_chunked_file classify pf r ctx)" by blast
  with r(1) show ?case
    by (intro exI [of _ "r # rs"]) (simp add: merge_chunked_file_def Let_def merge_drops_sel merged_inode_def)
qed simp

lemma merged_numbers: "list_all2 Q pfs rs \<Longrightarrow> map pi_number (map2 merged_inode pfs rs) = map pf_inode_number pfs"
  by (induction rule: list_all2_induct) (simp_all add: merged_inode_def)

lemma merged_mem:
  "list_all2 (\<lambda>pf r. process pf = Inr r) pfs rs \<Longrightarrow> pf \<in> set pfs \<Longrightarrow> \<exists>r. process pf = Inr r \<and> merged_inode pf r \<in> set (map2 merged_inode pfs rs)"
  by (induction rule: list_all2_induct) auto

lemma merged_not_dir: "p \<in> set (map2 merged_inode pfs rs) \<Longrightarrow> pi_content p \<noteq> DirectoryOf es"
  by (auto simp: merged_inode_def set_zip)

section \<open>Reading the blob by number\<close>

lemma find_distinct: "distinct (map f xs) \<Longrightarrow> x \<in> set xs \<Longrightarrow> find (\<lambda>y. f y = f x) xs = Some x"
  by (induction xs) (auto simp: image_iff)

lemma filter_distinct: "distinct (map f xs) \<Longrightarrow> x \<in> set xs \<Longrightarrow> filter (\<lambda>y. f y = f x) xs = [x]"
  by (induction xs) (auto simp: image_iff filter_empty_conv)

lemma find_map: "find P (map f xs) = map_option f (find (\<lambda>x. P (f x)) xs)"
  by (induction xs) simp_all

lemma stored_by_number:
  assumes "distinct (map pi_number (wc_inodes ctx))" "p \<in> set (wc_inodes ctx)"
  shows "inode_by_number (written_blob H ctx) (pi_number p) = Some (stored_inode H ctx p)"
proof -
  have "find (\<lambda>i. in_number i = in_number (stored_inode H ctx p)) (map (stored_inode H ctx) (wc_inodes ctx)) = Some (stored_inode H ctx p)"
    by (rule find_distinct) (use assms in \<open>auto simp: comp_def stored_inode_def\<close>)
  then show ?thesis by (simp add: inode_by_number_def written_blob_def stored_inode_def)
qed

text \<open>No two different directory nodes have the same hash.\<close>

definition nodes_collision_free :: "(bytes \<Rightarrow> bytes) \<Rightarrow> write_context \<Rightarrow> bool" where
  "nodes_collision_free H ctx \<longleftrightarrow> inj_on H (wn_bytes ` set (wc_dir_nodes ctx)) \<and> (\<forall>n \<in> set (wc_dir_nodes ctx). length (wn_bytes n) < usize_bound)"

lemma node_by_hash:
  assumes "nodes_collision_free H ctx" "\<forall>n \<in> set (wc_dir_nodes ctx). writable_node H n" "node \<in> set (wc_dir_nodes ctx)"
  shows "\<exists>dn. dir_node_by_hash H (written_blob H ctx) (wn_hash node) = Some dn \<and> dn_entries dn = wn_entries node"
proof -
  have hash: "dir_node_hash H (wn_entries n) = Some (wn_hash n)" "wn_hash n = H (wn_bytes n)" if "n \<in> set (wc_dir_nodes ctx)" for n
    using that assms(2) writable_nodeD(1,2) [of H n] by (auto simp: dir_node_hash_of_bytes)
  have "wn_entries n = wn_entries node" if n: "n \<in> set (wc_dir_nodes ctx)" "wn_hash n = wn_hash node" for n
  proof -
    have "wn_bytes n = wn_bytes node"
      using n assms(1,3) hash(2) by (auto simp: nodes_collision_free_def dest: inj_onD)
    moreover have "valid_directory_node (stored_node n)" "valid_directory_node (stored_node node)"
      "encode_directory_node (stored_node n) = Some (wn_bytes n)" "encode_directory_node (stored_node node) = Some (wn_bytes node)"
      using n(1) assms(2,3) writable_nodeD(3) by (auto simp: writable_node_def)
    ultimately have "stored_node n = stored_node node"
      using directory_node.encode_inj assms(1,3) by (metis nodes_collision_free_def)
    then show ?thesis by (simp add: stored_node_def)
  qed
  moreover have "find (\<lambda>n. dir_node_hash H (wn_entries n) = Some (wn_hash node)) (wc_dir_nodes ctx) \<noteq> None"
    using assms(3) hash(1) by (auto simp: find_None_iff)
  then obtain n where "find (\<lambda>n. dir_node_hash H (wn_entries n) = Some (wn_hash node)) (wc_dir_nodes ctx) = Some n" by blast
  moreover from this have "n \<in> set (wc_dir_nodes ctx)" "dir_node_hash H (wn_entries n) = Some (wn_hash node)" by (auto dest: find_SomeD)
  ultimately show ?thesis
    using hash(1) [of n] by (auto simp: dir_node_by_hash_def written_blob_def find_map stored_node_def)
qed

lemma dir_children_stored:
  assumes "writable_context H m ctx" "nodes_collision_free H ctx" "distinct (map pi_number (wc_inodes ctx))" "p \<in> set (wc_inodes ctx)"
  shows "dir_children H (written_blob H ctx) (pi_number p) = (case pi_content p of DirectoryOf es \<Rightarrow> es | _ \<Rightarrow> [])"
proof (cases "pi_content p")
  case (DirectoryOf es)
  have nodes: "\<forall>n \<in> set (wc_dir_nodes ctx). writable_node H n" using assms(1) by (simp add: writable_context_def)
  from DirectoryOf assms(1,4) obtain node where node: "node \<in> set (wc_dir_nodes ctx)" "wn_entries node = es"
    by (fastforce simp: writable_context_def writable_inode_def)
  then have "dir_node_hash H es = Some (wn_hash node)"
    using nodes writable_nodeD(1,2) [of H node] by (auto simp: dir_node_hash_of_bytes)
  with node_by_hash [OF assms(2) nodes node(1)] stored_by_number [OF assms(3,4), of H] DirectoryOf node(2) show ?thesis
    by (auto simp: dir_children_def stored_inode_def handle_of_def)
qed (use stored_by_number [OF assms(3,4), of H] in \<open>simp_all add: dir_children_def stored_inode_def handle_of_def\<close>)

lemma stored_is_directory:
  assumes "writable_inode H m ctx p"
  shows "is_directory (stored_inode H ctx p) \<longleftrightarrow> (\<exists>es. pi_content p = DirectoryOf es)"
  using assms
  by (cases "pi_content p")
    (auto simp: writable_inode_def valid_inode_def stored_inode_def handle_of_def valid_handle_def is_directory_def file_type_def file_type_defs)

lemma stored_root:
  assumes w: "writable_context H m ctx" and d: "distinct (map pi_number (wc_inodes ctx))"
    and r: "p \<in> set (wc_inodes ctx)" "pi_number p = r" "pi_content p = DirectoryOf es" "r \<notin> node_refs ctx"
    and others: "\<And>q xs. q \<in> set (wc_inodes ctx) \<Longrightarrow> pi_content q = DirectoryOf xs \<Longrightarrow> pi_number q = r \<or> pi_number q \<in> node_refs ctx"
  shows "root_inode_number (written_blob H ctx) = Some r"
proof -
  have refs: "set (referenced_inodes (written_blob H ctx)) = node_refs ctx"
    by (auto simp: referenced_inodes_def written_blob_def node_refs_def stored_node_def)
  have "is_directory (stored_inode H ctx q) \<and> in_number (stored_inode H ctx q) \<notin> node_refs ctx \<longleftrightarrow> pi_number q = pi_number p"
    if q: "q \<in> set (wc_inodes ctx)" for q
  proof -
    have "writable_inode H m ctx q" using w q by (simp add: writable_context_def)
    moreover have "q = p" if "pi_number q = pi_number p" using that q r(1) d by (auto simp: distinct_map dest: inj_onD)
    ultimately show ?thesis using stored_is_directory [of H m ctx q] r others [OF q] by (auto simp: stored_inode_def)
  qed
  then have "filter (\<lambda>i. is_directory i \<and> in_number i \<notin> node_refs ctx) (mb_inodes (written_blob H ctx)) = map (stored_inode H ctx) [p]"
    using filter_distinct [OF d r(1)] by (simp add: written_blob_def filter_map comp_def cong: filter_cong)
  then have "root_candidates (written_blob H ctx) = [r]" using r(2) by (simp add: root_candidates_def refs stored_inode_def)
  then show ?thesis by (simp add: root_inode_number_def)
qed

section \<open>The whole write\<close>

definition fresh_context :: "write_context \<Rightarrow> bool" where
  "fresh_context ctx \<longleftrightarrow> wc_next_inode ctx = 1 \<and> wc_hardlink_targets ctx = Map.empty \<and> wc_inodes ctx = [] \<and> wc_dir_nodes ctx = []
     \<and> wc_pending_files ctx = []"

lemma fold_root:
  assumes wf: "wf_survey disk_root root" and dir: "sm_is_dir (sn_meta root)" and fresh: "fresh_context ctx0"
    and sink: "wc_pending_sink ctx0 = Some (k, [])"
    and run: "fold_survey H read disk_root root None ctx0 = Some (Inr (r, ctx))" and bound: "size root + 1 < 2 ^ 64"
  defines "F \<equiv> survey_files disk_root root"
  shows "fold_inv F read 0 ctx \<and> grows ctx0 ctx {r} \<and> holds F read ctx disk_root root None r \<and> r \<notin> node_refs ctx"
proof -
  have d0: "deferred ctx0 = []" using fresh sink by (simp add: fresh_context_def deferred_def)
  have inv0: "fold_inv F read 0 ctx0"
    using fresh d0 by (simp add: fresh_context_def fold_inv_def node_refs_def inode_numbers_of_def)
  have "unat (wc_next_inode ctx0) + size root < 2 ^ 64" using fresh bound by (simp add: fresh_context_def)
  from fold_holds(1) [OF wf run survey_root inv0 [unfolded F_def] this]
  have main: "fold_inv F read 0 ctx" "grows ctx0 ctx {r}" "holds F read ctx disk_root root None r" unfolding F_def by blast+
  obtain meta children tgt where root: "root = SurveyNode meta children tgt" by (cases root)
  obtain n c1 where alloc: "alloc_inode (ctx0\<lparr>wc_dir_count := Suc (wc_dir_count ctx0)\<rparr>) = (n, c1)" by fastforce
  with run dir root obtain entries c2 node where run2: "fold_children H read disk_root children [] c1 = Some (Inr (entries, c2))"
    and enc: "encode_dir_node H (sort_key de_name entries) = Some node" and n: "n = r"
    and ctx: "ctx = push_inode r meta (DirectoryOf (sort_key de_name entries)) (note_xattrs r meta (c2\<lparr>wc_dir_nodes := wc_dir_nodes c2 @ [node]\<rparr>))"
    by (auto split: option.splits sum.splits prod.splits)
  have c1: "r = 1" "wc_next_inode c1 = 2" "wc_hardlink_targets c1 = Map.empty" "wc_inodes c1 = []" "wc_dir_nodes c1 = []" "deferred c1 = []"
    using alloc n fresh d0 by (auto simp: alloc_inode_def fresh_context_def deferred_def)
  then have "fold_inv F read 2 c1" by (simp add: fold_inv_def node_refs_def inode_numbers_of_def)
  moreover have "unat (wc_next_inode c1) + children_size children < 2 ^ 64"
    using bound size_node [of children meta tgt] by (simp add: c1(2) root)
  ultimately obtain es where es: "entries = es" "\<forall>e \<in> set es. 2 \<le> unat (de_inode_number e)" "fold_inv F read 2 c2"
    using fold_holds(2) [OF wf run2 survey_root, of 2] dir root unfolding F_def by auto
  have "wn_entries node = sort_key de_name entries" using enc by (auto simp: encode_dir_node_def bind_eq_Some_conv)
  then have "node_refs ctx = node_refs c2 \<union> de_inode_number ` set es" by (auto simp: node_refs_def ctx es(1))
  then have "\<forall>x \<in> node_refs ctx. 2 \<le> unat x" using es(2,3) by (auto simp: fold_inv_def)
  with main c1(1) show ?thesis by auto
qed

text \<open>What the blob has for a surveyed node under an inode number: mode, owner and time of the node, the target of a link,
  and for a file the bytes read from it or the slices its chunks were stored in. Hard links share the inode of the
  first name met, so a file is described by some surveyed file with the same device and inode.\<close>

definition carries_meta :: "inode \<Rightarrow> survey_meta \<Rightarrow> bool" where
  "carries_meta i meta \<longleftrightarrow> in_mode i = sm_mode meta \<and> in_uid i = sm_uid meta \<and> in_gid i = sm_gid meta \<and> in_mtime_ns i = sm_mtime_ns meta"

definition stores_file :: "(bytes \<times> survey_meta) set \<Rightarrow> (bytes \<Rightarrow> string + bytes) \<Rightarrow> (pending_file \<Rightarrow> write_error + chunked_file_result)
    \<Rightarrow> nat \<Rightarrow> inode \<Rightarrow> survey_meta \<Rightarrow> bool" where
  "stores_file F read process thr i meta \<longleftrightarrow>
     (\<exists>path' meta'. (path', meta') \<in> F \<and> same_file meta meta' \<and> carries_meta i meta'
        \<and> (if unat (sm_len meta') \<le> thr
            then \<exists>d. read path' = Inr d \<and> in_content_handle i = InlineData d
            else \<exists>r. process (file_for (in_number i) path' meta') = Inr r \<and> in_content_handle i = SliceMap (map slice_of (cf_slices r))))"

definition stored_as :: "metadata_blob \<Rightarrow> (bytes \<times> survey_meta) set \<Rightarrow> (bytes \<Rightarrow> string + bytes)
    \<Rightarrow> (pending_file \<Rightarrow> write_error + chunked_file_result) \<Rightarrow> nat \<Rightarrow> survey_node \<Rightarrow> bytes option \<Rightarrow> u64 \<Rightarrow> bool" where
  "stored_as blob F read process thr node t n \<longleftrightarrow>
     (\<exists>i. inode_by_number blob n = Some i \<and> in_number i = n
        \<and> (case t of
             Some target \<Rightarrow> carries_meta i (sn_meta node) \<and> in_content_handle i = Symlink target
           | None \<Rightarrow>
               if sm_is_dir (sn_meta node) then carries_meta i (sn_meta node) \<and> (\<exists>h. in_content_handle i = Directory h)
               else stores_file F read process thr i (sn_meta node)))"

lemma stored_carries: "has_meta p meta \<Longrightarrow> carries_meta (stored_inode H ctx p) meta"
  by (simp add: has_meta_def carries_meta_def stored_inode_def)

lemma held_stored_as:
  assumes "held S P F read thr path node t n" "S \<subseteq> set (wc_inodes ctx)"
    and "\<forall>pf \<in> P. \<exists>r. process pf = Inr r \<and> merged_inode pf r \<in> set (wc_inodes ctx)"
    and "distinct (map pi_number (wc_inodes ctx))"
  shows "stored_as (written_blob H ctx) F read process thr node t n"
  using assms(1)
proof (cases rule: held.cases)
  case (held_link p meta target children tgt)
  with assms(2) stored_by_number [OF assms(4), of p H] stored_carries [of p meta H ctx] show ?thesis
    by (auto simp: stored_as_def) (auto simp: stored_inode_def handle_of_def)
next
  case (held_dir meta p es children tgt)
  with assms(2) stored_by_number [OF assms(4), of p H] stored_carries [of p meta H ctx] show ?thesis
    by (auto simp: stored_as_def) (auto simp: stored_inode_def handle_of_def)
next
  case (held_file meta path' meta' children tgt)
  have "\<exists>i. inode_by_number (written_blob H ctx) n = Some i \<and> in_number i = n \<and> stores_file F read process thr i meta"
  proof (cases "unat (sm_len meta') \<le> thr")
    case True
    with held_file(7) obtain p d where p: "p \<in> S" "pi_number p = n" "has_meta p meta'" "read path' = Inr d" "pi_content p = Inline d"
      by (auto simp: held_content_def)
    have "stores_file F read process thr (stored_inode H ctx p) meta"
      unfolding stores_file_def using True p held_file(5,6) stored_carries [OF p(3)]
      by (intro exI [of _ path'] exI [of _ meta']) (auto simp: stored_inode_def handle_of_def)
    moreover have "in_number (stored_inode H ctx p) = n" using p(2) by (simp add: stored_inode_def)
    ultimately show ?thesis using stored_by_number [OF assms(4), of p H] p(1,2) assms(2) by auto
  next
    case False
    with held_file(7) have "file_for n path' meta' \<in> P" by (simp add: held_content_def)
    from bspec [OF assms(3) this] obtain r where r: "process (file_for n path' meta') = Inr r"
      "merged_inode (file_for n path' meta') r \<in> set (wc_inodes ctx)" by blast
    let ?p = "merged_inode (file_for n path' meta') r"
    have p: "pi_number ?p = n" "has_meta ?p meta'" "pi_content ?p = DropBacked (sm_len meta') (cf_slices r)"
      by (simp_all add: merged_inode_def file_for_def has_meta_def)
    have num: "in_number (stored_inode H ctx ?p) = n" using p(1) by (simp add: stored_inode_def)
    have "stores_file F read process thr (stored_inode H ctx ?p) meta"
      unfolding stores_file_def using False p held_file(5,6) stored_carries [OF p(2)] r(1) num
      by (intro exI [of _ path'] exI [of _ meta']) (auto simp: stored_inode_def handle_of_def)
    with num show ?thesis using stored_by_number [OF assms(4) r(2), of H] p(1) by auto
  qed
  with held_file show ?thesis by (auto simp: stored_as_def)
qed

lemma list_all2_left: "list_all2 Q xs ys \<Longrightarrow> x \<in> set xs \<Longrightarrow> \<exists>y \<in> set ys. Q x y"
  by (induction rule: list_all2_induct) auto

text \<open>The directory entries the blob has for a held node.\<close>

lemma held_children:
  assumes "held S P F read thr path node t n" "S \<subseteq> set (wc_inodes ctx)"
    and "\<forall>pf \<in> P. \<exists>r. process pf = Inr r \<and> merged_inode pf r \<in> set (wc_inodes ctx)"
    and "distinct (map pi_number (wc_inodes ctx))" "writable_context H m ctx" "nodes_collision_free H ctx"
  shows "t = None \<and> sm_is_dir (sn_meta node) \<and> list_all2 (\<lambda>e x. de_name e = fst x
      \<and> held S P F read thr (path_push path (fst x)) (snd x) (sn_symlink_target (snd x)) (de_inode_number e))
      (dir_children H (written_blob H ctx) n) (sn_children node)
    \<or> (t \<noteq> None \<or> \<not> sm_is_dir (sn_meta node)) \<and> dir_children H (written_blob H ctx) n = []"
  using assms(1)
proof (cases rule: held.cases)
  case (held_link p meta target children tgt)
  with dir_children_stored [OF assms(5,6,4), of p] assms(2) show ?thesis by auto
next
  case (held_dir meta p es children tgt)
  with dir_children_stored [OF assms(5,6,4), of p] assms(2) show ?thesis by (auto elim!: list_all2_mono)
next
  case (held_file meta path' meta' children tgt)
  have "\<exists>p \<in> set (wc_inodes ctx). pi_number p = n \<and> (\<forall>es. pi_content p \<noteq> DirectoryOf es)"
  proof (cases "unat (sm_len meta') \<le> thr")
    case True
    with held_file(7) assms(2) show ?thesis by (fastforce simp: held_content_def)
  next
    case False
    with held_file(7) have "file_for n path' meta' \<in> P" by (simp add: held_content_def)
    from bspec [OF assms(3) this] obtain r where "merged_inode (file_for n path' meta') r \<in> set (wc_inodes ctx)" by blast
    then show ?thesis by (rule bexI [rotated]) (simp add: merged_inode_def file_for_def)
  qed
  with dir_children_stored [OF assms(5,6,4)] held_file show ?thesis by (fastforce split: pending_content.splits)
qed

lemma write_tree_holds:
  assumes run: "write_tree H read classify process sends disk_root root ctx0 = Inr ctx" and fresh: "fresh_context ctx0"
    and wf: "wf_survey disk_root root" and dir: "sm_is_dir (sn_meta root)" and bound: "size root + 1 < 2 ^ 64"
  obtains S P where "held S P (survey_files disk_root root) read (wc_inline_threshold ctx0) disk_root root None (wc_root_inode_number ctx)"
    "S \<subseteq> set (wc_inodes ctx)" "\<forall>pf \<in> P. \<exists>r. process pf = Inr r \<and> merged_inode pf r \<in> set (wc_inodes ctx)"
    "distinct (map pi_number (wc_inodes ctx))" "wc_root_inode_number ctx \<notin> node_refs ctx"
    "\<forall>p \<in> set (wc_inodes ctx). \<forall>es. pi_content p = DirectoryOf es \<longrightarrow> pi_number p = wc_root_inode_number ctx \<or> pi_number p \<in> node_refs ctx"
proof -
  let ?ctx0 = "ctx0\<lparr>wc_pending_sink := Some (sends, [])\<rparr>"
  define sent where "sent c = (case wc_pending_sink c of None \<Rightarrow> [] | Some (_, fs) \<Rightarrow> fs)" for c :: write_context
  from run obtain r c where fold: "fold_survey H read disk_root root None ?ctx0 = Some (Inr (r, c))"
    and merge: "merge_results classify process (sent c) (c\<lparr>wc_pending_sink := None, wc_root_inode_number := r\<rparr>) = Inr ctx"
    by (auto simp: write_tree_def sent_def Let_def split: option.splits sum.splits)
  have f0: "fresh_context ?ctx0" "wc_pending_sink ?ctx0 = Some (sends, [])" using fresh by (simp_all add: fresh_context_def)
  from fold_root [OF wf dir f0 fold bound]
  have c: "fold_inv (survey_files disk_root root) read 0 c" "grows ?ctx0 c {r}"
    "holds (survey_files disk_root root) read c disk_root root None r" "r \<notin> node_refs c" by blast+
  have pend: "wc_pending_files c = []"
    using fold_pending(1) [OF fold] fresh by (simp add: fresh_context_def)
  then have sent: "deferred c = sent c" by (simp add: deferred_def sent_def)
  from merge_results_inodes [OF merge] obtain rs where rs: "list_all2 (\<lambda>pf r. process pf = Inr r) (sent c) rs"
    "wc_inodes ctx = wc_inodes c @ map2 merged_inode (sent c) rs" "wc_dir_nodes ctx = wc_dir_nodes c" "wc_root_inode_number ctx = r" by auto
  have refs: "node_refs ctx = node_refs c" by (simp add: node_refs_def rs(3))
  have "map pi_number (wc_inodes ctx) = inode_numbers_of c"
    using merged_numbers [OF rs(1)] by (simp add: rs(2) inode_numbers_of_def sent)
  then have "distinct (map pi_number (wc_inodes ctx))" using c(1) by (simp add: fold_inv_def)
  moreover have "pi_number p = r \<or> pi_number p \<in> node_refs ctx" if p: "p \<in> set (wc_inodes ctx)" "pi_content p = DirectoryOf es" for p es
  proof -
    have "p \<in> set (wc_inodes c)" using p merged_not_dir [of p "sent c" rs es] by (auto simp: rs(2))
    from growsD(7) [OF c(2) this p(2)] fresh show ?thesis by (auto simp: refs fresh_context_def)
  qed
  moreover have "wc_inline_threshold c = wc_inline_threshold ctx0" using growsD(3) [OF c(2)] by simp
  moreover have "\<forall>pf \<in> set (deferred c). \<exists>r. process pf = Inr r \<and> merged_inode pf r \<in> set (wc_inodes ctx)"
    using merged_mem [OF rs(1)] unfolding sent rs(2) set_append by blast
  ultimately show thesis
    using c(3,4) by (intro that [of "set (wc_inodes c)" "set (deferred c)"]) (auto simp: rs(2,4) refs)
qed

text \<open>Surveyed nodes and walks in the blob correspond, name by name.\<close>

lemma surveyed_walked:
  assumes children: "\<And>path node t n. held S P F read thr path node t n \<Longrightarrow>
      t = None \<and> sm_is_dir (sn_meta node) \<and> list_all2 (\<lambda>e x. de_name e = fst x
        \<and> held S P F read thr (path_push path (fst x)) (snd x) (sn_symlink_target (snd x)) (de_inode_number e))
        (dir_children H blob n) (sn_children node)
      \<or> (t \<noteq> None \<or> \<not> sm_is_dir (sn_meta node)) \<and> dir_children H blob n = []"
    and root_held: "held S P F read thr disk_root root None r"
  shows "surveyed disk_root root names path node t \<Longrightarrow> \<exists>n. walk H blob r names n \<and> held S P F read thr path node t n"
    and "walk H blob r names n \<Longrightarrow> \<exists>path node t. surveyed disk_root root names path node t \<and> held S P F read thr path node t n"
proof -
  show "\<exists>n. walk H blob r names n \<and> held S P F read thr path node t n" if "surveyed disk_root root names path node t"
    using that
  proof (induction rule: surveyed.induct)
    case survey_root
    then show ?case using root_held by auto
  next
    case (survey_child names path node name child)
    then obtain n where n: "walk H blob r names n" "held S P F read thr path node None n" by blast
    from children [OF n(2)] survey_child.hyps(2) have "list_all2 (\<lambda>e x. de_name e = fst x
        \<and> held S P F read thr (path_push path (fst x)) (snd x) (sn_symlink_target (snd x)) (de_inode_number e))
        (dir_children H blob n) (sn_children node)" by blast
    with survey_child.hyps(3) obtain e where "e \<in> set (dir_children H blob n)" "de_name e = name"
      "held S P F read thr (path_push path name) child (sn_symlink_target child) (de_inode_number e)"
      by (fastforce simp: list_all2_conv_all_nth in_set_conv_nth)
    with n(1) show ?case unfolding walk_snoc by blast
  qed
  show "\<exists>path node t. surveyed disk_root root names path node t \<and> held S P F read thr path node t n" if "walk H blob r names n"
    using that
  proof (induction names arbitrary: n rule: rev_induct)
    case Nil
    then show ?case using root_held survey_root by fastforce
  next
    case (snoc a names)
    then obtain k e where "walk H blob r names k" and e: "e \<in> set (dir_children H blob k)" "de_name e = a" "de_inode_number e = n"
      unfolding walk_snoc by blast
    from snoc.IH [OF this(1)] obtain path node t where s: "surveyed disk_root root names path node t" "held S P F read thr path node t k" by blast
    from children [OF s(2)] e(1) have t: "t = None" "sm_is_dir (sn_meta node)" "list_all2 (\<lambda>e x. de_name e = fst x
        \<and> held S P F read thr (path_push path (fst x)) (snd x) (sn_symlink_target (snd x)) (de_inode_number e))
        (dir_children H blob k) (sn_children node)" by auto
    from list_all2_left [OF t(3) e(1)] e(2,3) obtain child where "(a, child) \<in> set (sn_children node)"
      "held S P F read thr (path_push path a) child (sn_symlink_target child) n" by auto
    with survey_child [OF s(1) [unfolded t(1)] t(2)] show ?case by blast
  qed
qed

text \<open>C3. The image holds the surveyed tree: after a successful write of a directory, the paths that the reader reaches in the blob
  are exactly those of the surveyed nodes, each with the mode, owner, time and content of its node; the root is the
  number the writer reports.\<close>

theorem written_tree:
  assumes "write_tree H read classify process sends disk_root root ctx0 = Inr ctx" and "fresh_context ctx0"
    and "wf_survey disk_root root" and "sm_is_dir (sn_meta root)" and "size root + 1 < 2 ^ 64"
    and "writable_context H m ctx" and "nodes_collision_free H ctx"
  shows "root_inode_number (written_blob H ctx) = Some (wc_root_inode_number ctx)
    \<and> (\<forall>names path node t. surveyed disk_root root names path node t \<longrightarrow>
         (\<exists>n. reaches H (written_blob H ctx) (root_path names) n
            \<and> stored_as (written_blob H ctx) (survey_files disk_root root) read process (wc_inline_threshold ctx0) node t n))
    \<and> (\<forall>p n. reaches H (written_blob H ctx) p n \<longrightarrow>
         (\<exists>names path node t. surveyed disk_root root names path node t \<and> p = root_path names
            \<and> stored_as (written_blob H ctx) (survey_files disk_root root) read process (wc_inline_threshold ctx0) node t n))"
proof -
  let ?blob = "written_blob H ctx" and ?r = "wc_root_inode_number ctx" and ?F = "survey_files disk_root root" and ?thr = "wc_inline_threshold ctx0"
  obtain S P where root_held: "held S P ?F read ?thr disk_root root None ?r"
    and SP: "S \<subseteq> set (wc_inodes ctx)" "\<forall>pf \<in> P. \<exists>r. process pf = Inr r \<and> merged_inode pf r \<in> set (wc_inodes ctx)"
      "distinct (map pi_number (wc_inodes ctx))"
    and refs: "?r \<notin> node_refs ctx"
      "\<forall>p \<in> set (wc_inodes ctx). \<forall>es. pi_content p = DirectoryOf es \<longrightarrow> pi_number p = ?r \<or> pi_number p \<in> node_refs ctx"
    by (rule write_tree_holds [OF assms(1-5)])
  have as: "stored_as ?blob ?F read process ?thr node t n" if "held S P ?F read ?thr path node t n" for path node t n
    by (rule held_stored_as [OF that SP])
  note walked = surveyed_walked [OF held_children [OF _ SP assms(6,7)] root_held, simplified]
  from root_held obtain p es where "p \<in> S" "pi_number p = ?r" "pi_content p = DirectoryOf es"
    using assms(4) by (cases rule: held.cases) auto
  then have root: "root_inode_number ?blob = Some ?r"
    using SP(1) refs by (intro stored_root [OF assms(6) SP(3), of p]) auto
  have valid: "valid_blob m ?blob"
    using assms(6) by (auto simp: valid_blob_def written_blob_def writable_context_def writable_inode_def writable_node_def)
  have reach: "reaches H ?blob p n \<longleftrightarrow> (\<exists>names. walk H ?blob ?r names n \<and> p = root_path names)" for p n
    unfolding reaches_walk [OF valid] root by simp
  show ?thesis
  proof (intro conjI allI impI)
    show "root_inode_number ?blob = Some ?r" by (rule root)
    show "\<exists>n. reaches H ?blob (root_path names) n \<and> stored_as ?blob ?F read process ?thr node t n"
      if "surveyed disk_root root names path node t" for names path node t
      using walked(1) [OF that] as unfolding reach by blast
    show "\<exists>names path node t. surveyed disk_root root names path node t \<and> p = root_path names \<and> stored_as ?blob ?F read process ?thr node t n"
      if "reaches H ?blob p n" for p n
      using that walked(2) as unfolding reach by blast
  qed
qed

section \<open>A write of two files\<close>

definition file_meta :: "u64 \<Rightarrow> u64 \<Rightarrow> survey_meta" where
  "file_meta number mtime = \<lparr>sm_is_dir = False, sm_is_file = True, sm_is_symlink = False, sm_is_fifo = False, sm_is_socket = False,
     sm_is_block_device = False, sm_is_char_device = False, sm_len = 2, sm_mtime_ns = mtime, sm_mode = 0x81A4, sm_uid = 0,
     sm_gid = 0, sm_dev = 1, sm_ino = number, sm_xattrs = []\<rparr>"

definition example_survey :: survey_node where
  "example_survey = SurveyNode ((file_meta 9 7)\<lparr>sm_is_dir := True, sm_is_file := False, sm_mode := 0x41ED\<rparr>)
     [([97], SurveyNode (file_meta 10 5) [] None), ([98], SurveyNode (file_meta 11 6) [] None)] None"

abbreviation no_chunks :: "pending_file \<Rightarrow> write_error + chunked_file_result" where
  "no_chunks \<equiv> \<lambda>_. Inl (WriteIo [])"

definition example_result :: write_context where
  "example_result = example_context\<lparr>wc_root_inode_number := 1, wc_hardlink_targets := [(1, 10) \<mapsto> 2, (1, 11) \<mapsto> 3]\<rparr>"

lemma example_written:
  "write_tree toy_hash (\<lambda>_. Inr [1, 2]) (\<lambda>_. Text) no_chunks 8 [47, 120] example_survey write_context_new = Inr example_result"
  by (simp add: write_tree_def example_survey_def file_meta_def write_context_new_def alloc_inode_def fold_file_def Let_def
      push_inode_def note_xattrs_def INLINE_THRESHOLD_def entry_type_of_def encode_dir_node_def
      two_entries_encoded [unfolded two_entries_def] hash_section_def example_result_def example_context_def two_entries_def
      sort_key_id_if_sorted)

lemma example_surveyed:
  assumes "surveyed [47, 120] example_survey names path node t"
  shows "node = example_survey \<and> t = None \<or> (\<exists>k m. node = SurveyNode (file_meta k m) [] None)"
  using assms by (induction rule: surveyed.induct) (auto simp: example_survey_def file_meta_def)

theorem written_tree_witness: "\<exists>n. reaches toy_hash (written_blob toy_hash example_result) [47, 97] n"
proof -
  have wf: "wf_survey [47, 120] example_survey"
    unfolding wf_survey_def
  proof (intro allI impI)
    fix names path node t assume "surveyed [47, 120] example_survey names path node t"
    from example_surveyed [OF this] show "sorted_wrt (<) (map fst (sn_children node))
        \<and> (\<not> sm_is_dir (sn_meta node) \<or> t \<noteq> None \<longrightarrow> sn_children node = [])"
      by (auto simp: example_survey_def)
  qed
  have "writable_context toy_hash 4096 example_result"
    using example_context_writable
    by (simp add: writable_context_def example_result_def writable_inode_def stored_inode_def inode_with_def nlink_of_def
        inode_xattrs_of_def cong: pending_content.case_cong)
  moreover have "nodes_collision_free toy_hash example_result"
    by (simp add: nodes_collision_free_def example_result_def example_context_def two_entries_bytes_def)
  moreover have "fresh_context write_context_new" by (simp add: fresh_context_def write_context_new_def)
  moreover have "sm_is_dir (sn_meta example_survey)" "size example_survey + 1 < 2 ^ 64" by (simp_all add: example_survey_def)
  ultimately have "\<forall>names path node t. surveyed [47, 120] example_survey names path node t \<longrightarrow>
      (\<exists>n. reaches toy_hash (written_blob toy_hash example_result) (root_path names) n)"
    using written_tree [OF example_written _ wf] by blast
  moreover have "surveyed [47, 120] example_survey ([] @ [[97]]) (path_push [47, 120] [97]) (SurveyNode (file_meta 10 5) [] None)
      (sn_symlink_target (SurveyNode (file_meta 10 5) [] None))"
    by (rule survey_child [OF survey_root]) (simp_all add: example_survey_def)
  ultimately have "\<exists>n. reaches toy_hash (written_blob toy_hash example_result) (root_path ([] @ [[97]])) n" by blast
  then show ?thesis by (simp add: root_path_def slash_def)
qed

end
