(* ===== verification/GF256.thy ===== *)
theory GF256
  imports Prelude
begin

text \<open>
  The field GF(2^8) (\<open>limnifs-core/src/gf256.rs\<close>) that Shamir sharing and Reed-Solomon coding compute in. The source
  multiplies by shift and xor with a reduction step; the theory shows that the bytes with these operations are a field:
  the type \<open>gf\<close> of field elements is an instance of the class of fields, and each operation of the source is the
  corresponding field operation. No table and no enumeration of pairs is needed: multiplication is linear in both
  arguments, and the inverse rests on the linearity of squaring.
\<close>

section \<open>The operations\<close>

definition REDUCTION_POLYNOMIAL :: u16 where
  "REDUCTION_POLYNOMIAL = 0x011B"

definition gf_add :: "u8 \<Rightarrow> u8 \<Rightarrow> u8" where
  "gf_add a b = xor a b"

lemma unat_drop_bit_1: "unat (drop_bit 1 (b :: u8)) = unat b div 2"
proof -
  have "unat (drop_bit 1 b) = drop_bit 1 (take_bit 8 (unat b))"
    by (simp only: unsigned_drop_bit_eq len_num0 len_bit0 len_num1) simp
  also have "take_bit 8 (unat b) = unat b" using unat_u8_lt [of b] by (simp add: take_bit_nat_eq_self)
  finally show ?thesis by (simp add: drop_bit_Suc)
qed

function gf_mul_loop :: "u16 \<Rightarrow> u8 \<Rightarrow> u16 \<Rightarrow> u16" where
  "gf_mul_loop a b acc =
     (if b = 0 then acc
      else let acc' = (if and b 1 \<noteq> 0 then xor acc a else acc);
               b' = drop_bit 1 b;
               high_bit_set = and a 0x80 \<noteq> 0;
               shifted = push_bit 1 a
           in gf_mul_loop (if high_bit_set then xor shifted REDUCTION_POLYNOMIAL else shifted) b' acc')"
  by pat_completeness auto

termination
proof (relation "measure (\<lambda>(_, b, _). unat b)", goal_cases)
  case (2 a b acc acc' b' high_bit_set shifted)
  then have "unat b \<noteq> 0" "unat b' = unat b div 2" by (simp_all only: unat_eq_0 unat_drop_bit_1 not_False_eq_True)
  then show ?case by simp
qed simp

declare gf_mul_loop.simps [simp del]

definition gf_mul :: "u8 \<Rightarrow> u8 \<Rightarrow> u8" where
  "gf_mul a b = ucast (and (gf_mul_loop (ucast a) b 0) 0xFF)"

fun gf_pow_loop :: "u8 \<Rightarrow> nat \<Rightarrow> u8 \<Rightarrow> u8" where
  "gf_pow_loop a e acc =
     (if e = 0 then acc
      else gf_pow_loop (gf_mul a a) (e div 2) (if e mod 2 = 1 then gf_mul acc a else acc))"

declare gf_pow_loop.simps [simp del]

definition gf_pow :: "u8 \<Rightarrow> nat \<Rightarrow> u8" where
  "gf_pow a e = gf_pow_loop a e 1"

definition gf_inv :: "u8 \<Rightarrow> u8" where
  "gf_inv a = (if a = 0 then 0 else gf_pow a 254)"

text \<open>\<open>dot\<close> asserts equal lengths.\<close>

definition gf_dot :: "bytes \<Rightarrow> bytes \<Rightarrow> u8 option" where
  "gf_dot a b =
     (if length a \<noteq> length b then None
      else Some (fold (\<lambda>(x, y) acc. gf_add acc (gf_mul x y)) (zip a b) 0))"

section \<open>Multiplication as a sum of shifts\<close>

text \<open>\<open>xtime\<close>: one round of the loop, at eight bits. \<open>xsum n F b\<close>: the xor of \<open>F i\<close> over the bits \<open>i < n\<close> of \<open>b\<close>.\<close>

definition xtime :: "u8 \<Rightarrow> u8" where
  "xtime a = xor (push_bit 1 a) (if bit a 7 then 0x1B else 0)"

fun xsum :: "nat \<Rightarrow> (nat \<Rightarrow> u8) \<Rightarrow> u8 \<Rightarrow> u8" where
  "xsum 0 F b = 0"
| "xsum (Suc n) F b = xor (if bit b 0 then F 0 else 0) (xsum n (\<lambda>i. F (Suc i)) (drop_bit 1 b))"

definition shifts :: "u8 \<Rightarrow> nat \<Rightarrow> u8" where
  "shifts a i = (xtime ^^ i) a"

lemma xtime_xor: "xtime (xor a b) = xor (xtime a) (xtime b)"
  by (simp add: xtime_def push_bit_xor bit_xor_iff ac_simps)

lemma bit_u8: "bit (w :: u8) i \<Longrightarrow> i < 8"
  using bit_imp_le_length [of w i] by simp

lemma round_ucast:
  "(let shifted = push_bit 1 (ucast a :: u16)
    in if and (ucast a :: u16) 0x80 \<noteq> 0 then xor shifted REDUCTION_POLYNOMIAL else shifted) = ucast (xtime a)"
proof -
  have h: "(and (ucast a :: u16) 0x80 \<noteq> 0) \<longleftrightarrow> bit a 7"
  proof -
    have "(0x80 :: u16) = push_bit 7 1" by (simp add: push_bit_eq_mult)
    then have "(and (ucast a :: u16) 0x80 \<noteq> 0) \<longleftrightarrow> bit (ucast a :: u16) 7"
      by (metis and.commute bit_iff_and_push_bit_not_eq_0)
    then show ?thesis by (simp add: bit_ucast_iff)
  qed
  have d: "push_bit 1 (ucast a :: u16) = 2 * ucast a" "push_bit 1 a = 2 * a" by (simp_all add: push_bit_eq_mult)
  have "2 * (ucast a :: u16) = ucast (2 * a)" if "\<not> bit a 7"
  proof (rule bit_word_eqI)
    fix n
    show "bit (2 * (ucast a :: u16)) n \<longleftrightarrow> bit (ucast (2 * a) :: u16) n" if "n < LENGTH(16)"
      using \<open>\<not> bit a 7\<close> bit_u8 [of a "n - 1"] that
      by (cases "n = 8") (auto simp: bit_double_iff bit_ucast_iff)
  qed
  moreover have "xor (2 * (ucast a :: u16)) REDUCTION_POLYNOMIAL = ucast (xor (2 * a) 0x1B)" if "bit a 7"
  proof -
    have r: "(REDUCTION_POLYNOMIAL :: u16) = xor (push_bit 8 1) (ucast (0x1B :: u8))"
      by (simp add: REDUCTION_POLYNOMIAL_def push_bit_eq_mult)
    have t: "xor (2 * (ucast a :: u16)) (push_bit 8 1) = ucast (2 * a)"
    proof (rule bit_word_eqI)
      fix n
      show "bit (xor (2 * (ucast a :: u16)) (push_bit 8 1)) n \<longleftrightarrow> bit (ucast (2 * a) :: u16) n" if "n < LENGTH(16)"
        using \<open>bit a 7\<close> bit_u8 [of a "n - 1"] that
        by (cases "n = 8") (auto simp: bit_double_iff bit_ucast_iff bit_xor_iff bit_push_bit_iff bit_1_iff
            simp del: push_bit_of_1 push_bit_numeral)
    qed
    have "xor (2 * (ucast a :: u16)) REDUCTION_POLYNOMIAL = xor (xor (2 * ucast a) (push_bit 8 1)) (ucast (0x1B :: u8))"
      unfolding r by (rule xor.assoc [symmetric])
    also have "\<dots> = ucast (xor (2 * a) 0x1B)" unfolding t by (rule unsigned_xor_eq [symmetric])
    finally show ?thesis .
  qed
  ultimately show ?thesis using h by (simp add: xtime_def Let_def mult.commute)
qed

lemma gf_mul_loop_xsum:
  "unat b < 2 ^ n \<Longrightarrow>
     gf_mul_loop (ucast a) b (ucast acc) = ucast (xor acc (xsum n (\<lambda>i. shifts a i) b))"
proof (induction n arbitrary: a b acc)
  case 0
  then have "b = 0" by (simp add: unat_eq_zero)
  then show ?case by (simp add: gf_mul_loop.simps)
next
  case (Suc n)
  show ?case
  proof (cases "b = 0")
    case True
    then have "xsum m F b = 0" for m F by (induction m arbitrary: F) auto
    with True show ?thesis by (simp add: gf_mul_loop.simps)
  next
    case False
    have odd: "and b 1 \<noteq> 0 \<longleftrightarrow> bit b 0" by (simp add: and_one_eq bit_0 odd_iff_mod_2_eq_one)
    have acc: "(if and b 1 \<noteq> 0 then xor (ucast acc :: u16) (ucast a) else ucast acc)
        = ucast (xor acc (if bit b 0 then a else 0))"
      unfolding odd by (simp add: unsigned_xor_eq)
    have lt: "unat (drop_bit 1 b) < 2 ^ n" using Suc.prems by (simp only: unat_drop_bit_1) simp
    have "gf_mul_loop (ucast a) b (ucast acc)
        = gf_mul_loop (ucast (xtime a)) (drop_bit 1 b) (ucast (xor acc (if bit b 0 then a else 0)))"
      using False unfolding gf_mul_loop.simps [of "ucast a" b] Let_def acc round_ucast [unfolded Let_def] by (simp only: if_False)
    also have "\<dots> = ucast (xor (xor acc (if bit b 0 then a else 0)) (xsum n (shifts (xtime a)) (drop_bit 1 b)))"
      by (rule Suc.IH [OF lt])
    also have "shifts (xtime a) = (\<lambda>i. shifts a (Suc i))"
      by (rule ext) (simp only: shifts_def funpow_swap1 funpow.simps comp_apply)
    finally show ?thesis by (simp add: shifts_def xor.assoc)
  qed
qed

lemma gf_mul_xsum: "gf_mul a b = xsum 8 (shifts a) b"
proof -
  have "gf_mul_loop (ucast a) b (ucast (0 :: u8)) = ucast (xor 0 (xsum 8 (\<lambda>i. shifts a i) b))"
    using unat_u8_lt [of b] by (intro gf_mul_loop_xsum) simp
  then have e: "gf_mul_loop (ucast a) b 0 = ucast (xsum 8 (shifts a) b)" by simp
  have "ucast (and (ucast w :: u16) 0xFF) = w" for w :: u8
  proof -
    have "(0xFF :: u16) = mask 8" by (simp add: mask_eq_exp_minus_1)
    then have "and (ucast w :: u16) 0xFF = take_bit 8 (ucast w)" by (simp only: take_bit_eq_mask)
    then show ?thesis by (intro bit_word_eqI) (simp add: bit_ucast_iff bit_take_bit_iff)
  qed
  then show ?thesis by (simp only: gf_mul_def e)
qed

section \<open>Linearity\<close>

definition linear8 :: "(u8 \<Rightarrow> u8) \<Rightarrow> bool" where
  "linear8 f \<longleftrightarrow> (\<forall>a b. f (xor a b) = xor (f a) (f b))"

lemma linear8D: "linear8 f \<Longrightarrow> f (xor a b) = xor (f a) (f b)"
  by (simp add: linear8_def)

lemma linear8_0: "linear8 f \<Longrightarrow> f 0 = 0"
  using linear8D [of f 0 0] by simp

lemma xsum_linear: "linear8 f \<Longrightarrow> f (xsum n F b) = xsum n (\<lambda>i. f (F i)) b"
proof (induction n arbitrary: F b)
  case (Suc n)
  then show ?case by (simp add: linear8D linear8_0)
qed (simp add: linear8_0)

lemma xsum_xor_F: "xsum n (\<lambda>i. xor (F i) (G i)) b = xor (xsum n F b) (xsum n G b)"
  by (induction n arbitrary: F G b) (simp_all add: ac_simps)

lemma xsum_xor_b: "xsum n F (xor b c) = xor (xsum n F b) (xsum n F c)"
proof (induction n arbitrary: F b c)
  case (Suc n)
  have "(if bit (xor b c) 0 then F 0 else 0) = xor (if bit b 0 then F 0 else 0) (if bit c 0 then F 0 else 0)"
    by (simp add: bit_xor_iff del: bit_0)
  with Suc show ?case by (simp add: drop_bit_xor ac_simps del: bit_0)
qed simp

lemma linear8_xtime: "linear8 xtime"
  by (simp add: linear8_def xtime_xor)

lemma shifts_xor: "shifts (xor a b) i = xor (shifts a i) (shifts b i)"
  by (induction i) (simp_all add: shifts_def xtime_xor)

lemma linear8_mul_left: "linear8 (\<lambda>a. gf_mul a b)"
proof -
  have "shifts (xor a c) = (\<lambda>i. xor (shifts a i) (shifts c i))" for a c by (rule ext) (rule shifts_xor)
  then show ?thesis by (simp add: linear8_def gf_mul_xsum xsum_xor_F)
qed

lemma linear8_mul_right: "linear8 (gf_mul a)"
  by (simp add: linear8_def gf_mul_xsum xsum_xor_b)

lemma gf_mul_xtime: "gf_mul (xtime a) b = xtime (gf_mul a b)"
proof -
  have "shifts (xtime a) = (\<lambda>i. xtime (shifts a i))"
    by (rule ext) (simp add: shifts_def funpow_swap1)
  then show ?thesis by (simp add: gf_mul_xsum xsum_linear [OF linear8_xtime])
qed

lemma gf_mul_shifts: "gf_mul (shifts a i) b = shifts (gf_mul a b) i"
  by (induction i) (simp_all add: shifts_def gf_mul_xtime)

text \<open>The shifts of one are the powers of two, so every byte is a sum of shifts of one.\<close>

lemma shifts_one: "i < 8 \<Longrightarrow> shifts 1 i = push_bit i 1"
proof (induction i)
  case (Suc i)
  then have "shifts 1 (Suc i) = xtime (push_bit i 1)" by (simp add: shifts_def)
  also have "\<dots> = push_bit (Suc i) 1" using Suc.prems
    by (simp add: xtime_def bit_push_bit_iff bit_1_iff push_bit_push_bit del: push_bit_of_1)
  finally show ?case .
qed (simp add: shifts_def)

lemma bit_xsum_powers:
  "bit (xsum n (\<lambda>i. push_bit (k + i) 1) b) j \<longleftrightarrow> k \<le> j \<and> j < k + n \<and> j < 8 \<and> bit b (j - k)"
proof (induction n arbitrary: k b)
  case 0
  show ?case by simp
next
  case (Suc n)
  have ih: "bit (xsum n (\<lambda>i. push_bit (k + Suc i) 1) (drop_bit 1 b)) j
      \<longleftrightarrow> Suc k \<le> j \<and> j < Suc k + n \<and> j < 8 \<and> bit b (1 + (j - Suc k))"
    using Suc.IH [of "Suc k" "drop_bit 1 b"] by (simp only: add_Suc_right add_Suc bit_drop_bit_eq comp_apply)
  have hd: "bit (if bit b 0 then push_bit k (1 :: u8) else 0) j \<longleftrightarrow> bit b 0 \<and> j = k \<and> j < 8"
    by (auto simp: bit_push_bit_iff bit_1_iff simp del: push_bit_of_1 bit_0)
  show ?case
    unfolding xsum.simps bit_xor_iff hd add_0_right ih
    by (cases "j = k") (auto simp: Suc_diff_Suc Suc_le_eq simp del: bit_0)
qed

lemma xsum_cong: "(\<And>i. i < n \<Longrightarrow> F i = G i) \<Longrightarrow> xsum n F b = xsum n G b"
proof (induction n arbitrary: F G b)
  case (Suc n)
  from Suc.prems have "F 0 = G 0" by simp
  with Suc.IH [of "\<lambda>i. F (Suc i)" "\<lambda>i. G (Suc i)"] Suc.prems show ?case by simp
qed simp

lemma xsum_shifts_one: "xsum 8 (shifts 1) b = b"
proof -
  have "xsum 8 (shifts 1) b = xsum 8 (\<lambda>i. push_bit (0 + i) 1) b" by (rule xsum_cong) (simp only: shifts_one add_0)
  also have "\<dots> = b" by (rule bit_word_eqI) (use bit_xsum_powers [of 8 0 b] in simp)
  finally show ?thesis .
qed

lemma gf_mul_one: "gf_mul 1 b = b"
  by (simp only: gf_mul_xsum xsum_shifts_one)

lemma xsum_zero: "xsum n F 0 = 0"
  by (induction n arbitrary: F) simp_all

lemma xsum_8: "xsum 8 F b = xor (if bit b 0 then F 0 else 0) (xor (if bit b 1 then F 1 else 0)
    (xor (if bit b 2 then F 2 else 0) (xor (if bit b 3 then F 3 else 0) (xor (if bit b 4 then F 4 else 0)
    (xor (if bit b 5 then F 5 else 0) (xor (if bit b 6 then F 6 else 0) (if bit b 7 then F 7 else 0)))))))"
  by (simp add: numeral_eq_Suc bit_drop_bit_eq drop_bit_drop_bit del: bit_0)

lemma bit_power: "bit (push_bit i (1 :: u8)) n \<longleftrightarrow> n = i \<and> n < 8"
  by (auto simp: bit_push_bit_iff bit_1_iff simp del: push_bit_of_1)

lemma xsum_power: "i < n \<Longrightarrow> n \<le> 8 \<Longrightarrow> xsum n F (push_bit i 1) = F i"
proof (induction n arbitrary: F i)
  case (Suc n)
  show ?case
  proof (cases i)
    case 0
    then show ?thesis by (simp add: xsum_zero)
  next
    case (Suc j)
    have "drop_bit 1 (push_bit i (1 :: u8)) = push_bit j 1"
    proof (rule bit_word_eqI)
      fix m
      show "bit (drop_bit 1 (push_bit i (1 :: u8))) m \<longleftrightarrow> bit (push_bit j (1 :: u8)) m"
        unfolding bit_drop_bit_eq comp_apply bit_power using Suc Suc.prems by auto
    qed
    moreover have "\<not> bit (push_bit i (1 :: u8)) 0" unfolding bit_power using Suc by simp
    ultimately show ?thesis using Suc.IH [of j "\<lambda>i. F (Suc i)"] Suc Suc.prems
      by (simp del: push_bit_of_1 bit_0 push_bit_Suc drop_bit_Suc)
  qed
qed simp

lemma gf_mul_power: "i < 8 \<Longrightarrow> gf_mul a (shifts 1 i) = shifts a i"
  by (simp only: gf_mul_xsum shifts_one xsum_power order_refl)

text \<open>Two linear maps that agree on the shifts of one agree.\<close>

lemma linear8_eqI:
  assumes "linear8 f" "linear8 g" "\<And>i. i < 8 \<Longrightarrow> f (shifts 1 i) = g (shifts 1 i)"
  shows "f b = g b"
proof -
  have "xsum 8 (\<lambda>i. f (shifts 1 i)) b = xsum 8 (\<lambda>i. g (shifts 1 i)) b" by (rule xsum_cong) (rule assms(3))
  then have "f (xsum 8 (shifts 1) b) = g (xsum 8 (shifts 1) b)"
    by (simp only: xsum_linear [OF assms(1)] xsum_linear [OF assms(2)])
  then show ?thesis by (simp only: xsum_shifts_one)
qed

lemma gf_mul_commute: "gf_mul a b = gf_mul b a"
  by (rule linear8_eqI [of "gf_mul a" "\<lambda>b. gf_mul b a", OF linear8_mul_right linear8_mul_left])
    (simp only: gf_mul_power gf_mul_shifts gf_mul_one)

lemma gf_mul_one_right: "gf_mul a 1 = a"
  by (subst gf_mul_commute) (rule gf_mul_one)

lemma gf_mul_shifts_right: "gf_mul a (shifts b i) = shifts (gf_mul a b) i"
  unfolding gf_mul_commute [of a "shifts b i"] gf_mul_commute [of a b] by (rule gf_mul_shifts)

lemma gf_mul_xor_left: "gf_mul (xor a b) c = xor (gf_mul a c) (gf_mul b c)"
  by (rule linear8D [OF linear8_mul_left])

lemma gf_mul_xor_right: "gf_mul c (xor a b) = xor (gf_mul c a) (gf_mul c b)"
  by (rule linear8D [OF linear8_mul_right])

lemma gf_mul_assoc: "gf_mul (gf_mul a b) c = gf_mul a (gf_mul b c)"
proof -
  have l: "linear8 (\<lambda>c. gf_mul a (gf_mul b c))" by (simp add: linear8_def gf_mul_xor_right)
  show ?thesis
    by (rule linear8_eqI [of "gf_mul (gf_mul a b)" "\<lambda>c. gf_mul a (gf_mul b c)" c, OF linear8_mul_right l])
      (simp only: gf_mul_one_right gf_mul_shifts_right)
qed

section \<open>Squaring\<close>

text \<open>Squaring is linear, so its eighth iterate is the identity as soon as it is on the powers of two, and the only
  idempotents are zero and one.\<close>

definition gf_sq :: "u8 \<Rightarrow> u8" where
  "gf_sq a = gf_mul a a"

lemma linear8_sq: "linear8 gf_sq"
proof -
  have "gf_sq (xor a b) = xor (gf_sq a) (gf_sq b)" for a b
  proof -
    have "gf_sq (xor a b) = xor (xor (gf_mul a a) (gf_mul a b)) (xor (gf_mul b a) (gf_mul b b))"
      unfolding gf_sq_def
      by (simp only: gf_mul_xor_left gf_mul_xor_right ac_simps)
    also have "\<dots> = xor (gf_sq a) (gf_sq b)" by (simp add: gf_sq_def gf_mul_commute [of b a] ac_simps)
    finally show ?thesis .
  qed
  then show ?thesis by (simp add: linear8_def)
qed

lemmas gf_mul_eval = gf_mul_def gf_mul_loop.simps REDUCTION_POLYNOMIAL_def

lemma gf_sq_eight: "(gf_sq ^^ 8) a = a"
proof -
  have lin: "linear8 (gf_sq ^^ k)" for k
  proof (induction k)
    case (Suc k)
    then show ?case using linear8D [OF linear8_sq] by (simp add: linear8_def)
  qed (simp add: linear8_def)
  have "gf_sq (gf_sq (gf_sq (gf_sq (gf_sq (gf_sq (gf_sq (gf_sq b))))))) = b"
    if "b \<in> {1, 2, 4, 8, 16, 32, 64, 128}" for b
    using that by (elim insertE emptyE) (simp_all add: gf_sq_def gf_mul_eval)
  moreover have "shifts 1 i \<in> {1, 2, 4, 8, 16, 32, 64, 128}" if "i < 8" for i
    using that by (simp add: shifts_one) (auto simp: push_bit_eq_mult numeral_eq_Suc less_Suc_eq)
  ultimately have "(gf_sq ^^ 8) (shifts 1 i) = id (shifts 1 i)" if "i < 8" for i
    using that by (simp add: eval_nat_numeral)
  moreover have "linear8 id" by (simp add: linear8_def)
  ultimately have "(gf_sq ^^ 8) a = id a" by (intro linear8_eqI [of "gf_sq ^^ 8" id a, OF lin])
  then show ?thesis by simp
qed

lemma gf_sq_powers: "gf_sq 1 = 1" "gf_sq 2 = 4" "gf_sq 4 = 0x10" "gf_sq 8 = 0x40" "gf_sq 0x10 = 0x1B"
  "gf_sq 0x20 = 0x6C" "gf_sq 0x40 = 0xAB" "gf_sq 0x80 = 0x9A"
  by (simp_all add: gf_sq_def gf_mul_eval)

lemma gf_sq_xsum: "gf_sq e = xor (if bit e 0 then 1 else 0) (xor (if bit e 1 then 4 else 0)
    (xor (if bit e 2 then 0x10 else 0) (xor (if bit e 3 then 0x40 else 0) (xor (if bit e 4 then 0x1B else 0)
    (xor (if bit e 5 then 0x6C else 0) (xor (if bit e 6 then 0xAB else 0) (if bit e 7 then 0x9A else 0)))))))"
proof -
  have s: "shifts 1 0 = 1" "shifts 1 1 = 2" "shifts 1 2 = 4" "shifts 1 3 = 8" "shifts 1 4 = 0x10" "shifts 1 5 = 0x20"
    "shifts 1 6 = 0x40" "shifts 1 7 = 0x80"
    by (simp_all add: shifts_one push_bit_eq_mult)
  have "gf_sq e = xsum 8 (\<lambda>i. gf_sq (shifts 1 i)) e"
    using xsum_linear [OF linear8_sq, of 8 "shifts 1" e] by (simp only: xsum_shifts_one)
  then show ?thesis unfolding xsum_8 s gf_sq_powers .
qed

lemma bit_if_zero: "bit (if c then a else (0 :: u8)) i \<longleftrightarrow> c \<and> bit a i"
  by simp

lemma gf_sq_idem: "gf_sq e = e \<Longrightarrow> e = 0 \<or> e = 1"
proof -
  assume "gf_sq e = e"
  then have b: "bit (gf_sq e) i = bit e i" for i by simp
  have e: "\<not> bit e i" if "i \<noteq> 0" for i
  proof -
    have bits: "bit (gf_sq e) 7 \<longleftrightarrow> (bit e 6 \<noteq> bit e 7)" "bit (gf_sq e) 6 \<longleftrightarrow> (bit e 3 \<noteq> bit e 5)"
      "bit (gf_sq e) 5 \<longleftrightarrow> (bit e 5 \<noteq> bit e 6)" "bit (gf_sq e) 4 \<longleftrightarrow> ((bit e 2 \<noteq> bit e 4) \<noteq> bit e 7)"
      "bit (gf_sq e) 3 \<longleftrightarrow> (((bit e 4 \<noteq> bit e 5) \<noteq> bit e 6) \<noteq> bit e 7)" "bit (gf_sq e) 2 \<longleftrightarrow> (bit e 1 \<noteq> bit e 5)"
      "bit (gf_sq e) 1 \<longleftrightarrow> ((bit e 4 \<noteq> bit e 6) \<noteq> bit e 7)" "bit (gf_sq e) 0 \<longleftrightarrow> ((bit e 0 \<noteq> bit e 4) \<noteq> bit e 6)"
      unfolding gf_sq_xsum bit_xor_iff bit_if_zero by (simp_all add: bit_numeral_rec del: bit_0, blast+)
    note eq = bits [unfolded b]
    from eq(1) have 6: "\<not> bit e 6" by blast
    with eq(8) have 4: "\<not> bit e 4" by blast
    from eq(2) 6 have 35: "bit e 3 \<longleftrightarrow> bit e 5" by blast
    with eq(5) 4 6 have 7: "\<not> bit e 7" by blast
    from eq(7) 4 6 7 have 1: "\<not> bit e 1" by blast
    from eq(4) 4 7 have 2: "\<not> bit e 2" by blast
    from eq(6) 1 2 have 5: "\<not> bit e 5" by blast
    from 35 5 have 3: "\<not> bit e 3" by blast
    note 1 2 3 4 5 6 7
    then show ?thesis using bit_u8 [of e i] that
      by (cases "i < 8") (auto simp: numeral_eq_Suc less_Suc_eq)
  qed
  show ?thesis
  proof (cases "bit e 0")
    case True
    then have "e = 1" using e by (intro bit_word_eqI) (metis bit_1_iff)
    then show ?thesis ..
  next
    case False
    then have "e = 0" using e by (intro bit_word_eqI) (metis bit_0_eq bot_apply bot_bool_def)
    then show ?thesis ..
  qed
qed

section \<open>The field\<close>

typedef gf = "UNIV :: u8 set" morphisms byte_of gf_of
  by simp

lemmas gf_of_inverse_u8 [simp] = gf_of_inverse [OF UNIV_I]

lemma gf_of_inject_iff [simp]: "gf_of a = gf_of b \<longleftrightarrow> a = b"
  by (metis gf_of_inverse_u8)

instantiation gf :: comm_ring_1
begin

definition zero_gf :: gf where "zero_gf = gf_of 0"
definition one_gf :: gf where "one_gf = gf_of 1"
definition plus_gf :: "gf \<Rightarrow> gf \<Rightarrow> gf" where "plus_gf a b = gf_of (gf_add (byte_of a) (byte_of b))"
definition minus_gf :: "gf \<Rightarrow> gf \<Rightarrow> gf" where "minus_gf a b = gf_of (gf_add (byte_of a) (byte_of b))"
definition uminus_gf :: "gf \<Rightarrow> gf" where "uminus_gf (a :: gf) = a"
definition times_gf :: "gf \<Rightarrow> gf \<Rightarrow> gf" where "times_gf a b = gf_of (gf_mul (byte_of a) (byte_of b))"

instance
proof
  fix a b c :: gf
  show "a + b + c = a + (b + c)" by (simp add: plus_gf_def gf_add_def xor.assoc)
  show "a + b = b + a" by (simp add: plus_gf_def gf_add_def xor.commute)
  show "0 + a = a" by (simp add: plus_gf_def zero_gf_def gf_add_def byte_of_inverse)
  show "- a + a = 0" by (simp add: plus_gf_def zero_gf_def uminus_gf_def gf_add_def)
  show "a - b = a + - b" by (simp add: plus_gf_def minus_gf_def uminus_gf_def)
  show "a * b * c = a * (b * c)" by (simp add: times_gf_def gf_mul_assoc)
  show "a * b = b * a" by (simp add: times_gf_def gf_mul_commute [of "byte_of a"])
  show "1 * a = a" by (simp add: times_gf_def one_gf_def gf_mul_one byte_of_inverse)
  show "(a + b) * c = a * c + b * c" by (simp add: times_gf_def plus_gf_def gf_add_def gf_mul_xor_left)
  show "(0 :: gf) \<noteq> 1" by (simp add: zero_gf_def one_gf_def)
qed

end

lemma gf_of_add [simp]: "gf_of (gf_add a b) = gf_of a + gf_of b"
  by (simp add: plus_gf_def)

lemma gf_of_xor [simp]: "gf_of (xor a b) = gf_of a + gf_of b"
  by (simp add: plus_gf_def gf_add_def)

lemma gf_of_mul [simp]: "gf_of (gf_mul a b) = gf_of a * gf_of b"
  by (simp add: times_gf_def)

lemma gf_of_0 [simp]: "gf_of 0 = 0" and gf_of_1 [simp]: "gf_of 1 = 1"
  by (simp_all add: zero_gf_def one_gf_def)

lemma gf_of_eq_0 [simp]: "gf_of a = 0 \<longleftrightarrow> a = 0"
  unfolding zero_gf_def by (rule gf_of_inject_iff)

lemma byte_of_0 [simp]: "byte_of 0 = 0"
  by (simp only: zero_gf_def gf_of_inverse_u8)

lemma gf_minus: "(a :: gf) - b = a + b"
  by (simp only: plus_gf_def minus_gf_def)

lemma gf_uminus: "- a = (a :: gf)"
  by (simp add: uminus_gf_def)

lemma gf_double [simp]: "(a :: gf) + a = 0"
  by (metis gf_minus diff_self)

lemma gf_add_eq_0: "(a :: gf) + b = 0 \<longleftrightarrow> b = a"
  by (simp add: add_eq_0_iff gf_uminus)

lemma gf_cases: obtains b where "x = gf_of b"
  by (metis byte_of_inverse)

text \<open>Square and multiply is exponentiation.\<close>

lemma gf_pow_loop_power: "gf_of (gf_pow_loop a e acc) = gf_of acc * gf_of a ^ e"
proof (induction a e acc rule: gf_pow_loop.induct)
  case (1 a e acc)
  show ?case
  proof (cases "e = 0")
    case False
    have "gf_of a ^ e = (gf_of a * gf_of a) ^ (e div 2) * gf_of a ^ (e mod 2)"
      by (metis mult_div_mod_eq power_add power_mult power2_eq_square)
    with False 1 show ?thesis
      by (subst gf_pow_loop.simps) (auto simp: mod2_eq_if ac_simps split: if_splits)
  qed (simp add: gf_pow_loop.simps)
qed

lemma gf_of_pow [simp]: "gf_of (gf_pow a e) = gf_of a ^ e"
  by (simp add: gf_pow_def gf_pow_loop_power)

lemma gf_pow_256: "(x :: gf) ^ 256 = x"
proof -
  obtain a where x: "x = gf_of a" by (rule gf_cases)
  have "gf_of ((gf_sq ^^ k) a) = x ^ (2 ^ k)" for k
    by (induction k) (simp_all add: gf_sq_def x power_add mult_2)
  from this [of 8] show ?thesis by (simp add: gf_sq_eight x)
qed

lemma gf_pow_255: "x \<noteq> 0 \<Longrightarrow> (x :: gf) ^ 255 = 1"
proof -
  assume x: "x \<noteq> 0"
  obtain e where e: "x ^ 255 = gf_of e" by (rule gf_cases)
  have "gf_of (gf_sq e) = x ^ 255 * x ^ 255" by (simp add: gf_sq_def e)
  also have "\<dots> = x ^ 254 * x ^ 256" by (simp flip: power_add)
  also have "\<dots> = x ^ Suc 254" by (simp only: gf_pow_256 power_Suc2)
  finally have "gf_sq e = e" using e by simp
  then have "e = 0 \<or> e = 1" by (rule gf_sq_idem)
  moreover have "e \<noteq> 0"
  proof
    assume "e = 0"
    then have "x * x ^ 255 = 0" using e by simp
    then have "x ^ Suc 255 = 0" by (simp only: power_Suc)
    with gf_pow_256 [of x] x show False by simp
  qed
  ultimately show ?thesis using e by simp
qed

instantiation gf :: field
begin

definition inverse_gf :: "gf \<Rightarrow> gf" where "inverse_gf a = gf_of (gf_inv (byte_of a))"
definition divide_gf :: "gf \<Rightarrow> gf \<Rightarrow> gf" where "divide_gf a b = a * inverse (b :: gf)"

instance
proof
  fix a b :: gf
  obtain x where a: "a = gf_of x" by (rule gf_cases)
  show "inverse a * a = 1" if "a \<noteq> 0"
  proof -
    have "inverse a * a = a ^ 254 * a" using that by (simp add: inverse_gf_def a gf_inv_def)
    also have "\<dots> = a ^ Suc 254" by (simp only: power_Suc2)
    also have "\<dots> = 1" using gf_pow_255 [OF that] by simp
    finally show ?thesis .
  qed
  show "a div b = a * inverse b" by (simp add: divide_gf_def)
  show "inverse (0 :: gf) = 0" by (simp add: inverse_gf_def gf_inv_def)
qed

end

lemma gf_of_inv [simp]: "gf_of (gf_inv a) = inverse (gf_of a)"
  by (simp add: inverse_gf_def)

lemma gf_of_dot:
  "gf_dot a b = (if length a = length b then Some d else None) \<Longrightarrow> length a = length b \<Longrightarrow>
     gf_of d = (\<Sum>i<length a. gf_of (a ! i) * gf_of (b ! i))"
proof -
  assume d: "gf_dot a b = (if length a = length b then Some d else None)" and len: "length a = length b"
  have "gf_of (fold (\<lambda>(x, y) acc. gf_add acc (gf_mul x y)) (zip a b) s) = gf_of s + (\<Sum>i<length a. gf_of (a ! i) * gf_of (b ! i))" for s
    using len
  proof (induction a b arbitrary: s rule: list_induct2)
    case (Cons x xs y ys)
    then show ?case by (simp add: sum.lessThan_Suc_shift add.assoc del: sum.lessThan_Suc)
  qed simp
  from this [of 0] d len show ?thesis by (auto simp: gf_dot_def)
qed


end
