(* ===== verification/GF_Poly.thy ===== *)
theory GF_Poly
  imports GF256
begin

text \<open>
  Polynomials over the field as coefficient lists, lowest degree first: a polynomial with \<open>n\<close> coefficients and \<open>n\<close>
  distinct roots is zero, and there is exactly one through \<open>n\<close> points. Shamir sharing uses it for the reconstruction,
  Reed-Solomon coding for the invertibility of the Vandermonde matrices.
\<close>

fun peval :: "gf list \<Rightarrow> gf \<Rightarrow> gf" where
  "peval [] x = 0"
| "peval (c # cs) x = c + x * peval cs x"

lemma peval_sum: "peval cs x = (\<Sum>j<length cs. cs ! j * x ^ j)"
proof (induction cs)
  case (Cons c cs)
  have "x * (\<Sum>j<length cs. cs ! j * x ^ j) = (\<Sum>j<length cs. cs ! j * (x * x ^ j))"
    by (simp add: sum_distrib_left ac_simps)
  with Cons show ?case by (simp add: sum.lessThan_Suc_shift del: sum.lessThan_Suc)
qed simp

section \<open>Roots\<close>

text \<open>Division by \<open>x - a\<close>: the quotient's coefficients.\<close>

fun synth :: "gf list \<Rightarrow> gf \<Rightarrow> gf list" where
  "synth [] a = []"
| "synth [c] a = []"
| "synth (c # cs) a = peval cs a # synth cs a"

lemma length_synth [simp]: "length (synth cs a) = length cs - 1"
  by (induction cs a rule: synth.induct) auto

lemma synth_eval: "peval cs x = (x - a) * peval (synth cs a) x + peval cs a"
proof (induction cs a rule: synth.induct)
  case (3 c d cs a)
  have "peval (c # d # cs) x = c + x * ((x - a) * peval (synth (d # cs) a) x + peval (d # cs) a)"
    using 3 by simp
  then show ?case by (simp add: algebra_simps)
qed simp_all

lemma synth_zero: "set (synth cs a) \<subseteq> {0} \<Longrightarrow> peval cs a = 0 \<Longrightarrow> set cs \<subseteq> {0}"
proof (induction cs a rule: synth.induct)
  case (3 c d cs a)
  then have "peval (d # cs) a = 0" and "set (synth (d # cs) a) \<subseteq> {0}" by auto
  with 3 show ?case by simp
qed auto

lemma roots_zero:
  assumes "finite R" "card R = length cs" "\<forall>x \<in> R. peval cs x = 0"
  shows "set cs \<subseteq> {0}"
  using assms
proof (induction "length cs" arbitrary: cs R)
  case (Suc n)
  then obtain a where a: "a \<in> R" by (metis card.empty ex_in_conv nat.distinct(1))
  have pa: "peval cs a = 0" using Suc a by blast
  have "peval (synth cs a) x = 0" if "x \<in> R - {a}" for x
  proof -
    have "(x - a) * peval (synth cs a) x = 0" using synth_eval [of cs x a] that Suc.prems(3) pa by simp
    with that show ?thesis by simp
  qed
  then have "set (synth cs a) \<subseteq> {0}"
    using Suc a by (intro Suc.hyps(1) [of "synth cs a" "R - {a}"]) auto
  with pa show ?case by (rule synth_zero [rotated])
qed simp

section \<open>Functions given by polynomials\<close>

definition polyfun :: "nat \<Rightarrow> (gf \<Rightarrow> gf) \<Rightarrow> bool" where
  "polyfun n f \<longleftrightarrow> (\<exists>cs. length cs = n \<and> (\<forall>x. f x = peval cs x))"

lemma peval_add: "length cs = length ds \<Longrightarrow> peval (map2 (+) cs ds) x = peval cs x + peval ds x"
  by (induction cs ds rule: list_induct2) (simp_all add: algebra_simps)

lemma peval_scale: "peval (map ((*) c) cs) x = c * peval cs x"
  by (induction cs) (simp_all add: algebra_simps)

lemma peval_pad: "peval (cs @ replicate k 0) x = peval cs x"
proof (induction cs)
  case Nil
  show ?case by (induction k) simp_all
qed simp

lemma peval_zero: "set cs \<subseteq> {0} \<Longrightarrow> peval cs x = 0"
  by (induction cs) auto

lemma polyfun_peval: "length cs \<le> n \<Longrightarrow> polyfun n (peval cs)"
  unfolding polyfun_def by (intro exI [of _ "cs @ replicate (n - length cs) 0"]) (simp add: peval_pad)

lemma polyfun_add: "polyfun n f \<Longrightarrow> polyfun n g \<Longrightarrow> polyfun n (\<lambda>x. f x + g x)"
  unfolding polyfun_def by (elim exE conjE, rule_tac x = "map2 (+) cs csa" in exI) (simp add: peval_add)

lemma polyfun_scale: "polyfun n f \<Longrightarrow> polyfun n (\<lambda>x. c * f x)"
  unfolding polyfun_def by (elim exE conjE, rule_tac x = "map ((*) c) cs" in exI) (simp add: peval_scale)

lemma polyfun_sum: "finite A \<Longrightarrow> (\<And>i. i \<in> A \<Longrightarrow> polyfun n (f i)) \<Longrightarrow> polyfun n (\<lambda>x. \<Sum>i\<in>A. f i x)"
proof (induction A rule: finite_induct)
  case empty
  have "peval [] = (\<lambda>x. 0)" by (rule ext) simp
  then show ?case using polyfun_peval [of "[]" n] by simp
qed (simp add: polyfun_add)

lemma polyfun_factor: "polyfun n f \<Longrightarrow> polyfun (Suc n) (\<lambda>x. (x - a) * f x)"
proof -
  assume "polyfun n f"
  then obtain cs where cs: "length cs = n" "\<forall>x. f x = peval cs x" by (auto simp: polyfun_def)
  have "polyfun (Suc n) (peval (0 # cs))" "polyfun (Suc n) (\<lambda>x. (- a) * peval cs x)"
    using cs(1) by (intro polyfun_peval polyfun_scale; simp)+
  then have "polyfun (Suc n) (\<lambda>x. peval (0 # cs) x + (- a) * peval cs x)" by (rule polyfun_add)
  then show ?thesis using cs(2) by (simp add: algebra_simps)
qed

lemma polyfun_prod: "finite A \<Longrightarrow> polyfun (Suc (card A)) (\<lambda>x. \<Prod>j\<in>A. x - u j)"
proof (induction A rule: finite_induct)
  case empty
  have "peval [1] = (\<lambda>x. 1)" by (rule ext) simp
  then show ?case using polyfun_peval [of "[1]" 1] by simp
qed (simp add: polyfun_factor)

lemma polyfun_unique:
  assumes "polyfun n f" "polyfun n g" "finite R" "card R = n" "\<forall>x \<in> R. f x = g x"
  shows "f x = g x"
proof -
  have "polyfun n (\<lambda>x. f x + (- 1) * g x)" using assms(1,2) by (intro polyfun_add polyfun_scale)
  then obtain cs where cs: "length cs = n" "\<forall>x. f x + (- 1) * g x = peval cs x" by (auto simp: polyfun_def)
  have "peval cs y = 0" if "y \<in> R" for y
  proof -
    have "peval cs y = f y + (- 1) * g y" using cs(2) by simp
    with assms(5) that show ?thesis by simp
  qed
  then have "set cs \<subseteq> {0}" using cs(1) assms(3,4) by (intro roots_zero [of R]) auto
  then have "f x + (- 1) * g x = 0" using cs(2) by (simp add: peval_zero)
  then show ?thesis by simp
qed

section \<open>Interpolation\<close>

definition lagrange :: "nat \<Rightarrow> (nat \<Rightarrow> gf) \<Rightarrow> (nat \<Rightarrow> gf) \<Rightarrow> gf \<Rightarrow> gf" where
  "lagrange n u y x = (\<Sum>i<n. y i * (\<Prod>j\<in>{..<n} - {i}. x - u j) * inverse (\<Prod>j\<in>{..<n} - {i}. u i - u j))"

lemma lagrange_cong:
  assumes "\<And>i. i < n \<Longrightarrow> u i = u' i" "\<And>i. i < n \<Longrightarrow> y i = y' i"
  shows "lagrange n u y x = lagrange n u' y' x"
  unfolding lagrange_def
proof (rule sum.cong [OF refl])
  fix i assume "i \<in> {..<n}"
  moreover have "(\<Prod>j\<in>{..<n} - {i}. x - u j) = (\<Prod>j\<in>{..<n} - {i}. x - u' j)"
    by (rule prod.cong) (use assms in auto)
  moreover have "(\<Prod>j\<in>{..<n} - {i}. u i - u j) = (\<Prod>j\<in>{..<n} - {i}. u' i - u' j)" if "i < n"
    by (rule prod.cong) (use assms that in auto)
  ultimately show "y i * (\<Prod>j\<in>{..<n} - {i}. x - u j) * inverse (\<Prod>j\<in>{..<n} - {i}. u i - u j)
      = y' i * (\<Prod>j\<in>{..<n} - {i}. x - u' j) * inverse (\<Prod>j\<in>{..<n} - {i}. u' i - u' j)"
    using assms by simp
qed

lemma lagrange_polyfun: "polyfun n (lagrange n u y)"
proof -
  have "polyfun n (\<lambda>x. (y i * inverse (\<Prod>j\<in>{..<n} - {i}. u i - u j)) * (\<Prod>j\<in>{..<n} - {i}. x - u j))" if "i < n" for i
    using polyfun_prod [of "{..<n} - {i}" u] that by (intro polyfun_scale) simp
  then have "polyfun n (\<lambda>x. \<Sum>i<n. (y i * inverse (\<Prod>j\<in>{..<n} - {i}. u i - u j)) * (\<Prod>j\<in>{..<n} - {i}. x - u j))"
    by (intro polyfun_sum) auto
  moreover have "lagrange n u y = (\<lambda>x. \<Sum>i<n. (y i * inverse (\<Prod>j\<in>{..<n} - {i}. u i - u j)) * (\<Prod>j\<in>{..<n} - {i}. x - u j))"
    by (rule ext) (simp add: lagrange_def ac_simps)
  ultimately show ?thesis by simp
qed

lemma lagrange_at:
  assumes "inj_on u {..<n}" "k < n"
  shows "lagrange n u y (u k) = y k"
proof -
  let ?t = "\<lambda>i. y i * (\<Prod>j\<in>{..<n} - {i}. u k - u j) * inverse (\<Prod>j\<in>{..<n} - {i}. u i - u j)"
  have "?t i = 0" if "i \<in> {..<n} - {k}" for i
  proof -
    have "(\<Prod>j\<in>{..<n} - {i}. u k - u j) = 0" using that assms(2) by (intro prod_zero) auto
    then show ?thesis by simp
  qed
  then have "(\<Sum>i\<in>{..<n} - {k}. ?t i) = 0" by (intro sum.neutral ballI)
  then have "(\<Sum>i<n. ?t i) = ?t k" using assms(2) by (subst sum.remove [of _ k]) simp_all
  moreover have "(\<Prod>j\<in>{..<n} - {k}. u k - u j) \<noteq> 0"
    using assms by (auto simp: prod_zero_iff dest: inj_onD)
  ultimately show ?thesis by (simp add: lagrange_def)
qed

lemma lagrange_eq:
  assumes "inj_on u {..<n}" "polyfun n f"
  shows "lagrange n u (\<lambda>i. f (u i)) x = f x"
proof (rule polyfun_unique [OF lagrange_polyfun assms(2)])
  show "finite (u ` {..<n})" by simp
  show "card (u ` {..<n}) = n" using assms(1) by (simp add: card_image)
  show "\<forall>x \<in> u ` {..<n}. lagrange n u (\<lambda>i. f (u i)) x = f x" using lagrange_at [OF assms(1)] by auto
qed

end
