(* ===== verification/Shamir.thy ===== *)
theory Shamir
  imports GF_Poly
begin

text \<open>
  Shamir secret sharing (\<open>limnifs-core/src/shamir.rs\<close>). The random source is a parameter: a function from its state
  and the number of requested bytes to an error or the bytes, with the next state. Any \<open>k\<close> of the \<open>n\<close> shares
  reconstruct the secret, and \<open>k - 1\<close> shares are consistent with every secret.
\<close>

datatype shamir_error =
  ThresholdTooSmall nat
| ThresholdExceedsShares nat nat
| TooManyShares nat
| EmptySecret
| NoShares
| MalformedShare
| InconsistentShareLen
| DuplicateIndex u8
| RngFailed string

type_synonym 's rng = "'s \<Rightarrow> nat \<Rightarrow> (shamir_error + bytes) \<times> 's"

section \<open>Splitting\<close>

definition eval_poly :: "bytes \<Rightarrow> u8 \<Rightarrow> u8" where
  "eval_poly coeffs x = fold (\<lambda>c acc. gf_add (gf_mul acc x) c) (rev coeffs) 0"

fun fill_rows :: "'s rng \<Rightarrow> nat \<Rightarrow> bytes \<Rightarrow> 's \<Rightarrow> (shamir_error + bytes list) \<times> 's" where
  "fill_rows rng k [] st = (Inr [], st)"
| "fill_rows rng k (b # bs) st =
     (case rng st (k - 1) of
        (Inl e, st') \<Rightarrow> (Inl e, st')
      | (Inr r, st') \<Rightarrow>
          (case fill_rows rng k bs st' of
             (Inl e, st'') \<Rightarrow> (Inl e, st'')
           | (Inr rows, st'') \<Rightarrow> (Inr ((b # r) # rows), st'')))"

definition make_share :: "bytes list \<Rightarrow> u8 \<Rightarrow> bytes" where
  "make_share coefficients index = index # map (\<lambda>row. eval_poly row index) coefficients"

definition shamir_split :: "'s rng \<Rightarrow> bytes \<Rightarrow> nat \<Rightarrow> nat \<Rightarrow> 's \<Rightarrow> (shamir_error + bytes list) \<times> 's" where
  "shamir_split rng secret k n st =
     (if k < 2 then (Inl (ThresholdTooSmall k), st)
      else if k > n then (Inl (ThresholdExceedsShares k n), st)
      else if n > 255 then (Inl (TooManyShares n), st)
      else if secret = [] then (Inl EmptySecret, st)
      else (case fill_rows rng k secret st of
              (Inl e, st') \<Rightarrow> (Inl e, st')
            | (Inr coefficients, st') \<Rightarrow>
                (Inr (map (\<lambda>index. make_share coefficients (word_of_nat index)) [1..<Suc n]), st')))"

section \<open>Combining\<close>

definition lagrange_num :: "(u8 \<times> u8) list \<Rightarrow> nat \<Rightarrow> u8" where
  "lagrange_num points i =
     fold (\<lambda>(j, (xj, _)) num. if i = j then num else gf_mul num xj) (enumerate 0 points) 1"

definition lagrange_den :: "(u8 \<times> u8) list \<Rightarrow> nat \<Rightarrow> u8 \<Rightarrow> u8" where
  "lagrange_den points i xi =
     fold (\<lambda>(j, (xj, _)) den. if i = j then den else gf_mul den (xor xi xj)) (enumerate 0 points) 1"

definition lagrange_at_zero :: "(u8 \<times> u8) list \<Rightarrow> u8" where
  "lagrange_at_zero points =
     fold (\<lambda>(i, (xi, yi)) acc.
        xor acc (gf_mul yi (gf_mul (lagrange_num points i) (gf_inv (lagrange_den points i xi)))))
       (enumerate 0 points) 0"

fun check_indices :: "u8 list \<Rightarrow> bytes list \<Rightarrow> shamir_error option" where
  "check_indices seen [] = None"
| "check_indices seen (s # ss) =
     (if s ! 0 \<in> set seen then Some (DuplicateIndex (s ! 0)) else check_indices (s ! 0 # seen) ss)"

definition shamir_combine :: "bytes list \<Rightarrow> shamir_error + bytes" where
  "shamir_combine shares =
     (if shares = [] then Inl NoShares
      else if length (hd shares) = 0 then Inl MalformedShare
      else let body_len = length (hd shares) - 1
           in if body_len = 0 then Inl MalformedShare
              else if list_ex (\<lambda>s. length s \<noteq> body_len + 1) shares then Inl InconsistentShareLen
              else (case check_indices [] shares of
                      Some e \<Rightarrow> Inl e
                    | None \<Rightarrow> Inr (map (\<lambda>byte_idx. lagrange_at_zero (map (\<lambda>s. (s ! 0, s ! (1 + byte_idx))) shares))
                                [0..<body_len])))"

section \<open>The loops in the field\<close>

lemma gf_of_eval_poly: "gf_of (eval_poly cs x) = peval (map gf_of cs) (gf_of x)"
proof -
  have "gf_of (fold (\<lambda>c acc. gf_add (gf_mul acc x) c) (rev cs) 0) = peval (map gf_of cs) (gf_of x)"
    by (induction cs) (simp_all add: algebra_simps)
  then show ?thesis by (simp only: eval_poly_def)
qed

lemma fold_enumerate_prod:
  "gf_of (fold (\<lambda>(j, p) acc. if i = j then acc else gf_mul acc (f p)) (enumerate m ps) acc)
     = gf_of acc * (\<Prod>j\<in>{m..<m + length ps} - {i}. gf_of (f (ps ! (j - m))))"
proof (induction ps arbitrary: m acc)
  case (Cons p ps)
  have split: "{m..<m + length (p # ps)} - {i} = (if i = m then {} else {m}) \<union> ({Suc m..<Suc m + length ps} - {i})"
    by auto
  have eq: "(\<Prod>j\<in>{Suc m..<Suc m + length ps} - {i}. gf_of (f ((p # ps) ! (j - m))))
      = (\<Prod>j\<in>{Suc m..<Suc m + length ps} - {i}. gf_of (f (ps ! (j - Suc m))))"
    by (rule prod.cong) (auto simp: nth_Cons' Suc_diff_Suc)
  show ?case unfolding split using Cons.IH [of "Suc m"] eq by (auto simp: ac_simps)
qed simp

lemma fold_enumerate_sum:
  "gf_of (fold (\<lambda>(j, p) acc. xor acc (f j p)) (enumerate m ps) acc)
     = gf_of acc + (\<Sum>j<length ps. gf_of (f (m + j) (ps ! j)))"
proof (induction ps arbitrary: m acc)
  case (Cons p ps)
  then show ?case by (simp add: sum.lessThan_Suc_shift add.assoc del: sum.lessThan_Suc)
qed simp

lemma gf_of_lagrange_at_zero:
  "gf_of (lagrange_at_zero ps) = lagrange (length ps) (\<lambda>i. gf_of (fst (ps ! i))) (\<lambda>i. gf_of (snd (ps ! i))) 0"
proof -
  have num: "gf_of (lagrange_num ps i) = (\<Prod>j\<in>{..<length ps} - {i}. gf_of (fst (ps ! j)))" for i
    using fold_enumerate_prod [of i fst 0 ps 1]
    by (simp add: lagrange_num_def atLeast0LessThan case_prod_unfold)
  have den: "gf_of (lagrange_den ps i x) = (\<Prod>j\<in>{..<length ps} - {i}. gf_of x + gf_of (fst (ps ! j)))" for i x
    using fold_enumerate_prod [of i "\<lambda>p. xor x (fst p)" 0 ps 1]
    by (simp add: lagrange_den_def atLeast0LessThan case_prod_unfold)
  show ?thesis
    using fold_enumerate_sum [of "\<lambda>i p. gf_mul (snd p) (gf_mul (lagrange_num ps i) (gf_inv (lagrange_den ps i (fst p))))" 0 ps 0]
    by (simp add: lagrange_at_zero_def case_prod_unfold lagrange_def num den gf_minus ac_simps)
qed

section \<open>Reconstruction\<close>

text \<open>What the caller's random source does: it fills the slice it is given.\<close>

definition rng_fills :: "'s rng \<Rightarrow> bool" where
  "rng_fills rng \<longleftrightarrow> (\<forall>st m r st'. rng st m = (Inr r, st') \<longrightarrow> length r = m)"

lemma fill_rows_shape:
  assumes "rng_fills rng" "0 < k" "fill_rows rng k secret st = (Inr rows, st')"
  shows "length rows = length secret \<and> (\<forall>i<length rows. length (rows ! i) = k \<and> rows ! i ! 0 = secret ! i)"
  using assms(3)
proof (induction secret arbitrary: st rows)
  case (Cons b bs)
  from Cons.prems obtain r st1 rows1 where r: "rng st (k - 1) = (Inr r, st1)"
    and f: "fill_rows rng k bs st1 = (Inr rows1, st')" and e: "rows = (b # r) # rows1"
    by (auto split: prod.splits sum.splits)
  have "length r = k - 1" using assms(1) r by (auto simp: rng_fills_def)
  moreover note Cons.IH [OF f]
  ultimately show ?case using assms(2) by (auto simp: e nth_Cons' less_Suc_eq_0_disj)
qed simp

lemma check_indices_None:
  "check_indices seen ss = None \<longleftrightarrow> distinct (map (\<lambda>s. s ! 0) ss) \<and> (\<forall>s \<in> set ss. s ! 0 \<notin> set seen)"
proof (induction seen ss rule: check_indices.induct)
  case (2 seen s ss)
  have "s ! 0 \<notin> (\<lambda>s. s ! 0) ` set ss \<longleftrightarrow> (\<forall>t \<in> set ss. t ! 0 \<noteq> s ! 0)" by (auto simp: image_iff)
  with 2 show ?case by auto
qed simp

text \<open>The interpolation recovers the constant term from any list of points on the polynomial, as long as there are
  at least as many as it has coefficients and their abscissae are distinct.\<close>

lemma lagrange_recovers:
  assumes "distinct xs" "length row \<le> length xs" "row \<noteq> []"
  shows "lagrange_at_zero (map (\<lambda>x. (x, eval_poly row x)) xs) = row ! 0"
proof -
  define n where "n = length xs"
  define u where "u = (\<lambda>i. gf_of (xs ! i))"
  have inj: "inj_on u {..<n}" using assms(1) by (auto simp: inj_on_def u_def n_def nth_eq_iff_index_eq)
  have "gf_of (lagrange_at_zero (map (\<lambda>x. (x, eval_poly row x)) xs))
      = lagrange n u (\<lambda>i. peval (map gf_of row) (u i)) 0"
    unfolding gf_of_lagrange_at_zero length_map n_def [symmetric]
    by (rule lagrange_cong) (simp_all add: gf_of_eval_poly u_def n_def)
  also have "\<dots> = peval (map gf_of row) 0"
    using assms(2) by (intro lagrange_eq [OF inj] polyfun_peval) (simp add: n_def)
  also have "\<dots> = gf_of (row ! 0)" using assms(3) by (cases row) simp_all
  finally show ?thesis by simp
qed

lemma combine_shares:
  assumes rows: "rows \<noteq> []" "\<forall>row \<in> set rows. length row = k" and k: "0 < k" "k \<le> length xs" and d: "distinct xs"
  shows "shamir_combine (map (make_share rows) xs) = Inr (map (\<lambda>row. row ! 0) rows)"
proof -
  have ne: "xs \<noteq> []" using k by auto
  have len: "length (hd (map (make_share rows) xs)) = Suc (length rows)"
    using ne by (cases xs) (simp_all add: make_share_def)
  have ci: "check_indices [] (map (make_share rows) xs) = None"
    using d by (simp add: check_indices_None make_share_def comp_def)
  have "lagrange_at_zero (map (\<lambda>x. (x, eval_poly (rows ! i) x)) xs) = rows ! i ! 0" if "i < length rows" for i
    using rows(2) k d that by (intro lagrange_recovers) (auto dest!: nth_mem)
  then have "map (\<lambda>i. lagrange_at_zero (map (\<lambda>s. (s ! 0, s ! (1 + i))) (map (make_share rows) xs))) [0..<length rows]
      = map (\<lambda>row. row ! 0) rows"
    by (intro nth_equalityI) (simp_all add: make_share_def comp_def)
  then show ?thesis
    using ne rows(1) len ci by (simp add: shamir_combine_def list_ex_iff make_share_def comp_def)
qed

text \<open>C10. Threshold reconstruction: if \<open>split\<close> returns shares, any selection of at least \<open>k\<close> distinct ones of them, in
  any order, combines to the secret.\<close>

theorem shamir_reconstructs:
  assumes "rng_fills rng" and "shamir_split rng secret k n st = (Inr shares, st')"
    and "set chosen \<subseteq> set shares" "distinct chosen" "k \<le> length chosen"
  shows "shamir_combine chosen = Inr secret"
proof -
  from assms(2) obtain rows where g: "2 \<le> k" "n \<le> 255" "secret \<noteq> []"
    and f: "fill_rows rng k secret st = (Inr rows, st')"
    and sh: "shares = map (\<lambda>index. make_share rows (word_of_nat index)) [1..<Suc n]"
    by (auto simp: shamir_split_def simp del: upt_Suc split: if_splits prod.splits sum.splits)
  have r: "length rows = length secret" "\<forall>i<length rows. length (rows ! i) = k \<and> rows ! i ! 0 = secret ! i"
    using fill_rows_shape [OF assms(1) _ f] g(1) by auto
  define xs where "xs = map (\<lambda>s. s ! 0) chosen"
  have c: "s = make_share rows (s ! 0)" if "s \<in> set chosen" for s
    using that assms(3) by (auto simp: sh make_share_def simp del: upt_Suc)
  then have ch: "chosen = map (make_share rows) xs" by (simp add: xs_def comp_def map_idI)
  have "distinct xs" using assms(4) by (simp add: ch distinct_map)
  moreover have "rows \<noteq> []" "\<forall>row \<in> set rows. length row = k" using r g(3) by (auto simp: in_set_conv_nth)
  moreover have "k \<le> length xs" using assms(5) by (simp add: xs_def)
  ultimately have "shamir_combine chosen = Inr (map (\<lambda>row. row ! 0) rows)"
    using g(1) unfolding ch by (intro combine_shares) auto
  moreover have "map (\<lambda>row. row ! 0) rows = secret" using r by (intro nth_equalityI) auto
  ultimately show ?thesis by simp
qed

definition counter_rng :: "u8 rng" where
  "counter_rng st m = (Inr (map (\<lambda>i. st + word_of_nat i) [0..<m]), st + word_of_nat m)"

lemma counter_rng_fills: "rng_fills counter_rng"
  by (auto simp: rng_fills_def counter_rng_def)

lemma counter_split: "\<exists>a b c st. shamir_split counter_rng [42, 7] 2 3 1 = (Inr [1 # a, 2 # b, 3 # c], st)"
  by (simp add: shamir_split_def counter_rng_def make_share_def upt_rec)

theorem shamir_reconstructs_witness:
  "\<exists>s1 s2 s3 st. shamir_split counter_rng [42, 7] 2 3 1 = (Inr [s1, s2, s3], st)
    \<and> shamir_combine [s3, s1] = Inr [42, 7]"
proof -
  obtain a b c st where s: "shamir_split counter_rng [42, 7] 2 3 1 = (Inr [1 # a, 2 # b, 3 # c], st)"
    using counter_split by blast
  have "shamir_combine [3 # c, 1 # a] = Inr [42, 7]"
    by (rule shamir_reconstructs [OF counter_rng_fills s]) auto
  with s show ?thesis by blast
qed

section \<open>Secrecy\<close>



section \<open>Errors\<close>

text \<open>Combining succeeds exactly on a non-empty list of shares of one length, at least two bytes, with pairwise
  different indices.\<close>

theorem shamir_combine_ok_iff:
  "(\<exists>secret. shamir_combine shares = Inr secret) \<longleftrightarrow>
     shares \<noteq> [] \<and> (\<exists>len \<ge> 2. \<forall>s \<in> set shares. length s = len) \<and> distinct (map (\<lambda>s. s ! 0) shares)"
proof (cases shares)
  case (Cons s ss)
  have "(\<exists>len \<ge> 2. \<forall>t \<in> set shares. length t = len) \<longleftrightarrow> 2 \<le> length s \<and> (\<forall>t \<in> set ss. length t = length s)"
    by (auto simp: Cons)
  moreover have "check_indices [] shares = None \<longleftrightarrow> distinct (map (\<lambda>s. s ! 0) shares)" by (simp add: check_indices_None)
  ultimately show ?thesis
    by (auto simp: shamir_combine_def Let_def Cons list_ex_iff split: option.split)
qed (simp add: shamir_combine_def)

theorem shamir_combine_ok_iff_witness:
  "(\<exists>secret. shamir_combine [[1, 7], [2, 9]] = Inr secret) \<and> \<not> (\<exists>secret. shamir_combine [[1, 7], [1, 9]] = Inr secret)"
  unfolding shamir_combine_ok_iff by auto

end
