(* ===== verification/Reed_Solomon.thy ===== *)
theory Reed_Solomon
  imports GF_Poly
begin

text \<open>
  Reed-Solomon erasure coding (\<open>limnifs-core/src/reed_solomon.rs\<close>) and slab repair (\<open>ec_repair.rs\<close>): Gauss-Jordan
  inversion, the systematic generator matrix, encoding, decoding from any \<open>k\<close> surviving shards, and the repair that
  decodes and encodes again. A failed \<open>expect\<close> is \<^const>\<open>None\<close>.
\<close>

type_synonym matrix = "bytes list"

datatype rs_error =
  InvalidDataShardCount nat
| InvalidParityShardCount nat
| RsTooManyShards nat nat
| UnexpectedShardCount nat nat
| InconsistentShardLen
| InsufficientShards nat nat
| SingularMatrix

section \<open>Matrices\<close>

definition augment :: "matrix \<Rightarrow> matrix" where
  "augment m = map (\<lambda>i. m ! i @ (replicate (length m) 0)[i := 1]) [0..<length m]"

definition swap_rows :: "nat \<Rightarrow> nat \<Rightarrow> matrix \<Rightarrow> matrix" where
  "swap_rows i j a = a[i := a ! j, j := a ! i]"

definition eliminate_row :: "nat \<Rightarrow> nat \<Rightarrow> matrix \<Rightarrow> matrix" where
  "eliminate_row col r a =
     (if r = col then a
      else let factor = a ! r ! col
           in if factor = 0 then a
              else a[r := map2 gf_add (a ! r) (map (gf_mul factor) (a ! col))])"

definition gauss_step :: "nat \<Rightarrow> nat \<Rightarrow> matrix \<Rightarrow> rs_error + matrix" where
  "gauss_step k col a =
     (case find (\<lambda>r. a ! r ! col \<noteq> 0) [col..<k] of
        None \<Rightarrow> Inl SingularMatrix
      | Some pivot_row \<Rightarrow>
          let b = (if pivot_row \<noteq> col then swap_rows col pivot_row a else a);
              inv_pivot = gf_inv (b ! col ! col)
          in if inv_pivot = 0 \<and> b ! col ! col \<noteq> 0 then Inl SingularMatrix
             else Inr (fold (eliminate_row col) [0..<k] (b[col := map (\<lambda>byte. gf_mul byte inv_pivot) (b ! col)])))"

fun gauss_loop :: "nat \<Rightarrow> nat list \<Rightarrow> matrix \<Rightarrow> rs_error + matrix" where
  "gauss_loop k [] a = Inr a"
| "gauss_loop k (col # cols) a =
     (case gauss_step k col a of Inl e \<Rightarrow> Inl e | Inr a' \<Rightarrow> gauss_loop k cols a')"

definition invert_matrix :: "matrix \<Rightarrow> rs_error + matrix" where
  "invert_matrix m =
     (case gauss_loop (length m) [0..<length m] (augment m) of
        Inl e \<Rightarrow> Inl e
      | Inr a \<Rightarrow> Inr (map (drop (length m)) a))"

definition matrix_mul :: "matrix \<Rightarrow> matrix \<Rightarrow> matrix" where
  "matrix_mul a b =
     (let cols = (case b of [] \<Rightarrow> 0 | r # _ \<Rightarrow> length r)
      in map (\<lambda>i. map (\<lambda>j. fold (\<lambda>l acc. gf_add acc (gf_mul (a ! i ! l) (b ! l ! j))) [0..<length b] 0) [0..<cols])
           [0..<length a])"

section \<open>Coding\<close>

definition rs_validate_params :: "nat \<Rightarrow> nat \<Rightarrow> rs_error + unit" where
  "rs_validate_params k m =
     (if k = 0 \<or> k > 255 then Inl (InvalidDataShardCount k)
      else if m = 0 then Inl (InvalidParityShardCount m)
      else if k + m > 255 then Inl (RsTooManyShards k m)
      else Inr ())"

definition vandermonde :: "nat \<Rightarrow> nat \<Rightarrow> matrix" where
  "vandermonde n k = map (\<lambda>i. map (\<lambda>j. gf_pow (word_of_nat i) j) [0..<k]) [0..<n]"

definition build_generator :: "nat \<Rightarrow> nat \<Rightarrow> matrix option" where
  "build_generator k m =
     (let v = vandermonde (k + m) k
      in case invert_matrix (take k v) of Inl _ \<Rightarrow> None | Inr v_top_inv \<Rightarrow> Some (matrix_mul v v_top_inv))"

definition row_times :: "bytes \<Rightarrow> bytes list \<Rightarrow> nat \<Rightarrow> bytes" where
  "row_times row shards shard_len =
     map (\<lambda>b. fold (\<lambda>(j, d) acc. gf_add acc (gf_mul (row ! j) (d ! b))) (enumerate 0 shards) 0) [0..<shard_len]"

definition rs_encode :: "bytes list \<Rightarrow> nat \<Rightarrow> nat \<Rightarrow> (rs_error + bytes list) option" where
  "rs_encode data k m =
     (case rs_validate_params k m of
        Inl e \<Rightarrow> Some (Inl e)
      | Inr _ \<Rightarrow>
          if length data \<noteq> k then Some (Inl (UnexpectedShardCount k (length data)))
          else let shard_len = (case data of [] \<Rightarrow> 0 | s # _ \<Rightarrow> length s)
               in if list_ex (\<lambda>s. length s \<noteq> shard_len) data then Some (Inl InconsistentShardLen)
                  else (case build_generator k m of
                          None \<Rightarrow> None
                        | Some g \<Rightarrow> Some (Inr (data
                            @ map (\<lambda>parity_row. row_times parity_row data shard_len) (drop k (take (k + m) g))))))"

definition survivor_indices :: "bytes option list \<Rightarrow> nat list" where
  "survivor_indices slots = map fst (filter (\<lambda>(i, s). s \<noteq> None) (enumerate 0 slots))"

definition rs_decode :: "bytes option list \<Rightarrow> nat \<Rightarrow> nat \<Rightarrow> (rs_error + bytes list) option" where
  "rs_decode slots k m =
     (case rs_validate_params k m of
        Inl e \<Rightarrow> Some (Inl e)
      | Inr _ \<Rightarrow>
          if length slots \<noteq> k + m then Some (Inl (UnexpectedShardCount (k + m) (length slots)))
          else if length (survivor_indices slots) < k
          then Some (Inl (InsufficientShards (length (survivor_indices slots)) k))
          else let chosen = take k (survivor_indices slots);
                   shards = map (\<lambda>i. the (slots ! i)) chosen;
                   shard_len = length (hd shards)
               in if list_ex (\<lambda>s. length s \<noteq> shard_len) shards then Some (Inl InconsistentShardLen)
                  else (case build_generator k m of
                          None \<Rightarrow> None
                        | Some g \<Rightarrow>
                            (case invert_matrix (map (\<lambda>i. g ! i) chosen) of
                               Inl e \<Rightarrow> Some (Inl e)
                             | Inr decoder \<Rightarrow>
                                 Some (Inr (map (\<lambda>decoder_row. row_times decoder_row shards shard_len) decoder)))))"

section \<open>Repair\<close>

record degraded_slab =
  ds_data_shards :: "bytes option list"
  ds_parity_shards :: "bytes option list"
  ds_k :: nat
  ds_m :: nat

record repair_result =
  rr_data_shards :: "bytes list"
  rr_parity_shards :: "bytes list"
  rr_reconstructed :: "nat list"

datatype repair_error = RepairRs rs_error | WrongArity nat nat | RepairInconsistentShardLen

definition repair_shards :: "degraded_slab \<Rightarrow> (repair_error + repair_result) option" where
  "repair_shards d =
     (if length (ds_data_shards d) \<noteq> ds_k d then Some (Inl (WrongArity (ds_k d) (length (ds_data_shards d))))
      else if length (ds_parity_shards d) \<noteq> ds_m d
      then Some (Inl (WrongArity (ds_m d) (length (ds_parity_shards d))))
      else let slots = ds_data_shards d @ ds_parity_shards d;
               missing = map fst (filter (\<lambda>(i, s). s = None) (enumerate 0 slots))
           in case rs_decode slots (ds_k d) (ds_m d) of
                None \<Rightarrow> None
              | Some (Inl e) \<Rightarrow> Some (Inl (RepairRs e))
              | Some (Inr data) \<Rightarrow>
                  (case rs_encode data (ds_k d) (ds_m d) of
                     None \<Rightarrow> None
                   | Some (Inl e) \<Rightarrow> Some (Inl (RepairRs e))
                   | Some (Inr full) \<Rightarrow>
                       Some (Inr \<lparr>rr_data_shards = data, rr_parity_shards = drop (ds_k d) full,
                                  rr_reconstructed = missing\<rparr>)))"

section \<open>The scheme registry\<close>

definition EC_NONE :: u8 where
  "EC_NONE = 0"

definition EC_REED_SOLOMON_GF256 :: u8 where
  "EC_REED_SOLOMON_GF256 = 1"

definition EC_EXTENDED :: u8 where
  "EC_EXTENDED = 0xFF"

record ec_info =
  ei_id :: u8
  ei_name :: string
  ei_galois_field :: u16

definition has_ec :: "ec_info \<Rightarrow> bool" where
  "has_ec i \<longleftrightarrow> ei_id i \<noteq> EC_NONE \<and> ei_id i \<noteq> EC_EXTENDED"

definition ec_lookup :: "u8 \<Rightarrow> ec_info option" where
  "ec_lookup i =
     (if i = EC_NONE then Some \<lparr>ei_id = EC_NONE, ei_name = ''none'', ei_galois_field = 0\<rparr>
      else if i = EC_REED_SOLOMON_GF256
      then Some \<lparr>ei_id = EC_REED_SOLOMON_GF256, ei_name = ''Reed-Solomon GF(2^8)'', ei_galois_field = 256\<rparr>
      else None)"

definition ec_is_registered :: "u8 \<Rightarrow> bool" where
  "ec_is_registered i \<longleftrightarrow> i = EC_NONE \<or> i = EC_REED_SOLOMON_GF256"

definition ec_registered :: "ec_info list" where
  "ec_registered = List.map_filter (\<lambda>i. ec_lookup (word_of_nat i)) [0..<255]"

lemma ec_lookup_registered: "ec_lookup i \<noteq> None \<longleftrightarrow> ec_is_registered i"
  by (simp add: ec_lookup_def ec_is_registered_def)

section \<open>Row equivalence\<close>

text \<open>Entries as field elements. Two matrices with the same linear relations between their columns have the same row
  space; every round of the elimination keeps the relations.\<close>

definition ent :: "matrix \<Rightarrow> nat \<Rightarrow> nat \<Rightarrow> gf" where
  "ent a r c = gf_of (a ! r ! c)"

definition shape :: "nat \<Rightarrow> nat \<Rightarrow> matrix \<Rightarrow> bool" where
  "shape k w a \<longleftrightarrow> length a = k \<and> (\<forall>r<k. length (a ! r) = w)"

definition relates :: "nat \<Rightarrow> nat \<Rightarrow> (nat \<Rightarrow> gf) \<Rightarrow> matrix \<Rightarrow> bool" where
  "relates k w t a \<longleftrightarrow> (\<forall>r<k. (\<Sum>c<w. t c * ent a r c) = 0)"

lemma shape_swap: "shape k w a \<Longrightarrow> i < k \<Longrightarrow> j < k \<Longrightarrow> shape k w (swap_rows i j a)"
  by (auto simp: shape_def swap_rows_def nth_list_update)

lemma ent_swap:
  "shape k w a \<Longrightarrow> i < k \<Longrightarrow> j < k \<Longrightarrow> r < k \<Longrightarrow>
     ent (swap_rows i j a) r c = ent a (if r = i then j else if r = j then i else r) c"
  by (auto simp: ent_def swap_rows_def shape_def nth_list_update)

lemma relates_swap:
  assumes "shape k w a" "i < k" "j < k"
  shows "relates k w t (swap_rows i j a) \<longleftrightarrow> relates k w t a"
proof -
  define s where "s = (\<lambda>r. if r = i then j else if r = j then i else r)"
  have s: "s r < k" if "r < k" for r using that assms by (simp add: s_def)
  have ss: "s (s r) = r" for r by (simp add: s_def)
  have e: "ent (swap_rows i j a) r c = ent a (s r) c" if "r < k" for r c
    using ent_swap [OF assms that, of c] by (simp add: s_def)
  have "(\<forall>r<k. (\<Sum>c<w. t c * ent a (s r) c) = 0) \<longleftrightarrow> (\<forall>r<k. (\<Sum>c<w. t c * ent a r c) = 0)"
    using s ss by metis
  then show ?thesis by (simp add: relates_def e)
qed

text \<open>The scaled row and the elimination loop, as one description of the new entries.\<close>

lemma eliminate_row_ent:
  assumes "shape k w a" "col < k" "r < k" "r' < k" "c < w"
  shows "ent (eliminate_row col r a) r' c
    = (if r' = r \<and> r \<noteq> col then ent a r c + ent a r col * ent a col c else ent a r' c)"
  using assms by (auto simp: eliminate_row_def ent_def shape_def Let_def nth_list_update)

lemma shape_eliminate: "shape k w a \<Longrightarrow> col < k \<Longrightarrow> r < k \<Longrightarrow> shape k w (eliminate_row col r a)"
  by (auto simp: shape_def eliminate_row_def Let_def nth_list_update)

lemma fold_eliminate:
  assumes "shape k w a" "col < k" "col < w" "n \<le> k"
  shows "shape k w (fold (eliminate_row col) [0..<n] a)
    \<and> (\<forall>r<k. \<forall>c<w. ent (fold (eliminate_row col) [0..<n] a) r c
        = (if r < n \<and> r \<noteq> col then ent a r c + ent a r col * ent a col c else ent a r c))"
  using assms(4)
proof (induction n)
  case 0
  show ?case using assms(1) by simp
next
  case (Suc n)
  let ?b = "fold (eliminate_row col) [0..<n] a"
  have ih: "shape k w ?b" "\<forall>r<k. \<forall>c<w. ent ?b r c
      = (if r < n \<and> r \<noteq> col then ent a r c + ent a r col * ent a col c else ent a r c)"
    using Suc by simp_all
  have "ent (eliminate_row col n ?b) r c
      = (if r < Suc n \<and> r \<noteq> col then ent a r c + ent a r col * ent a col c else ent a r c)" if "r < k" "c < w" for r c
    using eliminate_row_ent [OF ih(1) assms(2) _ that, of n] Suc.prems ih(2) that assms(2,3) by auto
  with shape_eliminate [OF ih(1) assms(2), of n] Suc.prems show ?case by simp
qed

lemma gauss_step_rows:
  assumes "shape k w b" "col < k" "col < w" "ent b col col \<noteq> 0"
  defines "a' \<equiv> fold (eliminate_row col) [0..<k] (b[col := map (\<lambda>byte. gf_mul byte (gf_inv (b ! col ! col))) (b ! col)])"
  shows "shape k w a'"
    and "\<And>r c. r < k \<Longrightarrow> c < w \<Longrightarrow> ent a' r c = (if r = col then ent b col c * inverse (ent b col col)
        else ent b r c + ent b r col * (ent b col c * inverse (ent b col col)))"
proof -
  let ?s = "b[col := map (\<lambda>byte. gf_mul byte (gf_inv (b ! col ! col))) (b ! col)]"
  have sh: "shape k w ?s" using assms(1,2) by (auto simp: shape_def nth_list_update)
  have e: "ent ?s r c = (if r = col then ent b col c * inverse (ent b col col) else ent b r c)" if "r < k" "c < w" for r c
    using assms(1,2) that by (simp add: ent_def shape_def nth_list_update)
  note f = fold_eliminate [OF sh assms(2,3) order_refl]
  show "shape k w a'" using f by (simp add: a'_def)
  show "ent a' r c = (if r = col then ent b col c * inverse (ent b col col)
        else ent b r c + ent b r col * (ent b col c * inverse (ent b col col)))" if "r < k" "c < w" for r c
    using f that e [OF that] e [of col c] e [of r col] assms(2,3) by (simp add: a'_def)
qed

lemma relates_rows:
  assumes "col < k" "p \<noteq> 0"
    and e: "\<And>r c. r < k \<Longrightarrow> c < w \<Longrightarrow> ent a' r c = (if r = col then ent b col c * inverse p
        else ent b r c + q r * (ent b col c * inverse p))"
  shows "relates k w t a' \<longleftrightarrow> relates k w t b"
proof -
  define S where "S = (\<lambda>r. \<Sum>c<w. t c * ent b r c)"
  have "(\<Sum>c<w. t c * ent a' r c) = (if r = col then S col * inverse p else S r + q r * inverse p * S col)" if "r < k" for r
  proof -
    have "(\<Sum>c<w. t c * ent a' r c) = (\<Sum>c<w. t c * (if r = col then ent b col c * inverse p
        else ent b r c + q r * (ent b col c * inverse p)))"
      by (rule sum.cong) (simp_all add: e [OF that])
    then show ?thesis by (simp add: S_def sum_distrib_left sum_distrib_right sum.distrib algebra_simps)
  qed
  then have "relates k w t a' \<longleftrightarrow> (\<forall>r<k. (if r = col then S col * inverse p else S r + q r * inverse p * S col) = 0)"
    by (simp add: relates_def)
  also have "\<dots> \<longleftrightarrow> (\<forall>r<k. S r = 0)"
  proof
    assume z: "\<forall>r<k. (if r = col then S col * inverse p else S r + q r * inverse p * S col) = 0"
    from z [rule_format, of col] assms(1,2) have "S col = 0" by simp
    with z show "\<forall>r<k. S r = 0" by (metis add.right_neutral mult_zero_right)
  qed (use assms(1) in simp)
  finally show ?thesis by (simp add: relates_def S_def)
qed

text \<open>After the rounds for the columns below \<open>n\<close>: the relations are those of the start, and the columns are unit
  vectors.\<close>

definition reduced :: "nat \<Rightarrow> nat \<Rightarrow> nat \<Rightarrow> matrix \<Rightarrow> matrix \<Rightarrow> bool" where
  "reduced k w n a0 a \<longleftrightarrow> shape k w a \<and> (\<forall>t. relates k w t a \<longleftrightarrow> relates k w t a0)
     \<and> (\<forall>r<k. \<forall>c<n. ent a r c = (if r = c then 1 else 0))"

lemma gauss_step_reduced:
  assumes red: "reduced k w n a0 a" and n: "n < k" "k \<le> w" and step: "gauss_step k n a = Inr a'"
  shows "reduced k w (Suc n) a0 a'"
proof -
  have sh: "shape k w a" using red by (simp add: reduced_def)
  from step obtain p where p: "find (\<lambda>r. a ! r ! n \<noteq> 0) [n..<k] = Some p"
    by (auto simp: gauss_step_def split: option.splits)
  then have pk: "n \<le> p" "p < k" and pz: "ent a p n \<noteq> 0"
    by (auto simp: find_Some_iff ent_def)
  define b where "b = (if p \<noteq> n then swap_rows n p a else a)"
  have shb: "shape k w b" using shape_swap [OF sh n(1) pk(2)] sh by (simp add: b_def)
  have eb: "ent b r c = ent a (if r = n then p else if r = p then n else r) c" if "r < k" for r c
    using ent_swap [OF sh n(1) pk(2) that, of c] by (auto simp: b_def)
  have bz: "ent b n n \<noteq> 0" using eb [of n n] n(1) pz by simp
  have a': "a' = fold (eliminate_row n) [0..<k] (b[n := map (\<lambda>byte. gf_mul byte (gf_inv (b ! n ! n))) (b ! n)])"
    using step p by (simp add: gauss_step_def b_def Let_def split: if_splits)
  note rows = gauss_step_rows [OF shb n(1) _ bz, folded a']
  have nw: "n < w" using n by simp
  have rel: "relates k w t a' \<longleftrightarrow> relates k w t a0" for t
  proof -
    have "relates k w t a' \<longleftrightarrow> relates k w t b"
      by (rule relates_rows [OF n(1) bz, where q = "\<lambda>r. ent b r n"]) (rule rows(2) [OF nw])
    also have "\<dots> \<longleftrightarrow> relates k w t a" using relates_swap [OF sh n(1) pk(2)] by (simp add: b_def)
    finally show ?thesis using red by (simp add: reduced_def)
  qed
  have "ent a' r c = (if r = c then 1 else 0)" if "r < k" "c < Suc n" for r c
  proof (cases "c = n")
    case True
    then show ?thesis using rows(2) [OF nw that(1) nw] bz by (simp add: mult.commute)
  next
    case False
    then have c: "c < n" "c < w" using that(2) nw by auto
    have a: "ent a s c = (if s = c then 1 else 0)" if "s < k" for s using red that c(1) by (simp add: reduced_def)
    have "ent b n c = 0" using eb [OF n(1)] a [OF pk(2)] c(1) pk(1) by simp
    moreover have "ent b r c = ent a r c" using eb [OF that(1)] a pk c(1) n(1) that(1) by auto
    ultimately show ?thesis using rows(2) [OF nw that(1) c(2)] a [OF that(1)] c(1) by auto
  qed
  with rows(1) [OF nw] rel show ?thesis by (simp add: reduced_def)
qed

text \<open>A missing pivot is a column that depends on the columns before it.\<close>

lemma gauss_step_pivot:
  assumes red: "reduced k w n a0 a" and n: "n < k" "k \<le> w"
    and ker: "\<And>t. (\<And>c. k \<le> c \<Longrightarrow> t c = 0) \<Longrightarrow> relates k w t a0 \<Longrightarrow> (\<forall>c<k. t c = 0)"
  shows "\<exists>a'. gauss_step k n a = Inr a'"
proof -
  have "find (\<lambda>r. a ! r ! n \<noteq> 0) [n..<k] \<noteq> None"
  proof
    assume "find (\<lambda>r. a ! r ! n \<noteq> 0) [n..<k] = None"
    then have z: "ent a r n = 0" if "n \<le> r" "r < k" for r using that by (auto simp: find_None_iff ent_def)
    define t where "t = (\<lambda>c. if c < n then ent a c n else if c = n then 1 else 0)"
    have "(\<Sum>c<w. t c * ent a r c) = 0" if r: "r < k" for r
    proof -
      have "(\<Sum>c<w. t c * ent a r c) = (\<Sum>c<Suc n. t c * ent a r c)"
        using n by (intro sum.mono_neutral_right) (auto simp: t_def)
      also have "\<dots> = (\<Sum>c<n. t c * ent a r c) + ent a r n" by (simp add: t_def)
      also have "(\<Sum>c<n. t c * ent a r c) = (\<Sum>c<n. if r = c then ent a r n else 0)"
        using red r by (intro sum.cong) (auto simp: reduced_def t_def)
      also have "\<dots> = (if r < n then ent a r n else 0)" by simp
      finally show ?thesis using z [of r] r by (auto simp: not_less)
    qed
    then have "relates k w t a0" using red by (auto simp: relates_def reduced_def)
    moreover have "t c = 0" if "k \<le> c" for c using that n by (simp add: t_def)
    ultimately have "\<forall>c<k. t c = 0" by (intro ker) auto
    with n(1) show False by (auto simp: t_def)
  qed
  then obtain p where p: "find (\<lambda>r. a ! r ! n \<noteq> 0) [n..<k] = Some p" by blast
  have "\<not> (gf_inv x = 0 \<and> x \<noteq> 0)" for x
  proof
    assume "gf_inv x = 0 \<and> x \<noteq> 0"
    then have "inverse (gf_of x) = 0" "gf_of x \<noteq> 0" by (auto simp flip: gf_of_inv)
    then show False by simp
  qed
  then show ?thesis unfolding gauss_step_def p option.case Let_def by simp
qed

section \<open>Inversion\<close>

definition nonsingular :: "nat \<Rightarrow> matrix \<Rightarrow> bool" where
  "nonsingular k m \<longleftrightarrow> (\<forall>t. (\<forall>r<k. (\<Sum>c<k. t c * ent m r c) = 0) \<longrightarrow> (\<forall>c<k. t c = 0))"

lemma sum_lessThan_add: "(\<Sum>c<a + b. f c) = (\<Sum>c<a. f c) + (\<Sum>i<b. f (a + i))" for f :: "nat \<Rightarrow> gf"
  by (induction b) (simp_all add: add.assoc)

lemma sum_unit: "r < k \<Longrightarrow> (\<Sum>i<k. t i * (if i = r then 1 else 0)) = t r" for t :: "nat \<Rightarrow> gf"
proof -
  assume "r < k"
  have "(\<Sum>i<k. t i * (if i = r then 1 else 0)) = (\<Sum>i<k. if i = r then t i else 0)" by (rule sum.cong) auto
  then show ?thesis using \<open>r < k\<close> by simp
qed

lemma augment_ent:
  assumes "shape k k m" "r < k"
  shows "c < k \<Longrightarrow> ent (augment m) r c = ent m r c"
    and "i < k \<Longrightarrow> ent (augment m) r (k + i) = (if i = r then 1 else 0)"
  using assms by (auto simp: ent_def augment_def shape_def nth_append nth_list_update)

lemma shape_augment: "shape k k m \<Longrightarrow> shape k (k + k) (augment m)"
  by (simp add: shape_def augment_def)

lemma relates_augment:
  assumes "shape k k m"
  shows "relates k (k + k) t (augment m) \<longleftrightarrow> (\<forall>r<k. (\<Sum>c<k. t c * ent m r c) + t (k + r) = 0)"
proof -
  have "(\<Sum>c<k + k. t c * ent (augment m) r c) = (\<Sum>c<k. t c * ent m r c) + t (k + r)" if "r < k" for r
  proof -
    have "(\<Sum>c<k. t c * ent (augment m) r c) = (\<Sum>c<k. t c * ent m r c)"
      by (rule sum.cong) (simp_all add: augment_ent(1) [OF assms that])
    moreover have "(\<Sum>i<k. t (k + i) * ent (augment m) r (k + i)) = (\<Sum>i<k. t (k + i) * (if i = r then 1 else 0))"
      by (rule sum.cong) (simp_all add: augment_ent(2) [OF assms that])
    ultimately show ?thesis using sum_unit [OF that, of "\<lambda>i. t (k + i)"] by (simp add: sum_lessThan_add)
  qed
  then show ?thesis by (simp add: relates_def)
qed

lemma gauss_loop_reduced:
  assumes "reduced k w n a0 a" "n \<le> k" "k \<le> w"
    and ker: "\<And>t. (\<And>c. k \<le> c \<Longrightarrow> t c = 0) \<Longrightarrow> relates k w t a0 \<Longrightarrow> (\<forall>c<k. t c = 0)"
  shows "\<exists>a'. gauss_loop k [n..<k] a = Inr a' \<and> reduced k w k a0 a'"
  using assms(1,2)
proof (induction "k - n" arbitrary: n a)
  case 0
  then have "n = k" by simp
  with 0 show ?case by simp
next
  case (Suc d)
  then have n: "n < k" by simp
  obtain a1 where a1: "gauss_step k n a = Inr a1" using gauss_step_pivot [OF Suc.prems(1) n assms(3) ker] by blast
  have "reduced k w (Suc n) a0 a1" by (rule gauss_step_reduced [OF Suc.prems(1) n assms(3) a1])
  moreover have "d = k - Suc n" using Suc.hyps(2) by simp
  ultimately obtain a' where "gauss_loop k [Suc n..<k] a1 = Inr a'" "reduced k w k a0 a'"
    using Suc.hyps(1) [of "Suc n" a1] n by (metis Suc_leI)
  with a1 n show ?case by (auto simp: upt_conv_Cons)
qed

lemma invert_matrix_ok:
  assumes m: "shape k k m" and ns: "nonsingular k m"
  obtains t where "invert_matrix m = Inr t" "shape k k t"
    "\<And>r j. r < k \<Longrightarrow> j < k \<Longrightarrow> (\<Sum>i<k. ent t r i * ent m i j) = (if r = j then 1 else 0)"
    "nonsingular k t"
proof -
  let ?w = "k + k"
  have start: "reduced k ?w 0 (augment m) (augment m)" using shape_augment [OF m] by (simp add: reduced_def)
  have ker: "\<forall>c<k. t c = 0" if "\<And>c. k \<le> c \<Longrightarrow> t c = 0" "relates k ?w t (augment m)" for t
    using that ns by (simp add: relates_augment [OF m] nonsingular_def)
  have "\<exists>a'. gauss_loop k [0..<k] (augment m) = Inr a' \<and> reduced k ?w k (augment m) a'"
  proof (rule gauss_loop_reduced [OF start])
    show "\<forall>c<k. t c = 0" if "\<And>c. k \<le> c \<Longrightarrow> t c = 0" "relates k ?w t (augment m)" for t
      using that by (rule ker)
  qed simp_all
  then obtain a where loop: "gauss_loop k [0..<k] (augment m) = Inr a" and red: "reduced k ?w k (augment m) a" by blast
  have unit: "ent a r c = (if r = c then 1 else 0)" if "r < k" "c < k" for r c
    using red that by (simp add: reduced_def)
  have sh: "shape k ?w a" using red by (simp add: reduced_def)
  define t where "t = map (drop k) a"
  have et: "ent t r i = ent a r (k + i)" if "r < k" for r i
    using sh that by (simp add: t_def ent_def shape_def)
  have rel: "(\<forall>r<k. f r + (\<Sum>i<k. f (k + i) * ent t r i) = 0) \<longleftrightarrow> (\<forall>r<k. (\<Sum>c<k. f c * ent m r c) + f (k + r) = 0)" for f
  proof -
    have "(\<Sum>c<?w. f c * ent a r c) = f r + (\<Sum>i<k. f (k + i) * ent t r i)" if "r < k" for r
    proof -
      have "(\<Sum>c<k. f c * ent a r c) = (\<Sum>c<k. f c * (if c = r then 1 else 0))"
        by (rule sum.cong) (use unit that in auto)
      then show ?thesis using sum_unit [OF that, of f] et [OF that] by (simp add: sum_lessThan_add)
    qed
    then have "relates k ?w f a \<longleftrightarrow> (\<forall>r<k. f r + (\<Sum>i<k. f (k + i) * ent t r i) = 0)" by (simp add: relates_def)
    moreover have "relates k ?w f a \<longleftrightarrow> relates k ?w f (augment m)" using red by (simp add: reduced_def)
    ultimately show ?thesis by (simp add: relates_augment [OF m])
  qed
  show thesis
  proof (rule that)
    show "invert_matrix m = Inr t" using loop m by (simp add: invert_matrix_def shape_def t_def)
    show "shape k k t" using sh by (simp add: shape_def t_def)
    show "(\<Sum>i<k. ent t r i * ent m i j) = (if r = j then 1 else 0)" if "r < k" "j < k" for r j
    proof -
      define f where "f = (\<lambda>c. if c < k then (if c = j then 1 else 0) else ent m (c - k) j)"
      have "(\<Sum>c<k. f c * ent m s c) + f (k + s) = 0" if "s < k" for s
      proof -
        have "(\<Sum>c<k. f c * ent m s c) = (\<Sum>c<k. ent m s c * (if c = j then 1 else 0))"
          by (rule sum.cong) (simp_all add: f_def)
        then show ?thesis using sum_unit [OF \<open>j < k\<close>, of "ent m s"] by (simp add: f_def)
      qed
      then have "f r + (\<Sum>i<k. f (k + i) * ent t r i) = 0" using rel [of f] that(1) by blast
      then have "(if r = j then 1 else 0) + (\<Sum>i<k. ent t r i * ent m i j) = 0"
        using that by (simp add: f_def mult.commute)
      then show ?thesis by (simp only: gf_add_eq_0)
    qed
    show "nonsingular k t"
      unfolding nonsingular_def
    proof (intro allI impI)
      fix v c assume v: "\<forall>r<k. (\<Sum>c<k. v c * ent t r c) = 0" and c: "c < k"
      define f where "f = (\<lambda>c. if c < k then 0 else v (c - k))"
      have "\<forall>r<k. f r + (\<Sum>i<k. f (k + i) * ent t r i) = 0" using v by (simp add: f_def)
      then have "\<forall>r<k. (\<Sum>c<k. f c * ent m r c) + f (k + r) = 0" using rel [of f] by blast
      with c show "v c = 0" by (simp add: f_def)
    qed
  qed
qed

section \<open>The generator matrix\<close>

lemma shape_vandermonde: "shape n k (vandermonde n k)"
  by (simp add: shape_def vandermonde_def)

lemma ent_vandermonde: "i < n \<Longrightarrow> j < k \<Longrightarrow> ent (vandermonde n k) i j = gf_of (word_of_nat i) ^ j"
  by (simp add: ent_def vandermonde_def)

lemma gf_of_nat_inj: "i < 256 \<Longrightarrow> j < 256 \<Longrightarrow> gf_of (word_of_nat i) = gf_of (word_of_nat j) \<longleftrightarrow> i = j"
  unfolding gf_of_inject_iff word_unat_eq_iff unat_u8_of_nat by simp

text \<open>Distinct rows of a Vandermonde matrix: a relation between the columns is a polynomial with too many roots.\<close>

lemma vandermonde_nonsingular:
  assumes "distinct is" "length is = k" "\<forall>i \<in> set is. i < 256"
    and "\<forall>r<k. (\<Sum>j<k. t j * gf_of (word_of_nat (is ! r)) ^ j) = 0"
  shows "\<forall>c<k. t c = 0"
proof -
  let ?x = "\<lambda>i. gf_of (word_of_nat i :: u8)"
  define cs where "cs = map t [0..<k]"
  have "peval cs x = (\<Sum>j<k. t j * x ^ j)" for x by (simp add: peval_sum cs_def)
  then have "\<forall>x \<in> ?x ` set is. peval cs x = 0" using assms(2,4) by (auto simp: in_set_conv_nth)
  moreover have "card (?x ` set is) = length cs"
  proof -
    have "inj_on ?x (set is)" using assms(3) gf_of_nat_inj by (auto simp: inj_on_def)
    then show ?thesis using assms(1,2) by (simp add: card_image distinct_card cs_def)
  qed
  ultimately have "set cs \<subseteq> {0}" by (intro roots_zero [of "?x ` set is"]) auto
  then show ?thesis by (fastforce simp: cs_def)
qed

lemma matrix_mul_ent:
  assumes "shape n k a" "shape k k b" "i < n" "j < k" "0 < k"
  shows "ent (matrix_mul a b) i j = (\<Sum>l<k. ent a i l * ent b l j)"
proof -
  have f: "gf_of (fold (\<lambda>l acc. gf_add acc (gf_mul (f l) (g l))) [0..<m] 0) = (\<Sum>l<m. gf_of (f l) * gf_of (g l))" for f g m
    by (induction m) simp_all
  from assms(2,5) obtain r rs where "b = r # rs" "length r = k" by (cases b) (auto simp: shape_def)
  then have "(case b of [] \<Rightarrow> 0 | r # _ \<Rightarrow> length r) = k" by simp
  with assms show ?thesis by (simp add: matrix_mul_def ent_def shape_def f)
qed

lemma shape_matrix_mul:
  assumes "shape n k a" "shape k k b" "0 < k"
  shows "shape n k (matrix_mul a b)"
proof -
  from assms(2,3) obtain r rs where "b = r # rs" "length r = k" by (cases b) (auto simp: shape_def)
  then have "(case b of [] \<Rightarrow> 0 | r # _ \<Rightarrow> length r) = k" by simp
  with assms(1) show ?thesis by (simp add: matrix_mul_def shape_def)
qed

text \<open>What the coder needs of the generator: the top rows are the unit vectors, and any \<open>k\<close> rows are nonsingular.\<close>

lemma build_generator_ok:
  assumes k: "0 < k" "k + m \<le> 255"
  obtains g where "build_generator k m = Some g" "shape (k + m) k g"
    "\<And>i j. i < k \<Longrightarrow> j < k \<Longrightarrow> ent g i j = (if i = j then 1 else 0)"
    "\<And>is. distinct is \<Longrightarrow> length is = k \<Longrightarrow> \<forall>i \<in> set is. i < k + m \<Longrightarrow> nonsingular k (map ((!) g) is)"
proof -
  define v where "v = vandermonde (k + m) k"
  have sv: "shape (k + m) k v" and stop: "shape k k (take k v)"
    using shape_vandermonde [of "k + m" k] by (simp_all add: v_def shape_def)
  have ev: "ent v i j = gf_of (word_of_nat i) ^ j" if "i < k + m" "j < k" for i j
    using that by (simp add: v_def ent_vandermonde)
  have et: "ent (take k v) i j = ent v i j" if "i < k" for i j using that by (simp add: ent_def)
  have "nonsingular k (take k v)"
    unfolding nonsingular_def
  proof (intro allI impI)
    fix t c assume z: "\<forall>r<k. (\<Sum>c<k. t c * ent (take k v) r c) = 0" and c: "c < k"
    have "\<forall>r<k. (\<Sum>j<k. t j * gf_of (word_of_nat ([0..<k] ! r)) ^ j) = 0"
      using z et ev by simp
    with vandermonde_nonsingular [of "[0..<k]" k t] k c show "t c = 0" by auto
  qed
  then obtain T where T: "invert_matrix (take k v) = Inr T" "shape k k T"
    "\<And>r j. r < k \<Longrightarrow> j < k \<Longrightarrow> (\<Sum>i<k. ent T r i * ent (take k v) i j) = (if r = j then 1 else 0)" "nonsingular k T"
    using invert_matrix_ok [OF stop] by metis
  define g where "g = matrix_mul v T"
  have eg: "ent g i j = (\<Sum>l<k. ent v i l * ent T l j)" if "i < k + m" "j < k" for i j
    unfolding g_def by (rule matrix_mul_ent [OF sv T(2) that k(1)])
  show thesis
  proof (rule that)
    show "build_generator k m = Some g" using T(1) by (simp add: build_generator_def v_def [symmetric] g_def)
    show "shape (k + m) k g" unfolding g_def by (rule shape_matrix_mul [OF sv T(2) k(1)])
    show "nonsingular k (map ((!) g) is)" if "distinct is" "length is = k" "\<forall>i \<in> set is. i < k + m" for "is"
      unfolding nonsingular_def
    proof (intro allI impI)
      fix t c assume z: "\<forall>r<k. (\<Sum>c<k. t c * ent (map ((!) g) is) r c) = 0" and c: "c < k"
      define s where "s = (\<lambda>l. \<Sum>c<k. t c * ent T l c)"
      have "(\<Sum>l<k. s l * gf_of (word_of_nat (is ! r)) ^ l) = 0" if r: "r < k" for r
      proof -
        have i: "is ! r < k + m" using that \<open>length is = k\<close> \<open>\<forall>i \<in> set is. i < k + m\<close> by simp
        have "(\<Sum>c<k. t c * ent (map ((!) g) is) r c) = (\<Sum>c<k. \<Sum>l<k. t c * (ent v (is ! r) l * ent T l c))"
          using r \<open>length is = k\<close> eg [OF i] by (intro sum.cong) (simp_all add: ent_def sum_distrib_left)
        also have "\<dots> = (\<Sum>l<k. \<Sum>c<k. t c * (ent v (is ! r) l * ent T l c))" by (rule sum.swap)
        also have "\<dots> = (\<Sum>l<k. s l * gf_of (word_of_nat (is ! r)) ^ l)"
          using ev [OF i] by (intro sum.cong) (simp_all add: s_def sum_distrib_left sum_distrib_right ac_simps)
        finally show ?thesis using z r by simp
      qed
      then have "\<forall>l<k. s l = 0" using vandermonde_nonsingular [of "is" k s] that k by fastforce
      with T(4) c show "t c = 0" by (simp add: nonsingular_def s_def)
    qed
    show "ent g i j = (if i = j then 1 else 0)" if "i < k" "j < k" for i j
    proof -
      define y where "y = (\<lambda>i. ent g i j + (if i = j then 1 else 0))"
      have "(\<Sum>i<k. y i * ent T r i) = 0" if r: "r < k" for r
      proof -
        have "(\<Sum>i<k. ent g i j * ent T r i) = (\<Sum>i<k. \<Sum>l<k. ent T r i * ent (take k v) i l * ent T l j)"
          using eg [OF _ \<open>j < k\<close>] et by (intro sum.cong) (simp_all add: sum_distrib_left sum_distrib_right ac_simps)
        also have "\<dots> = (\<Sum>l<k. (\<Sum>i<k. ent T r i * ent (take k v) i l) * ent T l j)"
          by (subst sum.swap) (simp add: sum_distrib_right)
        also have "\<dots> = (\<Sum>l<k. ent T l j * (if l = r then 1 else 0))"
          using T(3) [OF r] by (intro sum.cong) auto
        also have "\<dots> = ent T r j" by (rule sum_unit [OF r])
        finally have "(\<Sum>i<k. ent g i j * ent T r i) = ent T r j" .
        moreover have "(\<Sum>i<k. (if i = j then 1 else 0) * ent T r i) = ent T r j"
          using sum_unit [OF \<open>j < k\<close>, of "ent T r"] by (simp add: mult.commute)
        ultimately show ?thesis by (simp add: y_def distrib_right sum.distrib)
      qed
      then have "y i = 0" using T(4) \<open>i < k\<close> unfolding nonsingular_def by blast
      then show ?thesis by (simp add: y_def gf_add_eq_0)
    qed
  qed
qed

section \<open>Decoding\<close>

lemma row_times_nth:
  assumes "b < len" "\<forall>d \<in> set shards. length d = len"
  shows "gf_of (row_times row shards len ! b) = (\<Sum>j<length shards. gf_of (row ! j) * gf_of (shards ! j ! b))"
proof -
  have "gf_of (fold (\<lambda>(j, d) acc. gf_add acc (gf_mul (row ! j) (d ! b))) (enumerate n ds) acc)
      = gf_of acc + (\<Sum>j<length ds. gf_of (row ! (n + j)) * gf_of (ds ! j ! b))" for n ds acc
  proof (induction ds arbitrary: n acc)
    case (Cons d ds)
    then show ?case by (simp add: sum.lessThan_Suc_shift add.assoc del: sum.lessThan_Suc)
  qed simp
  from this [of 0 shards 0] assms(1) show ?thesis by (simp add: row_times_def)
qed

lemma length_row_times [simp]: "length (row_times row shards len) = len"
  by (simp add: row_times_def)

definition data_ok :: "nat \<Rightarrow> nat \<Rightarrow> bytes list \<Rightarrow> bool" where
  "data_ok k len data \<longleftrightarrow> length data = k \<and> (\<forall>d \<in> set data. length d = len)"

lemma rs_encode_ok:
  assumes "0 < k" "0 < m" "k + m \<le> 255" "data_ok k len data"
  obtains g where "build_generator k m = Some g" "rs_encode data k m = Some (Inr (data @ map (\<lambda>r. row_times r data len) (drop k g)))"
    "shape (k + m) k g"
    "\<And>i j. i < k \<Longrightarrow> j < k \<Longrightarrow> ent g i j = (if i = j then 1 else 0)"
    "\<And>is. distinct is \<Longrightarrow> length is = k \<Longrightarrow> \<forall>i \<in> set is. i < k + m \<Longrightarrow> nonsingular k (map ((!) g) is)"
proof -
  obtain g where g: "build_generator k m = Some g" "shape (k + m) k g"
    "\<And>i j. i < k \<Longrightarrow> j < k \<Longrightarrow> ent g i j = (if i = j then 1 else 0)"
    "\<And>is. distinct is \<Longrightarrow> length is = k \<Longrightarrow> \<forall>i \<in> set is. i < k + m \<Longrightarrow> nonsingular k (map ((!) g) is)"
    using build_generator_ok [OF assms(1,3)] by metis
  have "(case data of [] \<Rightarrow> 0 | s # _ \<Rightarrow> length s) = len" "\<not> list_ex (\<lambda>s. length s \<noteq> len) data"
    using assms(1,4) by (cases data; auto simp: data_ok_def list_ex_iff)+
  moreover have "drop k (take (k + m) g) = drop k g" using g(2) by (simp add: shape_def)
  ultimately have "rs_encode data k m = Some (Inr (data @ map (\<lambda>r. row_times r data len) (drop k g)))"
    using assms g(1) by (simp add: rs_encode_def rs_validate_params_def data_ok_def Let_def)
  with g that show thesis by blast
qed

text \<open>Every shard, data or parity, is the generator's row times the data.\<close>

lemma shard_row:
  assumes g: "shape (k + m) k g" "\<And>i j. i < k \<Longrightarrow> j < k \<Longrightarrow> ent g i j = (if i = j then 1 else 0)"
    and d: "data_ok k len data" and i: "i < k + m" and b: "b < len"
  shows "gf_of ((data @ map (\<lambda>r. row_times r data len) (drop k g)) ! i ! b) = (\<Sum>j<k. ent g i j * gf_of (data ! j ! b))"
proof (cases "i < k")
  case True
  have "(\<Sum>j<k. ent g i j * gf_of (data ! j ! b)) = (\<Sum>j<k. gf_of (data ! j ! b) * (if j = i then 1 else 0))"
    using g(2) [OF True] by (intro sum.cong) auto
  also have "\<dots> = gf_of (data ! i ! b)" using sum_unit [OF True, of "\<lambda>j. gf_of (data ! j ! b)"] .
  finally show ?thesis using True d by (simp add: data_ok_def nth_append)
next
  case False
  then have "(data @ map (\<lambda>r. row_times r data len) (drop k g)) ! i = row_times (g ! i) data len"
    using d g(1) i nth_drop [of k g "i - k"] by (simp add: data_ok_def nth_append shape_def)
  with row_times_nth [OF b, of data "g ! i"] d show ?thesis by (simp add: data_ok_def ent_def)
qed

lemma survivor_indices_ok:
  "distinct (survivor_indices slots)" "i \<in> set (survivor_indices slots) \<Longrightarrow> i < length slots \<and> slots ! i \<noteq> None"
proof -
  have "distinct (map fst (enumerate n slots))" for n by (induction slots arbitrary: n) (auto simp: in_set_enumerate_eq)
  then show "distinct (survivor_indices slots)"
    unfolding survivor_indices_def by (rule distinct_map_filter)
  show "i < length slots \<and> slots ! i \<noteq> None" if "i \<in> set (survivor_indices slots)"
    using that by (auto simp: survivor_indices_def in_set_enumerate_eq)
qed

lemma length_survivor_indices: "length (survivor_indices slots) = length (filter (\<lambda>s. s \<noteq> None) slots)"
proof -
  have "length (filter (\<lambda>(i, s). s \<noteq> None) (enumerate n slots)) = length (filter (\<lambda>s. s \<noteq> None) slots)" for n
    by (induction slots arbitrary: n) auto
  then show ?thesis by (simp add: survivor_indices_def)
qed

text \<open>Erasures: the slots hold some of the shards.\<close>

definition erased :: "bytes list \<Rightarrow> bytes option list \<Rightarrow> bool" where
  "erased shards slots \<longleftrightarrow> list_all2 (\<lambda>shard slot. slot = None \<or> slot = Some shard) shards slots"

lemma rs_decode_ok:
  assumes p: "0 < k" "0 < m" "k + m \<le> 255" and d: "data_ok k len data"
    and enc: "rs_encode data k m = Some (Inr shards)" and er: "erased shards slots"
    and enough: "k \<le> length (filter (\<lambda>s. s \<noteq> None) slots)"
  shows "rs_decode slots k m = Some (Inr data)"
proof -
  obtain g where g: "build_generator k m = Some g" "rs_encode data k m = Some (Inr (data @ map (\<lambda>r. row_times r data len) (drop k g)))"
    "shape (k + m) k g" "\<And>i j. i < k \<Longrightarrow> j < k \<Longrightarrow> ent g i j = (if i = j then 1 else 0)"
    "\<And>is. distinct is \<Longrightarrow> length is = k \<Longrightarrow> \<forall>i \<in> set is. i < k + m \<Longrightarrow> nonsingular k (map ((!) g) is)"
    using rs_encode_ok [OF p d] by metis
  have sh: "shards = data @ map (\<lambda>r. row_times r data len) (drop k g)" using enc g(2) by simp
  have ls: "length shards = k + m" using d g(3) by (simp add: sh data_ok_def shape_def)
  have lsl: "length slots = k + m" and slot: "\<And>i. i < k + m \<Longrightarrow> slots ! i = None \<or> slots ! i = Some (shards ! i)"
    using er ls by (auto simp: erased_def list_all2_conv_all_nth)
  have shl: "length s = len" if "s \<in> set shards" for s using that d by (auto simp: sh data_ok_def)
  define chosen where "chosen = take k (survivor_indices slots)"
  have live: "i < k + m \<and> slots ! i \<noteq> None" if "i \<in> set chosen" for i
    using survivor_indices_ok(2) [of i slots] that lsl by (auto simp: chosen_def dest: in_set_takeD)
  then have some: "the (slots ! i) = shards ! i" if "i \<in> set chosen" for i
    using slot [of i] live [OF that] by auto
  have ch: "distinct chosen" "length chosen = k" "\<forall>i \<in> set chosen. i < k + m"
    using survivor_indices_ok(1) [of slots] enough live
    by (simp_all add: chosen_def length_survivor_indices)
  define cs where "cs = map (\<lambda>i. the (slots ! i)) chosen"
  have cs: "cs = map ((!) shards) chosen" using some by (simp add: cs_def)
  have csl: "\<forall>s \<in> set cs. length s = len" using ch(3) ls shl by (auto simp: cs)
  have cl: "\<forall>i \<in> set chosen. length (the (slots ! i)) = len" using csl by (simp add: cs_def)
  have hd: "length (hd cs) = len" using csl ch(2) p(1) by (cases cs) (auto simp: cs)
  define G where "G = map ((!) g) chosen"
  have sG: "shape k k G" using ch g(3) by (simp add: G_def shape_def)
  obtain D where D: "invert_matrix G = Inr D" "shape k k D"
    "\<And>r j. r < k \<Longrightarrow> j < k \<Longrightarrow> (\<Sum>i<k. ent D r i * ent G i j) = (if r = j then 1 else 0)"
    using invert_matrix_ok [OF sG] g(5) [OF ch] unfolding G_def by metis
  have run: "rs_decode slots k m = Some (Inr (map (\<lambda>row. row_times row cs len) D))"
    using p lsl enough g(1) D(1) cl hd
    by (simp add: rs_decode_def rs_validate_params_def length_survivor_indices chosen_def [symmetric] cs_def [symmetric]
        G_def [symmetric] Let_def list_ex_iff)
  have "map (\<lambda>row. row_times row cs len) D = data"
  proof (rule nth_equalityI)
    fix r assume "r < length (map (\<lambda>row. row_times row cs len) D)"
    then have r: "r < k" "r < length D" using D(2) by (simp_all add: shape_def)
    show "map (\<lambda>row. row_times row cs len) D ! r = data ! r"
    proof (rule nth_equalityI)
      fix b assume "b < length (map (\<lambda>row. row_times row cs len) D ! r)"
      then have b: "b < len" using r(2) by simp
      have "gf_of (row_times (D ! r) cs len ! b) = (\<Sum>i<k. ent D r i * gf_of (shards ! (chosen ! i) ! b))"
        using row_times_nth [OF b csl, of "D ! r"] ch(2) by (simp add: ent_def cs)
      also have "\<dots> = (\<Sum>i<k. \<Sum>j<k. ent D r i * ent G i j * gf_of (data ! j ! b))"
        using shard_row [OF g(3,4) d _ b] ch unfolding sh
        by (intro sum.cong) (simp_all add: G_def ent_def sum_distrib_left mult.assoc)
      also have "\<dots> = (\<Sum>j<k. (\<Sum>i<k. ent D r i * ent G i j) * gf_of (data ! j ! b))"
        by (subst sum.swap) (simp add: sum_distrib_right)
      also have "\<dots> = (\<Sum>j<k. gf_of (data ! j ! b) * (if j = r then 1 else 0))"
        using D(3) [OF r(1)] by (intro sum.cong) auto
      also have "\<dots> = gf_of (data ! r ! b)" using sum_unit [OF r(1), of "\<lambda>j. gf_of (data ! j ! b)"] .
      finally show "map (\<lambda>row. row_times row cs len) D ! r ! b = data ! r ! b" using r(2) by simp
    qed (use r d in \<open>simp add: data_ok_def\<close>)
  qed (use D(2) d in \<open>simp add: shape_def data_ok_def\<close>)
  with run show ?thesis by simp
qed

section \<open>Properties\<close>

text \<open>C9. Erasure decoding: encode \<open>k\<close> equally long data shards into \<open>k + m\<close> shards (at most 255), erase any of them,
  and decoding returns the data exactly as long as \<open>k\<close> shards survive. Neither step panics, and the matrix inversion
  never meets a singular matrix.\<close>

theorem rs_erasure_decoding:
  assumes "0 < k" "0 < m" "k + m \<le> 255" "data_ok k len data"
  shows "\<exists>shards. rs_encode data k m = Some (Inr shards) \<and> take k shards = data \<and> length shards = k + m
    \<and> (\<forall>slots. erased shards slots \<longrightarrow> rs_decode slots k m =
         (if k \<le> length (filter (\<lambda>s. s \<noteq> None) slots) then Some (Inr data)
          else Some (Inl (InsufficientShards (length (filter (\<lambda>s. s \<noteq> None) slots)) k))))"
proof -
  obtain g where g: "rs_encode data k m = Some (Inr (data @ map (\<lambda>r. row_times r data len) (drop k g)))" "shape (k + m) k g"
    using rs_encode_ok [OF assms] by metis
  let ?s = "data @ map (\<lambda>r. row_times r data len) (drop k g)"
  have l: "length ?s = k + m" using assms(4) g(2) by (simp add: data_ok_def shape_def)
  have "rs_decode slots k m = Some (Inl (InsufficientShards (length (filter (\<lambda>s. s \<noteq> None) slots)) k))"
    if "erased ?s slots" "\<not> k \<le> length (filter (\<lambda>s. s \<noteq> None) slots)" for slots
    using that l assms(1-3)
    by (auto simp: rs_decode_def rs_validate_params_def length_survivor_indices erased_def dest: list_all2_lengthD)
  with g(1) l assms(4) rs_decode_ok [OF assms g(1)] show ?thesis
    by (intro exI [of _ ?s]) (auto simp: data_ok_def)
qed

theorem rs_erasure_decoding_witness:
  "\<exists>shards. rs_encode [[1, 2], [3, 4]] 2 1 = Some (Inr shards)
    \<and> rs_decode [None, Some (shards ! 1), Some (shards ! 2)] 2 1 = Some (Inr [[1, 2], [3, 4]])"
proof -
  have "data_ok 2 2 [[1, 2], [3, 4]]" by (simp add: data_ok_def)
  from rs_erasure_decoding [OF _ _ _ this, of 1] obtain shards where
    s: "rs_encode [[1, 2], [3, 4]] 2 1 = Some (Inr shards)" "length shards = 3"
    and dec: "\<forall>slots. erased shards slots \<longrightarrow> rs_decode slots 2 1 =
         (if 2 \<le> length (filter (\<lambda>s. s \<noteq> None) slots) then Some (Inr [[1, 2], [3, 4]])
          else Some (Inl (InsufficientShards (length (filter (\<lambda>s. s \<noteq> None) slots)) 2)))" by auto
  have "erased shards [None, Some (shards ! 1), Some (shards ! 2)]"
    using s(2) by (auto simp: erased_def list_all2_conv_all_nth less_Suc_eq numeral_eq_Suc)
  from dec [rule_format, OF this] s(1) show ?thesis by auto
qed

text \<open>C35. Repair: a slab that lost at most \<open>m\<close> of its shards is repaired to exactly the shards it was encoded to, and
  the report lists exactly the missing slots.\<close>

theorem repair_restores:
  assumes "0 < k" "0 < m" "k + m \<le> 255" "data_ok k len data" "rs_encode data k m = Some (Inr shards)"
    and "erased shards (ds @ ps)" "length ds = k" "length ps = m" "k \<le> length (filter (\<lambda>s. s \<noteq> None) (ds @ ps))"
  shows "repair_shards \<lparr>ds_data_shards = ds, ds_parity_shards = ps, ds_k = k, ds_m = m\<rparr>
    = Some (Inr \<lparr>rr_data_shards = data, rr_parity_shards = drop k shards,
        rr_reconstructed = map fst (filter (\<lambda>(i, s). s = None) (enumerate 0 (ds @ ps)))\<rparr>)"
  using rs_decode_ok [OF assms(1-6,9)] assms(5,7,8) by (simp add: repair_shards_def)

theorem repair_restores_witness:
  "\<exists>shards. rs_encode [[1, 2], [3, 4]] 2 1 = Some (Inr shards)
    \<and> repair_shards \<lparr>ds_data_shards = [None, Some (shards ! 1)], ds_parity_shards = [Some (shards ! 2)], ds_k = 2, ds_m = 1\<rparr>
      = Some (Inr \<lparr>rr_data_shards = [[1, 2], [3, 4]], rr_parity_shards = drop 2 shards, rr_reconstructed = [0]\<rparr>)"
proof -
  have d: "data_ok 2 2 [[1, 2], [3, 4]]" by (simp add: data_ok_def)
  obtain g where g: "rs_encode [[1, 2], [3, 4]] 2 1
      = Some (Inr ([[1, 2], [3, 4]] @ map (\<lambda>r. row_times r [[1, 2], [3, 4]] 2) (drop 2 g)))" "shape (2 + 1) 2 g"
  proof -
    have p: "(0 :: nat) < 2" "(0 :: nat) < 1" "(2 :: nat) + 1 \<le> 255" by simp_all
    show thesis by (rule rs_encode_ok [OF p d]) (rule that)
  qed
  define shards where "shards = [[1, 2], [3, 4]] @ map (\<lambda>r. row_times r [[1, 2], [3, 4]] 2) (drop 2 g)"
  have s: "rs_encode [[1, 2], [3, 4]] 2 1 = Some (Inr shards)" "length shards = 3"
    using g by (simp_all add: shards_def shape_def)
  have e: "erased shards ([None, Some (shards ! 1)] @ [Some (shards ! 2)])"
    using s(2) by (auto simp: erased_def list_all2_conv_all_nth less_Suc_eq numeral_eq_Suc)
  from repair_restores [OF _ _ _ d s(1) e] s(1) show ?thesis by auto
qed

end
