(* ===== verification/Spec2Isabelle.thy ===== *)
theory Spec2Isabelle
  imports Manifest_Builder Delta_Linkage Dictionary_Section Profile_Descriptor Tree_Extract Epoch Compaction Tree_Writer Shamir Reed_Solomon
begin

text \<open>
  limnifs is a read-mostly, content-addressed file system image format. An image is a manifest (a sequence of
  sections under one Merkle root), a metadata blob (inodes and directory nodes, inlined in the manifest or beside it),
  and slabs (files of compressed drops, addressed by the hash of their plaintext). The library modelled here is
  \<open>limnifs-format\<close> (identifiers), \<open>limnifs-core\<close> (parsers, readers, coding), the packing half of
  \<open>limnifs-write\<close> (slab emission) and the manifest builder and round-trip harness of \<open>limnifs-conformance\<close>.

  \<^bold>\<open>How the code is modelled.\<close> A byte slice is a \<open>u8 list\<close>, a machine integer is a word of its width, a \<open>usize\<close>
  that counts bytes of a slice is a \<open>nat\<close> with its bound \<open>usize_bound\<close> where it matters. A function returning
  \<open>Result<T, CoreError>\<close> returns \<open>core_error + T\<close> (\<open>'a outcome\<close>); every message of the source is a constructor. A
  possible panic (an index out of range, an overflowing \<open>as\<close> cast that is checked, \<open>expect\<close>) is an outer \<open>option\<close>
  whose value \<open>None\<close> is the panic; theorems say where it cannot occur. A parser takes the cursor and returns the value
  with the advanced cursor. BLAKE3, the compression algorithms, the random source and the file system are parameters.

  \<^bold>\<open>Theories and sources\<close> (paths under \<open>src/\<close>)

  \<^item> \<open>Prelude\<close>: words, little-endian bytes, UTF-8, lists. \<open>Core_Error\<close>, \<open>Cursor\<close>: \<open>error.rs\<close>, \<open>cursor.rs\<close>; the locales
    \<open>wire_format\<close> of a parser and an encoder and \<open>entry_list\<close> of a counted list, from which every \<open>_accepts_iff\<close> theorem follows.
  \<^item> \<open>Format\<close>: \<open>limnifs-format/src/lib.rs\<close>: drop and slab ids, tiers, representations, the base32 text form.
  \<^item> \<open>Manifest_Header\<close>, \<open>Locator\<close>, \<open>Metadata_Reference\<close>, \<open>Ec_Params\<close>, \<open>Dms_Policy\<close>, \<open>History\<close>, \<open>Delta_Linkage\<close>,
    \<open>Dictionary_Section\<close>: the sections of a manifest (\<open>limnifs-core/src/<section>.rs\<close>), each with its encoder. Each
    parser is shown to accept exactly the encodings of the well-formed values. \<open>Profile_Descriptor\<close>: a section whose
    parser ignores unknown flag bits, so its lemma is the round trip.
  \<^item> \<open>Merkle\<close>, \<open>Manifest_Builder\<close>: \<open>merkle.rs\<close>, \<open>limnifs-conformance/src/builder.rs\<close> and \<open>harness.rs\<close>: the builder
    emits the sections, the harness parses them back and recomputes the root.
  \<^item> \<open>Directory_Node\<close>, \<open>Inode\<close>, \<open>Metadata\<close>, \<open>Path_Index\<close>: \<open>directory_node.rs\<close>, \<open>inode.rs\<close>, \<open>metadata.rs\<close>: the
    metadata blob, its invariants, and the index from paths to inodes with its abstract specification, reachability
    along directory entries.
  \<^item> \<open>Codec\<close>: \<open>codec/mod.rs\<close>, \<open>codec/store.rs\<close>, \<open>codec/composite.rs\<close>: the registry and the locales that state the
    contract of a codec. \<open>Seekable\<close>: \<open>seekable.rs\<close>: framed containers and their windowed decode.
  \<^item> \<open>Slab\<close>, \<open>Slab_Reader\<close>: \<open>slab.rs\<close>, \<open>drop_record.rs\<close>, \<open>slab_reader.rs\<close>. \<open>Slab_Writer\<close>: the part of
    \<open>limnifs-write/src/lib.rs\<close> that groups pending drops and encodes slabs. \<open>Compaction\<close>:
    \<open>limnifs-write/src/compaction.rs\<close>: the slab and the manifest of an image without its unreferenced drops.
  \<^item> \<open>Write_Context\<close>, \<open>Metadata_Writer\<close>: the writer's context in \<open>limnifs-write/src/lib.rs\<close>: folding a surveyed tree into
    inodes and directory nodes, merging chunked files, encoding the metadata blob; the parser reads back what was planned.
    \<open>Tree_Writer\<close>: the tree reached in the written blob is the surveyed tree.
  \<^item> \<open>Slab_Store\<close>, \<open>Slab_Source\<close>: \<open>slab_store.rs\<close>, \<open>slab_source.rs\<close>: the slabs of an image with their drop index, and
    the interface of a source of drops (locale \<open>slab_source\<close>, interpreted on a store, on a chain of layers and on the
    cached store). \<open>Sieve_Cache\<close>, \<open>Cached_Store\<close>: \<open>slab_cache.rs\<close>: the SIEVE cache (locale \<open>memo_cache\<close>), the cached
    store over it, and readers that share one cache, as an interleaving of lookup and fetch-and-insert steps.
  \<^item> \<open>Image_Reader\<close>: \<open>read.rs\<close>: opening an image, resolving a path, windowed reads and extraction of one file, on top
    of any \<open>slab_source\<close>.
  \<^item> \<open>Live_Tree\<close>: \<open>live_tree.rs\<close>: the walker, the sinks (drop collector, parallel extractor, file system), and the decodes of
    a file. \<open>Tree_Walk\<close> relates the walk to reachability along directory entries; \<open>Tree_Extract\<close> says what the
    extracting sinks leave behind.
  \<^item> \<open>Epoch\<close>: \<open>epoch/\<close>: the commit records of a writable image.
  \<^item> \<open>GF256\<close>, \<open>GF_Poly\<close>, \<open>Shamir\<close>, \<open>Reed_Solomon\<close>: \<open>gf256.rs\<close>, \<open>shamir.rs\<close>, \<open>reed_solomon.rs\<close>, \<open>ec_repair.rs\<close>,
    \<open>ec_scheme.rs\<close>: the field, secret sharing and erasure coding.

  \<^bold>\<open>Hypotheses.\<close> Where a theorem needs the hash to be collision-free it either concludes with the collision as a case
  or assumes it on the strings that are hashed (\<open>no_frame_collision\<close> for the frame cache). Codecs are assumed to satisfy
  the contract of their trait where a theorem needs it, the file system the laws \<open>fs_laws\<close>; each such theorem has an
  instance with concrete functions.

  \<^bold>\<open>Fuel.\<close> \<open>build_path_index\<close> is a walk that may not end, so its model takes fuel; \<open>path_index_returns_iff\<close> says for
  which blobs some fuel is enough. \<open>io_copy\<close> (the copy loop of an extraction) ends within one more round than the file has
  bytes. \<open>walk_dir\<close> takes fuel for its depth; one more than the number of inodes is enough for every blob. All other
  loops are total.

  \<^bold>\<open>Not modelled.\<close> The compression algorithms and the hash (third-party crates), encryption (\<open>aead.rs\<close>, \<open>ocb3\<close>,
  \<open>key_wrap.rs\<close>), signing, network locators, the writer's categorisers, chunker and configuration, the mutable layer
  (\<open>rw.rs\<close>, \<open>stream.rs\<close>), the FUSE front end, the benchmarks and the command line tool.
\<close>

section \<open>Manifests\<close>

text \<open>C1. The conformance round trip always succeeds: for every well-formed specification the builder returns an
  artifact, every section parser accepts the bytes it emitted, the Merkle root recomputed from the parsed section
  bytes is the builder's, and the parsed summary is the specification's.\<close>

theorem harness_round_trip:
  assumes "valid_spec H spec"
    and "\<forall>a. build H spec = Some a \<longrightarrow> length (ma_bytes a) < usize_bound"
  shows "\<exists>a. build H spec = Some a \<and> try_round_trip H dec spec = Inr
    \<lparr>encoded_root = ma_merkle_root a, parsed_root = ma_merkle_root a,
     parsed_flags = ff_entries (ms_feature_flags spec),
     parsed_metadata_inlined = is_inlined (spec_metaref H (ms_metadata_reference spec)),
     parsed_slab_count = length (si_entries (ms_slab_index spec)),
     parsed_history_count = length (h_entries (ms_history spec))\<rparr>"
proof -
  obtain a where a: "build H spec = Some a" using build_defined [OF assms(1)] by blast
  with assms(2) have len: "length (ma_bytes a) < usize_bound" by blast
  show ?thesis
    using a parses_new [OF parses_recompute_root [OF assms(1) a] len, of dec]
      parses_new [OF parses_summary [OF assms(1) a] len, of dec]
    by (simp add: try_round_trip_def parse_and_recompute_root_def parse_summary_def)
qed

definition example_spec :: manifest_spec where
  "example_spec = \<lparr>ms_header = manifest_header_current,
     ms_feature_flags = \<lparr>ff_entries = [\<lparr>flag_id = 1, required = True\<rparr>, \<lparr>flag_id = 2, required = False\<rparr>]\<rparr>,
     ms_metadata_reference = Inlined [1, 2, 3],
     ms_slab_index = slab_index_example,
     ms_ec_params = Some ec_params_example,
     ms_dms_policy = Some dms_policy_example,
     ms_history = history_example\<rparr>"

lemma example_spec_valid: "valid_spec toy_hash example_spec"
  by (simp add: valid_spec_def example_spec_def wire_eval
      valid_feature_flags_def spec_metaref_def valid_metaref_v1_def reachable_source_def
      valid_wire_blob_def hash_section_def feature_flags_get_def DEFAULT_INLINE_METADATA_MAX_BYTES_def
      DEFAULT_LOCATOR_MAX_URI_BYTES_def DEFAULT_SHARE_DATA_MAX_BYTES_def DEFAULT_HINT_MAX_BYTES_def
      DEFAULT_HISTORY_PARAMS_MAX_BYTES_def
      slab_index_example_def valid_slab_index_def
      valid_slab_index_entry_def valid_locator_def split_once_def is_valid_scheme_def is_ascii_alphabetic_def
      is_ascii_alphanumeric_def ascii_def
      ec_params_example_def valid_ec_params_def valid_shards_def valid_ec_override_def
      dms_policy_example_def valid_dms_policy_def valid_share_def valid_hint_def
      history_example_def valid_history_def valid_history_entry_def)

theorem harness_round_trip_witness:
  "\<exists>r. try_round_trip toy_hash (\<lambda>_ _ _. Inl (BadMagic [])) example_spec = Inr r \<and> parsed_slab_count r = 1"
proof -
  have len: "\<forall>a. build toy_hash example_spec = Some a \<longrightarrow> length (ma_bytes a) < usize_bound"
    by (simp add: build_def example_spec_def encode_header_def encode_feature_flags_def encode_feature_flag_def
       encode_metadata_reference_def encode_metaref_v1_def encode_inline_def spec_metaref_def encode_slab_index_def
       encode_slab_index_entry_def slab_index_example_def encode_locator_def encode_optional_def encode_ec_params_def ec_params_example_def
       encode_ec_override_def slab_id_to_bytes_def encode_dms_policy_def dms_policy_example_def encode_share_record_def
       encode_hint_def encode_history_def history_example_def encode_history_entry_def u32_try_from_def Let_def ascii_def hash_section_def)
  from harness_round_trip [OF example_spec_valid len, of "\<lambda>_ _ _. Inl (BadMagic [])"]
  show ?thesis by (auto simp: example_spec_def slab_index_example_def)
qed

section \<open>Integrity\<close>

text \<open>C2. Tamper evidence: if two byte strings recompute to the same Merkle root and the hash function has no
  collision among the strings hashed on the way, then the two agree on every byte the computation covers. Bytes after
  the history section are not covered.\<close>

theorem tamper_evident:
  assumes "\<forall>x. length (H x) = 32"
    and "recompute_root H dec (cursor_new b1) = Inr (root, c1)"
    and "recompute_root H dec (cursor_new b2) = Inr (root, c2)"
    and "inj_on H (set (hashed_strings H dec b1) \<union> set (hashed_strings H dec b2))"
  shows "take (cur_pos c1) b1 = take (cur_pos c2) b2"
proof -
  from assms(2) obtain m1 s1 where 1: "sections_of dec (cursor_new b1) = Inr ((m1, s1), c1)" "length m1 = 32"
    "length s1 = 7" "take (cur_pos c1) b1 = concat s1" "root = H (sections_merkle_input H m1 s1)"
    by (rule recompute_root_runs)
  from assms(3) obtain m2 s2 where 2: "sections_of dec (cursor_new b2) = Inr ((m2, s2), c2)" "length m2 = 32"
    "length s2 = 7" "take (cur_pos c2) b2 = concat s2" "root = H (sections_merkle_input H m2 s2)"
    by (rule recompute_root_runs)
  have in1: "insert (sections_merkle_input H m1 s1) (set s1) \<subseteq> set (hashed_strings H dec b1)"
    and in2: "insert (sections_merkle_input H m2 s2) (set s2) \<subseteq> set (hashed_strings H dec b2)"
    using 1(1) 2(1) by (auto simp: hashed_strings_def)
  have "sections_merkle_input H m1 s1 = sections_merkle_input H m2 s2"
    by (rule inj_onD [OF assms(4)]) (use 1(5) 2(5) in1 in2 in auto)
  with assms(1) 1(2,3) 2(2,3) have "map H s1 = map H s2" by (intro sections_merkle_input_inj)
  moreover have "inj_on H (set s1 \<union> set s2)" using assms(4) in1 in2 by (auto intro: inj_on_subset)
  ultimately have "s1 = s2" by (simp add: map_inj_on)
  with 1(4) 2(4) show ?thesis by simp
qed

definition small_manifest :: bytes where
  "small_manifest = [0x4C, 0x4D, 0x46, 0x53, 1, 0, 1, 0, 1, 0, 0, 0, 0, 0, 0, 0,
     1, 0, 0, 0, 0,
     1, 7, 7, 7, 7, 7, 7, 7, 7, 7, 7, 7, 7, 7, 7, 7, 7, 7, 7, 7, 7, 7, 7, 7, 7, 7, 7, 7, 7, 7, 7, 7, 7,
       0, 0, 0, 0, 1, 0, 0, 0, 9,
     1, 0, 0, 0, 0,
     1, 1, 0, 0, 0, 1, 0, 0, 0, 0, 0, 0, 0, 0, 0, 0, 0, 0, 0, 0, 0, 0]"

definition small_sections :: "bytes list" where
  "small_sections = [take 16 small_manifest, [1, 0, 0, 0, 0], take 42 (drop 21 small_manifest), [1, 0, 0, 0, 0], [], [],
     drop 68 small_manifest]"

lemma small_manifest_sections:
  "sections_of no_codec (cursor_new (small_manifest @ t)) = Inr ((sevens, small_sections),
     \<lparr>cur_bytes = small_manifest @ t, cur_pos = 90\<rparr>)" if "t = [] \<or> t = [0xAA]"
  using that by (elim disjE; simp add: sections_of_def small_sections_def small_manifest_def manifest_eval sevens_def)

lemma toy_hash_head: "toy_hash x = toy_hash y \<Longrightarrow> (word_of_nat (length x) :: byte) = word_of_nat (length y)"
  by (simp add: toy_hash_def)

lemma toy_hash_inj_sections: "length M = 330 \<Longrightarrow> inj_on toy_hash ({M, []} \<union> set small_sections)"
  unfolding inj_on_def by (auto dest!: toy_hash_head simp: small_sections_def small_manifest_def)

lemma toy_hash_inj: "inj_on toy_hash (set (hashed_strings toy_hash no_codec small_manifest)
    \<union> set (hashed_strings toy_hash no_codec (small_manifest @ [0xAA])))"
proof -
  have len: "length (sections_merkle_input toy_hash (sevens) small_sections) = 330"
    unfolding sections_merkle_input_def by (rule length_merkle_input) (simp add: hashes_32_def sevens_def)
  show ?thesis
    using toy_hash_inj_sections [OF len] small_manifest_sections [of "[]"] small_manifest_sections [of "[0xAA]"]
    by (simp add: hashed_strings_def insert_commute)
qed

theorem tamper_evident_witness:
  "take 90 small_manifest = take 90 (small_manifest @ [0xAA])"
proof -
  have "recompute_root toy_hash no_codec (cursor_new (small_manifest @ t))
      = Inr (toy_hash (sections_merkle_input toy_hash (sevens) small_sections),
          \<lparr>cur_bytes = small_manifest @ t, cur_pos = 90\<rparr>)" if "t = [] \<or> t = [0xAA]" for t
    unfolding recompute_root_sections by (simp add: pbind_def pret_def small_manifest_sections [OF that])
  from this [of "[]"] this [of "[0xAA]"] tamper_evident [OF _ _ _ toy_hash_inj] show ?thesis by fastforce
qed
end
